(* ===== verification/Prelude.thy ===== *)
theory Prelude
  imports Main "HOL-Library.Word"
begin

unbundle bit_operations_syntax

text \<open>
  Shared vocabulary of the development: the C integer types as words, the C operators whose
  meaning differs from the HOL ones (truncating division, the byte-order conversions), the
  decimal and hexadecimal renderings of \<^verbatim>\<open>printf\<close> together with their inverses, and the
  lemma collections that the component theories extend.

  The target is a 64-bit little-endian machine (LP64), the one the repository is built for:
  \<^verbatim>\<open>int\<close> and \<^verbatim>\<open>pid_t\<close> have 32 bits, \<^verbatim>\<open>long\<close>, \<^verbatim>\<open>long long\<close>, pointers and \<^verbatim>\<open>size_t\<close> have 64.
\<close>

section \<open>Lemma collections\<close>

named_theorems handler_defs \<open>definitions of the BPF programs, unfolded in their step lemmas\<close>
named_theorems app_defs \<open>definitions of the user-space programs' control flow\<close>

section \<open>Machine integers\<close>

type_synonym u8 = "8 word"
type_synonym u16 = "16 word"
type_synonym u32 = "32 word"
type_synonym u64 = "64 word"
type_synonym s32 = "32 word" \<comment> \<open>\<^verbatim>\<open>int\<close>, \<^verbatim>\<open>pid_t\<close>: read with \<^term>\<open>sint\<close>\<close>
type_synonym s64 = "64 word" \<comment> \<open>\<^verbatim>\<open>long\<close>, \<^verbatim>\<open>long long\<close>: read with \<^term>\<open>sint\<close>\<close>

text \<open>
  \<^verbatim>\<open>pid = bpf_get_current_pid_tgid() >> 32\<close>: the upper half of the 64-bit value (the process,
  the kernel's tgid), converted to \<^verbatim>\<open>pid_t\<close>. The lower half is the thread.
\<close>

definition tgid_of :: "u64 \<Rightarrow> s32" where
  "tgid_of w = ucast (drop_bit 32 w)"

definition tid_of :: "u64 \<Rightarrow> u32" where
  "tid_of w = ucast w"

definition pid_tgid :: "s32 \<Rightarrow> u32 \<Rightarrow> u64" where
  "pid_tgid tgid tid = push_bit 32 (ucast tgid) OR ucast tid"

lemma tgid_of_pid_tgid [simp]: "tgid_of (pid_tgid p t) = p"
  by (rule bit_word_eqI)
    (auto simp: tgid_of_def pid_tgid_def bit_simps add.commute dest: bit_imp_le_length)

lemma tid_of_pid_tgid [simp]: "tid_of (pid_tgid p t) = t"
  by (rule bit_word_eqI)
    (auto simp: tid_of_def pid_tgid_def bit_simps dest: bit_imp_le_length)

text \<open>A counter that is not at its maximum is incremented without wrapping.\<close>

lemma unat_inc: "(w :: 'a::len word) \<noteq> - 1 \<Longrightarrow> unat (w + 1) = Suc (unat w)"
  using unatSuc [of w] by (simp add: add.commute eq_neg_iff_add_eq_0)

lemma less_inc: "(w :: 'a::len word) \<noteq> - 1 \<Longrightarrow> w < w + 1"
  by (simp add: word_less_nat_alt unat_inc)

lemma s32_of_nat:
  assumes "m < 2 ^ 31"
  shows "sint (word_of_nat m :: s32) = int m" and "unat (word_of_nat m :: s32) = m"
  using assms by (simp_all add: signed_of_nat signed_take_bit_int_eq_self unat_of_nat)

lemma s32_of_int:
  "- (2 ^ 31) \<le> i \<Longrightarrow> i < 2 ^ 31 \<Longrightarrow> sint (word_of_int i :: s32) = i"
  by (simp add: signed_of_int signed_take_bit_int_eq_self)

text \<open>\<^verbatim>\<open>int\<close> arithmetic is undefined when the result does not fit.\<close>

definition as_int :: "int \<Rightarrow> int option" where
  "as_int i = (if - (2 ^ 31) \<le> i \<and> i < 2 ^ 31 then Some i else None)"

text \<open>The same for \<^verbatim>\<open>long long\<close>.\<close>

definition as_llong :: "int \<Rightarrow> int option" where
  "as_llong i = (if - (2 ^ 63) \<le> i \<and> i < 2 ^ 63 then Some i else None)"

text \<open>C division rounds towards zero; its result on a zero divisor is never used below.\<close>

definition cdiv :: "int \<Rightarrow> int \<Rightarrow> int" where
  "cdiv a b = sgn a * sgn b * (\<bar>a\<bar> div \<bar>b\<bar>)"

lemma cdiv_nonneg: "0 \<le> a \<Longrightarrow> 0 < b \<Longrightarrow> cdiv a b = a div b"
  by (cases "a = 0") (simp_all add: cdiv_def)

lemma cdiv_bounds: "0 \<le> a \<Longrightarrow> 0 < b \<Longrightarrow> 0 \<le> cdiv a b \<and> cdiv a b \<le> a"
  by (simp add: cdiv_nonneg pos_imp_zdiv_nonneg_iff zdiv_mono2 [of a 1 b, simplified])

text \<open>\<^verbatim>\<open>htons\<close>/\<^verbatim>\<open>ntohs\<close> and \<^verbatim>\<open>htonl\<close>/\<^verbatim>\<open>ntohl\<close> on a little-endian machine swap the bytes.\<close>

definition bswap16 :: "u16 \<Rightarrow> u16" where
  "bswap16 x = push_bit 8 (take_bit 8 x) OR drop_bit 8 x"

definition bswap32 :: "u32 \<Rightarrow> u32" where
  "bswap32 x = push_bit 24 (take_bit 8 x) OR push_bit 16 (take_bit 8 (drop_bit 8 x))
     OR push_bit 8 (take_bit 8 (drop_bit 16 x)) OR drop_bit 24 x"

lemma bswap16_bswap16 [simp]: "bswap16 (bswap16 x) = x"
  by (rule bit_word_eqI) (auto simp: bswap16_def bit_simps not_less)

lemma bswap32_bswap32 [simp]: "bswap32 (bswap32 x) = x"
proof (rule bit_word_eqI)
  fix n
  assume "n < LENGTH(32)"
  moreover define k where "k = n mod 8"
  ultimately have "k < 8" and "n = k \<or> n = 8 + k \<or> n = 16 + k \<or> n = 24 + k"
    by simp_all presburger
  then show "bit (bswap32 (bswap32 x)) n \<longleftrightarrow> bit x n"
    by (elim disjE) (simp_all add: bswap32_def bit_simps)
qed

section \<open>Numbers in text\<close>

text \<open>
  \<^verbatim>\<open>%u\<close>, \<^verbatim>\<open>%d\<close> and \<^verbatim>\<open>%lx\<close> of \<^verbatim>\<open>printf\<close>: \<open>to_base b\<close> writes a natural number in base
  \<open>b \<le> 16\<close>, most significant digit first; \<open>of_base b\<close> reads such a text back.
\<close>

definition digits16 :: string where
  "digits16 = ''0123456789abcdef''"

definition digit_char :: "nat \<Rightarrow> char" where
  "digit_char d = digits16 ! d"

definition digit_val :: "char \<Rightarrow> nat" where
  "digit_val c = (if c \<in> set ''abcdef'' then of_char c - 87 else of_char c - 48)"

function to_base :: "nat \<Rightarrow> nat \<Rightarrow> string" where
  "to_base b n =
     (if n < b \<or> b < 2 then [digit_char n] else to_base b (n div b) @ [digit_char (n mod b)])"
  by pat_completeness auto
termination
  by (relation "measure snd") (auto intro: div_less_dividend)

declare to_base.simps [simp del]

definition of_base :: "nat \<Rightarrow> string \<Rightarrow> nat" where
  "of_base b s = foldl (\<lambda>acc c. acc * b + digit_val c) 0 s"

definition dec_int :: "int \<Rightarrow> string" where
  "dec_int i = (if i < 0 then CHR ''-'' # to_base 10 (nat (- i)) else to_base 10 (nat i))"

lemma digit_val_char: "d < 16 \<Longrightarrow> digit_val (digit_char d) = d"
proof -
  assume "d < 16"
  then have "d \<in> set [0..<16]" by simp
  also have "[0..<16] = [0, 1, 2, 3, 4, 5, 6, 7, 8, 9, 10, 11, 12, 13, 14, 15 :: nat]"
    by (simp add: upt_rec)
  finally show ?thesis by (auto simp: digit_val_def digit_char_def digits16_def)
qed

lemma to_base_nonempty [simp]: "to_base b n \<noteq> []"
  by (subst to_base.simps) simp

lemma of_base_snoc [simp]: "of_base b (s @ [c]) = of_base b s * b + digit_val c"
  by (simp add: of_base_def)

lemma of_base_to_base:
  assumes "2 \<le> b" "b \<le> 16"
  shows "of_base b (to_base b n) = n"
  using assms
proof (induction b n rule: to_base.induct)
  case (1 b n)
  show ?case
  proof (cases "n < b")
    case True
    with "1.prems" have "n < 16" by simp
    with True show ?thesis
      by (simp add: to_base.simps [of b n] of_base_def digit_val_char)
  next
    case False
    from "1.prems" have "n mod b < 16"
      by (intro less_le_trans [OF mod_less_divisor]) auto
    with False "1" show ?thesis
      by (simp add: to_base.simps [of b n] digit_val_char)
  qed
qed

lemma to_base_inj: "2 \<le> b \<Longrightarrow> b \<le> 16 \<Longrightarrow> to_base b m = to_base b n \<longleftrightarrow> m = n"
  by (metis of_base_to_base)

text \<open>A number below \<open>b ^ k\<close> has at most \<open>k\<close> digits.\<close>

lemma length_to_base: "2 \<le> b \<Longrightarrow> 0 < k \<Longrightarrow> n < b ^ k \<Longrightarrow> length (to_base b n) \<le> k"
proof (induction k arbitrary: n)
  case 0
  then show ?case by simp
next
  case (Suc k)
  show ?case
  proof (cases "n < b")
    case True
    then show ?thesis by (simp add: to_base.simps [of b n])
  next
    case False
    with Suc.prems have "0 < k" by (cases k) auto
    moreover have "n div b < b ^ k"
      using Suc.prems by (simp add: less_mult_imp_div_less mult.commute)
    ultimately have "length (to_base b (n div b)) \<le> k"
      using Suc.prems by (intro Suc.IH) auto
    with False Suc.prems show ?thesis by (simp add: to_base.simps [of b n])
  qed
qed

lemma set_to_base:
  "2 \<le> b \<Longrightarrow> b \<le> 16 \<Longrightarrow> set (to_base b n) \<subseteq> set digits16"
proof (induction b n rule: to_base.induct)
  case (1 b n)
  have d: "digit_char k \<in> set digits16" if "k < 16" for k
    unfolding digit_char_def using that by (intro nth_mem) (simp add: digits16_def)
  show ?case
  proof (cases "n < b")
    case True
    with "1.prems" d [of n] show ?thesis by (simp add: to_base.simps [of b n])
  next
    case False
    from "1.prems" have "n mod b < 16" by (intro less_le_trans [OF mod_less_divisor]) auto
    with False "1" d [of "n mod b"] show ?thesis
      by (simp add: to_base.simps [of b n])
  qed
qed

section \<open>Error numbers\<close>

text \<open>The values of \<^verbatim>\<open>errno\<close> that the programs and the kernel's map operations use.\<close>

abbreviation (input) ENOENT :: int where "ENOENT \<equiv> 2"
abbreviation (input) EINTR :: int where "EINTR \<equiv> 4"
abbreviation (input) E2BIG :: int where "E2BIG \<equiv> 7"
abbreviation (input) EAGAIN :: int where "EAGAIN \<equiv> 11"
abbreviation (input) EEXIST :: int where "EEXIST \<equiv> 17"
abbreviation (input) EINVAL :: int where "EINVAL \<equiv> 22"

section \<open>Lists\<close>

text \<open>What every prefix and its next element contribute, for a list extended at the end.\<close>

lemma concat_map_prefixes_snoc:
  "concat (map (\<lambda>n. f (take n (xs @ [x])) ((xs @ [x]) ! n)) [0..<length (xs @ [x])])
    = concat (map (\<lambda>n. f (take n xs) (xs ! n)) [0..<length xs]) @ f xs x"
proof -
  have "map (\<lambda>n. f (take n (xs @ [x])) ((xs @ [x]) ! n)) [0..<length xs]
      = map (\<lambda>n. f (take n xs) (xs ! n)) [0..<length xs]"
    by (rule map_cong [OF refl]) (auto simp: nth_append)
  moreover have "[0..<length (xs @ [x])] = [0..<length xs] @ [length xs]" by simp
  ultimately show ?thesis by (simp only: map_append concat_append) simp
qed

end
