(* ===== verification/Bpf_Maps.thy ===== *)
theory Bpf_Maps
  imports Prelude "HOL-Library.AList"
begin

text \<open>
  The kernel's BPF maps, as the programs see them. Their code is not part of the repository, so
  the operations are an argument of every handler that uses a map (a record \<open>map_ops\<close>), and what
  the programs rely on are the laws of the locales below, taken from the documented behaviour of
  \<^verbatim>\<open>bpf(2)\<close> and \<^verbatim>\<open>bpf-helpers(7)\<close>:
  \<^item> \<open>bpf_map\<close>: a lookup returns a pointer to the element, a store through it changes that
    element only; an update stores the element or fails with a negative code and no effect;
  \<^item> \<open>bpf_array_map\<close>: \<^verbatim>\<open>BPF_MAP_TYPE_ARRAY\<close>, every index below \<^verbatim>\<open>max_entries\<close> is present;
  \<^item> \<open>bpf_hash_map\<close>: \<^verbatim>\<open>BPF_MAP_TYPE_HASH\<close>, at most \<^verbatim>\<open>max_entries\<close> elements, which are
    preallocated, so that an update fails only for a new key of a full map;
  \<^item> \<open>bpf_iter_map\<close>: the key order that \<^verbatim>\<open>BPF_MAP_GET_NEXT_KEY\<close> walks.
  A bounded association list and a list are instances of the laws.
\<close>

section \<open>Operations\<close>

record ('m, 'k, 'v) map_ops =
  lookup_elem :: "'m \<Rightarrow> 'k \<Rightarrow> 'v option" \<comment> \<open>\<^verbatim>\<open>bpf_map_lookup_elem\<close>: None is the null pointer\<close>
  store_elem :: "'m \<Rightarrow> 'k \<Rightarrow> 'v \<Rightarrow> 'm" \<comment> \<open>a store through the pointer of a lookup\<close>
  update_elem :: "'m \<Rightarrow> 'k \<Rightarrow> 'v \<Rightarrow> 'm \<times> int" \<comment> \<open>\<^verbatim>\<open>bpf_map_update_elem\<close> with \<^verbatim>\<open>BPF_ANY\<close>\<close>
  delete_elem :: "'m \<Rightarrow> 'k \<Rightarrow> 'm \<times> int" \<comment> \<open>\<^verbatim>\<open>bpf_map_delete_elem\<close>\<close>
  next_key :: "'m \<Rightarrow> 'k \<Rightarrow> 'k option" \<comment> \<open>\<^verbatim>\<open>bpf_map__get_next_key\<close>: None is a non-zero return\<close>

section \<open>Laws\<close>

locale bpf_map =
  fixes ops :: "('m, 'k, 'v) map_ops"
    and inv :: "'m \<Rightarrow> bool"
  assumes lookup_store:
      "inv m \<Longrightarrow> lookup_elem ops m k \<noteq> None \<Longrightarrow>
       lookup_elem ops (store_elem ops m k v) = (lookup_elem ops m)(k \<mapsto> v)"
    and inv_store:
      "inv m \<Longrightarrow> lookup_elem ops m k \<noteq> None \<Longrightarrow> inv (store_elem ops m k v)"
    and lookup_update_ok:
      "inv m \<Longrightarrow> update_elem ops m k v = (m', 0) \<Longrightarrow>
       lookup_elem ops m' = (lookup_elem ops m)(k \<mapsto> v)"
    and lookup_update_err:
      "inv m \<Longrightarrow> update_elem ops m k v = (m', r) \<Longrightarrow> r \<noteq> 0 \<Longrightarrow>
       r < 0 \<and> lookup_elem ops m' = lookup_elem ops m"
    and inv_update:
      "inv m \<Longrightarrow> update_elem ops m k v = (m', r) \<Longrightarrow> inv m'"
begin

lemma update_cases:
  assumes "inv m"
  obtains (ok) m' where "update_elem ops m k v = (m', 0)" "inv m'"
      "lookup_elem ops m' = (lookup_elem ops m)(k \<mapsto> v)"
  | (err) m' r where "update_elem ops m k v = (m', r)" "r < 0" "inv m'"
      "lookup_elem ops m' = lookup_elem ops m"
  using assms lookup_update_ok lookup_update_err inv_update
  by (cases "update_elem ops m k v") (metis (full_types))

text \<open>
  The idiom of the page tracker: modify the element in place through the pointer, then write
  the modified element back. Whether the write succeeds or not, the element is the modified one.
\<close>

lemma store_then_update:
  assumes "inv m" "lookup_elem ops m k \<noteq> None"
  shows "lookup_elem ops (fst (update_elem ops (store_elem ops m k v) k v))
           = (lookup_elem ops m)(k \<mapsto> v)"
    and "inv (fst (update_elem ops (store_elem ops m k v) k v))"
proof -
  have i: "inv (store_elem ops m k v)" by (rule inv_store [OF assms])
  note l = lookup_store [OF assms, of v]
  show "lookup_elem ops (fst (update_elem ops (store_elem ops m k v) k v))
      = (lookup_elem ops m)(k \<mapsto> v)"
    using i by (cases rule: update_cases [where m = "store_elem ops m k v" and k = k and v = v])
      (simp_all add: l)
  show "inv (fst (update_elem ops (store_elem ops m k v) k v))"
    using i by (cases rule: update_cases [where m = "store_elem ops m k v" and k = k and v = v])
      simp_all
qed

end

locale bpf_array_map = bpf_map ops inv
  for ops :: "('m, u32, 'v) map_ops" and inv :: "'m \<Rightarrow> bool" +
  fixes max_entries :: nat
  assumes lookup_array: "inv m \<Longrightarrow> lookup_elem ops m i \<noteq> None \<longleftrightarrow> unat i < max_entries"

locale bpf_hash_map = bpf_map ops inv
  for ops :: "('m, 'k, 'v) map_ops" and inv :: "'m \<Rightarrow> bool" +
  fixes max_entries :: nat
  assumes finite_dom: "inv m \<Longrightarrow> finite (dom (lookup_elem ops m))"
    and capacity: "inv m \<Longrightarrow> card (dom (lookup_elem ops m)) \<le> max_entries"
    and update_room:
      "inv m \<Longrightarrow> lookup_elem ops m k \<noteq> None \<or> card (dom (lookup_elem ops m)) < max_entries \<Longrightarrow>
       snd (update_elem ops m k v) = 0"
    and delete_present:
      "inv m \<Longrightarrow> lookup_elem ops m k \<noteq> None \<Longrightarrow> snd (delete_elem ops m k) = 0"
    and delete_absent:
      "inv m \<Longrightarrow> lookup_elem ops m k = None \<Longrightarrow> snd (delete_elem ops m k) = - ENOENT"
    and lookup_delete:
      "inv m \<Longrightarrow> lookup_elem ops (fst (delete_elem ops m k)) = (lookup_elem ops m)(k := None)"
    and inv_delete: "inv m \<Longrightarrow> inv (fst (delete_elem ops m k))"
begin

lemma update_full:
  assumes "inv m" "lookup_elem ops m k = None"
    and "card (dom (lookup_elem ops m)) = max_entries"
  shows "snd (update_elem ops m k v) < 0"
    and "lookup_elem ops (fst (update_elem ops m k v)) = lookup_elem ops m"
proof -
  have err: "\<exists>m' r. update_elem ops m k v = (m', r) \<and> r < 0 \<and> lookup_elem ops m' = lookup_elem ops m"
    using assms(1)
  proof (cases rule: update_cases [where k = k and v = v])
    case (ok m')
    have "card (dom (lookup_elem ops m')) = Suc (card (dom (lookup_elem ops m)))"
      using ok assms(2) finite_dom [OF assms(1)] by (simp add: card_insert_if domIff)
    with ok assms(3) capacity [of m'] show ?thesis by simp
  next
    case (err m' r)
    then show ?thesis by blast
  qed
  then show "snd (update_elem ops m k v) < 0"
    and "lookup_elem ops (fst (update_elem ops m k v)) = lookup_elem ops m"
    by auto
qed

lemma lookup_update_room:
  assumes "inv m" "lookup_elem ops m k \<noteq> None \<or> card (dom (lookup_elem ops m)) < max_entries"
  shows "lookup_elem ops (fst (update_elem ops m k v)) = (lookup_elem ops m)(k \<mapsto> v)"
  using lookup_update_ok [OF assms(1)] update_room [OF assms] by (metis prod.collapse)

text \<open>There is room for a key if the map with that key would still fit.\<close>

lemma fits_room:
  assumes "inv m" "card (insert k (dom (lookup_elem ops m))) \<le> max_entries"
  shows "lookup_elem ops m k \<noteq> None \<or> card (dom (lookup_elem ops m)) < max_entries"
  using assms(2) finite_dom [OF assms(1)] by (auto simp: card_insert_if split: if_splits)

lemmas lookup_update_fits = lookup_update_room [OF _ fits_room]

lemma inv_update_fst: "inv m \<Longrightarrow> inv (fst (update_elem ops m k v))"
  by (metis inv_update prod.collapse)

end

text \<open>
  Iteration: the keys have an order while the map does not change. From a key of the map the
  successor follows, from any other key the walk starts at the first one.
\<close>

fun after :: "'k \<Rightarrow> 'k list \<Rightarrow> 'k option" where
  "after k [] = None"
| "after k (x # xs) = (if x = k then (case xs of [] \<Rightarrow> None | y # _ \<Rightarrow> Some y) else after k xs)"

definition successor :: "'k list \<Rightarrow> 'k \<Rightarrow> 'k option" where
  "successor ks k =
     (if k \<in> set ks then after k ks else (case ks of [] \<Rightarrow> None | y # _ \<Rightarrow> Some y))"

lemma after_split:
  "k \<notin> set xs \<Longrightarrow> after k (xs @ k # ys) = (case ys of [] \<Rightarrow> None | y # _ \<Rightarrow> Some y)"
  by (induction xs) auto

locale bpf_iter_map =
  fixes ops :: "('m, 'k, 'v) map_ops"
    and inv :: "'m \<Rightarrow> bool"
    and keys :: "'m \<Rightarrow> 'k list"
  assumes distinct_keys: "inv m \<Longrightarrow> distinct (keys m)"
    and set_keys: "inv m \<Longrightarrow> set (keys m) = dom (lookup_elem ops m)"
    and next_key: "inv m \<Longrightarrow> next_key ops m k = successor (keys m) k"

section \<open>A bounded association list is a hash map\<close>

definition alist_update :: "nat \<Rightarrow> ('k \<times> 'v) list \<Rightarrow> 'k \<Rightarrow> 'v \<Rightarrow> ('k \<times> 'v) list \<times> int" where
  "alist_update cap m k v =
     (if map_of m k \<noteq> None \<or> length m < cap then (AList.update k v m, 0) else (m, - E2BIG))"

definition alist_delete :: "('k \<times> 'v) list \<Rightarrow> 'k \<Rightarrow> ('k \<times> 'v) list \<times> int" where
  "alist_delete m k = (AList.delete k m, if map_of m k = None then - ENOENT else 0)"

definition alist_ops :: "nat \<Rightarrow> (('k \<times> 'v) list, 'k, 'v) map_ops" where
  "alist_ops cap = \<lparr>lookup_elem = map_of, store_elem = (\<lambda>m k v. AList.update k v m),
     update_elem = alist_update cap, delete_elem = alist_delete,
     next_key = (\<lambda>m. successor (map fst m))\<rparr>"

definition alist_inv :: "nat \<Rightarrow> ('k \<times> 'v) list \<Rightarrow> bool" where
  "alist_inv cap m \<longleftrightarrow> distinct (map fst m) \<and> length m \<le> cap"

lemma alist_ops_simps [simp]:
  "lookup_elem (alist_ops cap) = map_of"
  "store_elem (alist_ops cap) m k v = AList.update k v m"
  "update_elem (alist_ops cap) = alist_update cap"
  "delete_elem (alist_ops cap) = alist_delete"
  "next_key (alist_ops cap) m = successor (map fst m)"
  by (simp_all add: alist_ops_def)

lemma length_alist_update:
  "length (AList.update k v m) = (if map_of m k = None then Suc (length m) else length m)"
  by (induction m) auto

lemma card_dom_alist: "distinct (map fst m) \<Longrightarrow> card (dom (map_of m)) = length m"
  by (metis card_image distinct_card dom_map_of_conv_image_fst length_map list.set_map)

lemma alist_update_fst:
  "distinct (map fst m) \<Longrightarrow> distinct (map fst (AList.update k v m))"
  by (rule distinct_update)

lemma alist_inv_Nil [simp]: "alist_inv cap []"
  by (simp add: alist_inv_def)

interpretation alist: bpf_hash_map "alist_ops cap" "alist_inv cap" cap for cap
proof
  fix m :: "('k \<times> 'v) list" and k :: 'k and v :: 'v and m' r
  assume i: "alist_inv cap m"
  then have d: "distinct (map fst m)" and l: "length m \<le> cap" by (simp_all add: alist_inv_def)
  show "lookup_elem (alist_ops cap) (store_elem (alist_ops cap) m k v)
      = (lookup_elem (alist_ops cap) m)(k \<mapsto> v)"
    by (simp add: update_conv')
  show "alist_inv cap (store_elem (alist_ops cap) m k v)"
    if "lookup_elem (alist_ops cap) m k \<noteq> None"
    using that d l
    by (cases "map_of m k") (auto simp: alist_inv_def alist_update_fst length_alist_update)
  show "lookup_elem (alist_ops cap) m' = (lookup_elem (alist_ops cap) m)(k \<mapsto> v)"
    if "update_elem (alist_ops cap) m k v = (m', 0)"
    using that by (auto simp: alist_update_def update_conv' split: if_splits)
  show "r < 0 \<and> lookup_elem (alist_ops cap) m' = lookup_elem (alist_ops cap) m"
    if "update_elem (alist_ops cap) m k v = (m', r)" "r \<noteq> 0"
    using that by (auto simp: alist_update_def split: if_splits)
  show "alist_inv cap m'" if "update_elem (alist_ops cap) m k v = (m', r)"
    using that d l
    by (auto simp: alist_update_def alist_inv_def alist_update_fst length_alist_update
        split: if_splits)
  show "finite (dom (lookup_elem (alist_ops cap) m))" by (simp add: finite_dom_map_of)
  show "card (dom (lookup_elem (alist_ops cap) m)) \<le> cap" using d l by (simp add: card_dom_alist)
  show "snd (update_elem (alist_ops cap) m k v) = 0"
    if "lookup_elem (alist_ops cap) m k \<noteq> None
      \<or> card (dom (lookup_elem (alist_ops cap) m)) < cap"
    using that d by (auto simp: alist_update_def card_dom_alist)
  show "snd (delete_elem (alist_ops cap) m k) = 0" if "lookup_elem (alist_ops cap) m k \<noteq> None"
    using that by (simp add: alist_delete_def)
  show "snd (delete_elem (alist_ops cap) m k) = - ENOENT"
    if "lookup_elem (alist_ops cap) m k = None"
    using that by (simp add: alist_delete_def)
  show "lookup_elem (alist_ops cap) (fst (delete_elem (alist_ops cap) m k))
      = (lookup_elem (alist_ops cap) m)(k := None)"
    by (simp add: alist_delete_def delete_conv')
  show "alist_inv cap (fst (delete_elem (alist_ops cap) m k))"
    using d l length_delete_le [of k m]
    by (auto simp: alist_inv_def alist_delete_def distinct_delete)
qed

interpretation alist_iter: bpf_iter_map "alist_ops cap" "alist_inv cap" "map fst" for cap
  by unfold_locales (auto simp: alist_inv_def dom_map_of_conv_image_fst)

section \<open>A list is an array map\<close>

definition array_update :: "'v list \<Rightarrow> u32 \<Rightarrow> 'v \<Rightarrow> 'v list \<times> int" where
  "array_update xs i v = (if unat i < length xs then (xs[unat i := v], 0) else (xs, - E2BIG))"

definition array_ops :: "('v list, u32, 'v) map_ops" where
  "array_ops = \<lparr>lookup_elem = (\<lambda>xs i. if unat i < length xs then Some (xs ! unat i) else None),
     store_elem = (\<lambda>xs i v. xs[unat i := v]), update_elem = array_update,
     delete_elem = (\<lambda>xs i. (xs, - EINVAL)),
     next_key = (\<lambda>xs. successor (map word_of_nat [0..<length xs]))\<rparr>"

lemma array_ops_simps [simp]:
  "lookup_elem array_ops xs i = (if unat i < length xs then Some (xs ! unat i) else None)"
  "store_elem array_ops xs i v = xs[unat i := v]"
  "update_elem array_ops = array_update"
  by (simp_all add: array_ops_def)

interpretation array: bpf_array_map array_ops "\<lambda>xs. length xs = n" n for n
  by unfold_locales (auto simp: fun_eq_iff array_update_def nth_list_update word_unat_eq_iff
      split: if_splits)

lemmas alist_map_axioms = alist.bpf_hash_map_axioms
lemmas array_map_axioms = array.bpf_array_map_axioms

end
