(* ===== verification/Page_Tracker.thy ===== *)
theory Page_Tracker
  imports Bpf_Maps
begin

text \<open>
  The page tracker, \<^verbatim>\<open>examples/c/kprobe.bpf.c\<close>: two kernel probes that keep, per page-cache
  folio, how often and how recently the tracked processes have touched it. The state is the
  three maps of the object file and the trace pipe; the operations of the maps are arguments.
  The theory shows that, over any sequence of probe hits, the maps hold exactly the abstract
  access statistics (a refinement of \<open>page_spec\<close>), what a hit count and a rank mean in terms
  of the events, and which invariants survive when a map update fails.
\<close>

section \<open>Data\<close>

record page_key =
  pk_mapping :: u64 \<comment> \<open>address of the \<^verbatim>\<open>address_space\<close>\<close>
  pk_index :: u64

record metric =
  m_ref_count :: u64
  m_rank :: u64
  m_page_count :: u64
  m_pid :: s32

record folio =
  f_mapping :: u64
  f_index :: u64
  f_nr_pages :: u32 \<comment> \<open>\<^verbatim>\<open>_folio_nr_pages\<close>, an \<^verbatim>\<open>unsigned int\<close>\<close>

text \<open>The three maps and the trace pipe that \<^verbatim>\<open>bpf_printk\<close> appends to.\<close>

record ('a, 'c, 'p) kprobe_maps =
  page_access_map :: 'a
  static_counter :: 'c
  pid_map :: 'p
  trace_pipe :: "string list"

abbreviation page_access_max_entries :: nat where "page_access_max_entries \<equiv> 409600"
abbreviation static_counter_max_entries :: nat where "static_counter_max_entries \<equiv> 1"
abbreviation pid_map_max_entries :: nat where "pid_map_max_entries \<equiv> 120"

type_synonym 'a page_map_ops = "('a, page_key, metric) map_ops"
type_synonym 'c counter_ops = "('c, u32, u64) map_ops"
type_synonym 'p pid_map_ops = "('p, s32, u8) map_ops"

section \<open>The probes\<close>

text \<open>
  \<^verbatim>\<open>kprobe/folio_mark_accessed\<close>. \<open>ac\<close> is the element that the pointer \<^verbatim>\<open>access_count\<close> points
  to: the assignments through the pointer are stores into the map, and the final update passes
  the element itself. The results of the updates are ignored, as in the source.
\<close>

definition folio_mark_accessed ::
  "'a page_map_ops \<Rightarrow> 'c counter_ops \<Rightarrow> 'p pid_map_ops \<Rightarrow> u64 \<Rightarrow> folio \<Rightarrow>
   ('a, 'c, 'p) kprobe_maps \<Rightarrow> ('a, 'c, 'p) kprobe_maps \<times> int" where
  "folio_mark_accessed pops cops qops current f1 s =
    (let pid = tgid_of current; rank_index = 0 in
     case lookup_elem qops (pid_map s) pid of
       None \<Rightarrow> (s, 0)
     | Some _ \<Rightarrow>
       (let key = \<lparr>pk_mapping = f_mapping f1, pk_index = f_index f1\<rparr>;
            page_count = ucast (f_nr_pages f1);
            new_count = \<lparr>m_ref_count = 1, m_rank = 0, m_page_count = page_count, m_pid = pid\<rparr>
        in case lookup_elem pops (page_access_map s) key of
          None \<Rightarrow>
            (let (c, new_count) =
               (case lookup_elem cops (static_counter s) rank_index of
                  None \<Rightarrow> (static_counter s, new_count)
                | Some counter \<Rightarrow>
                    (store_elem cops (static_counter s) rank_index (counter + 1),
                     new_count\<lparr>m_rank := counter + 1\<rparr>));
                 m = fst (update_elem pops (page_access_map s) key new_count)
             in (s\<lparr>page_access_map := m, static_counter := c\<rparr>, 0))
        | Some access_count \<Rightarrow>
            (let ac = access_count\<lparr>m_ref_count := m_ref_count access_count + 1\<rparr>;
                 m = store_elem pops (page_access_map s) key ac;
                 (c, ac) =
                   (case lookup_elem cops (static_counter s) rank_index of
                      None \<Rightarrow> (static_counter s, ac)
                    | Some counter \<Rightarrow>
                        (store_elem cops (static_counter s) rank_index (counter + 1),
                         ac\<lparr>m_pid := pid, m_rank := counter + 1\<rparr>));
                 ac = ac\<lparr>m_page_count := page_count\<rparr>;
                 m = store_elem pops m key ac;
                 m = fst (update_elem pops m key ac)
             in (s\<lparr>page_access_map := m, static_counter := c\<rparr>, 0))))"

text \<open>\<^verbatim>\<open>kprobe/filemap_free_folio\<close>: the page leaves the page cache.\<close>

definition filemap_free_folio ::
  "'a page_map_ops \<Rightarrow> u64 \<Rightarrow> u64 \<Rightarrow> folio \<Rightarrow>
   ('a, 'c, 'p) kprobe_maps \<Rightarrow> ('a, 'c, 'p) kprobe_maps \<times> int" where
  "filemap_free_folio pops current tmp_mapping f1 s =
    (let pid = tgid_of current;
         key = \<lparr>pk_mapping = tmp_mapping, pk_index = f_index f1\<rparr>
     in case lookup_elem pops (page_access_map s) key of
          None \<Rightarrow> (s, 0)
        | Some _ \<Rightarrow>
            (s\<lparr>trace_pipe := trace_pipe s @
                 [''KPROBE ENTRY delete pid = '' @ dec_int (sint pid)
                    @ '', index = '' @ dec_int (sint (pk_index key)) @ [CHR 0x0A]],
               page_access_map := fst (delete_elem pops (page_access_map s) key)\<rparr>, 0))"

text \<open>
  The events that drive the maps: the two probes, and a process added to \<^verbatim>\<open>pid_map\<close> by the
  loader (\<^verbatim>\<open>pid_receiver\<close> of \<^verbatim>\<open>kprobe.c\<close>, \<^verbatim>\<open>dummy = 1\<close>).
\<close>

datatype page_event =
    Mark_accessed u64 folio
  | Free_folio u64 u64 folio
  | Add_pid s32

fun page_step ::
  "'a page_map_ops \<Rightarrow> 'c counter_ops \<Rightarrow> 'p pid_map_ops \<Rightarrow> page_event \<Rightarrow>
   ('a, 'c, 'p) kprobe_maps \<Rightarrow> ('a, 'c, 'p) kprobe_maps" where
  "page_step pops cops qops (Mark_accessed current f) s =
     fst (folio_mark_accessed pops cops qops current f s)"
| "page_step pops cops qops (Free_folio current tmp f) s =
     fst (filemap_free_folio pops current tmp f s)"
| "page_step pops cops qops (Add_pid pid) s =
     s\<lparr>pid_map := fst (update_elem qops (pid_map s) pid 1)\<rparr>"

definition page_run ::
  "'a page_map_ops \<Rightarrow> 'c counter_ops \<Rightarrow> 'p pid_map_ops \<Rightarrow> page_event list \<Rightarrow>
   ('a, 'c, 'p) kprobe_maps \<Rightarrow> ('a, 'c, 'p) kprobe_maps" where
  "page_run pops cops qops es s = fold (page_step pops cops qops) es s"

lemma page_run_Nil [simp]: "page_run pops cops qops [] s = s"
  and page_run_snoc [simp]:
    "page_run pops cops qops (es @ [e]) s = page_step pops cops qops e (page_run pops cops qops es s)"
  by (simp_all add: page_run_def)

section \<open>The abstract access statistics\<close>

text \<open>
  What the maps are meant to hold, with unbounded numbers: the tracked processes, a clock that
  counts the hits, and for each page its number of hits, the time of the last one, and the
  size and process seen then.
\<close>

record page_stat =
  st_refs :: nat
  st_last :: nat
  st_pages :: u64
  st_pid :: s32

record page_spec =
  sp_tracked :: "s32 set"
  sp_clock :: nat
  sp_pages :: "page_key \<rightharpoonup> page_stat"

definition key_of :: "folio \<Rightarrow> page_key" where
  "key_of f = \<lparr>pk_mapping = f_mapping f, pk_index = f_index f\<rparr>"

fun spec_step :: "page_event \<Rightarrow> page_spec \<Rightarrow> page_spec" where
  "spec_step (Mark_accessed current f) a =
     (if tgid_of current \<in> sp_tracked a
      then a\<lparr>sp_clock := Suc (sp_clock a),
             sp_pages := (sp_pages a)(key_of f \<mapsto>
               \<lparr>st_refs = Suc (case sp_pages a (key_of f) of None \<Rightarrow> 0 | Some t \<Rightarrow> st_refs t),
                st_last = Suc (sp_clock a), st_pages = ucast (f_nr_pages f),
                st_pid = tgid_of current\<rparr>)\<rparr>
      else a)"
| "spec_step (Free_folio current tmp f) a =
     a\<lparr>sp_pages := (sp_pages a)(\<lparr>pk_mapping = tmp, pk_index = f_index f\<rparr> := None)\<rparr>"
| "spec_step (Add_pid pid) a = a\<lparr>sp_tracked := insert pid (sp_tracked a)\<rparr>"

definition spec_run :: "page_event list \<Rightarrow> page_spec \<Rightarrow> page_spec" where
  "spec_run es a = fold spec_step es a"

definition spec_init :: page_spec where
  "spec_init = \<lparr>sp_tracked = {}, sp_clock = 0, sp_pages = Map.empty\<rparr>"

lemma spec_run_Nil [simp]: "spec_run [] a = a"
  and spec_run_snoc [simp]: "spec_run (es @ [e]) a = spec_step e (spec_run es a)"
  by (simp_all add: spec_run_def)

text \<open>The machine representation of a statistic, and the simulation relation.\<close>

definition metric_of :: "page_stat \<Rightarrow> metric" where
  "metric_of t = \<lparr>m_ref_count = of_nat (st_refs t), m_rank = of_nat (st_last t),
     m_page_count = st_pages t, m_pid = st_pid t\<rparr>"

definition tracks ::
  "'a page_map_ops \<Rightarrow> 'c counter_ops \<Rightarrow> 'p pid_map_ops \<Rightarrow> ('a, 'c, 'p) kprobe_maps \<Rightarrow>
   page_spec \<Rightarrow> bool" where
  "tracks pops cops qops s a \<longleftrightarrow>
     lookup_elem pops (page_access_map s) = map_option metric_of \<circ> sp_pages a \<and>
     lookup_elem cops (static_counter s) 0 = Some (of_nat (sp_clock a)) \<and>
     dom (lookup_elem qops (pid_map s)) = sp_tracked a"

fun event_keys :: "page_event \<Rightarrow> page_key set" where
  "event_keys (Mark_accessed current f) = {key_of f}"
| "event_keys _ = {}"

fun event_pids :: "page_event \<Rightarrow> s32 set" where
  "event_pids (Add_pid pid) = {pid}"
| "event_pids _ = {}"

lemma finite_event_keys: "finite (event_keys e)"
  and finite_event_pids: "finite (event_pids e)"
  by (cases e; simp)+

lemma spec_run_dom: "dom (sp_pages (spec_run es a)) \<subseteq> dom (sp_pages a) \<union> (\<Union>e \<in> set es. event_keys e)"
proof (induction es rule: rev_induct)
  case (snoc e es)
  have "dom (sp_pages (spec_step e b)) \<subseteq> dom (sp_pages b) \<union> event_keys e" for b
    by (cases e) auto
  from this [of "spec_run es a"] snoc.IH show ?case by auto
qed simp

lemma spec_run_tracked: "sp_tracked (spec_run es a) = sp_tracked a \<union> (\<Union>e \<in> set es. event_pids e)"
proof (induction es rule: rev_induct)
  case (snoc e es)
  then show ?case by (cases e) auto
qed simp

text \<open>The element that a tracked hit leaves behind, from the previous one and the counter.\<close>

definition touched :: "u64 \<Rightarrow> folio \<Rightarrow> u64 \<Rightarrow> metric option \<Rightarrow> metric" where
  "touched current f n old =
     \<lparr>m_ref_count = (case old of None \<Rightarrow> 1 | Some ac \<Rightarrow> m_ref_count ac + 1), m_rank = n + 1,
      m_page_count = ucast (f_nr_pages f), m_pid = tgid_of current\<rparr>"

lemma touched_sel [simp]:
  "m_rank (touched current f n old) = n + 1"
  "m_pid (touched current f n old) = tgid_of current"
  "m_page_count (touched current f n old) = ucast (f_nr_pages f)"
  "m_ref_count (touched current f n old) =
     (case old of None \<Rightarrow> 1 | Some ac \<Rightarrow> m_ref_count ac + 1)"
  by (simp_all add: touched_def)

lemma touched_in_place:
  "ac\<lparr>m_ref_count := m_ref_count ac + 1, m_pid := tgid_of current, m_rank := n + 1,
      m_page_count := ucast (f_nr_pages f)\<rparr> = touched current f n (Some ac)"
  by (cases ac) (simp add: touched_def)

text \<open>The invariants that the kernel keeps of its maps, together.\<close>

definition maps_ok ::
  "('a \<Rightarrow> bool) \<Rightarrow> ('c \<Rightarrow> bool) \<Rightarrow> ('p \<Rightarrow> bool) \<Rightarrow> ('a, 'c, 'p) kprobe_maps \<Rightarrow> bool" where
  "maps_ok pinv cinv qinv s \<longleftrightarrow>
     pinv (page_access_map s) \<and> cinv (static_counter s) \<and> qinv (pid_map s)"

text \<open>Every rank is positive, at most the counter, and held by one page only.\<close>

definition ranks_below :: "(page_key \<rightharpoonup> metric) \<Rightarrow> u64 \<Rightarrow> bool" where
  "ranks_below M n \<longleftrightarrow>
     (\<forall>k m. M k = Some m \<longrightarrow> 0 < m_rank m \<and> m_rank m \<le> n) \<and>
     (\<forall>k k' m m'. M k = Some m \<longrightarrow> M k' = Some m' \<longrightarrow> m_rank m = m_rank m' \<longrightarrow> k = k')"

definition ranks_ok ::
  "'a page_map_ops \<Rightarrow> 'c counter_ops \<Rightarrow> ('a, 'c, 'p) kprobe_maps \<Rightarrow> bool" where
  "ranks_ok pops cops s \<longleftrightarrow>
     (\<exists>n. lookup_elem cops (static_counter s) 0 = Some n \<and>
          ranks_below (lookup_elem pops (page_access_map s)) n)"

lemma ranks_below_mono: "ranks_below M n \<Longrightarrow> n < n' \<Longrightarrow> ranks_below M n'"
  unfolding ranks_below_def by (meson less_imp_le order.trans)

lemma ranks_below_del: "ranks_below M n \<Longrightarrow> ranks_below (M(k := None)) n"
  unfolding ranks_below_def by (auto split: if_splits)

lemma ranks_below_upd:
  assumes "ranks_below M n" "n < n'" "m_rank m = n'"
  shows "ranks_below (M(k \<mapsto> m)) n'"
proof -
  have "m_rank m' < n'" if "M k' = Some m'" for k' m'
    using assms(1,2) that unfolding ranks_below_def by (meson le_less_trans)
  then have "m_rank m' \<noteq> n'" "m_rank m' \<le> n'" if "M k' = Some m'" for k' m'
    using that by (blast dest: less_imp_neq less_imp_le)+
  moreover have "0 < n'" using assms(2) by (auto simp: word_gt_0)
  ultimately show ?thesis using assms(1,3) unfolding ranks_below_def
    by (auto split: if_splits) blast
qed

section \<open>The probes under the laws of the kernel maps\<close>

locale page_tracker =
  page: bpf_hash_map pops pinv page_access_max_entries +
  counter: bpf_array_map cops cinv static_counter_max_entries +
  pids: bpf_hash_map qops qinv pid_map_max_entries
  for pops :: "('a, page_key, metric) map_ops" and pinv
    and cops :: "('c, u32, u64) map_ops" and cinv
    and qops :: "('p, s32, u8) map_ops" and qinv
begin

lemma counter_present:
  assumes "cinv c"
  obtains n where "lookup_elem cops c 0 = Some n"
  using counter.lookup_array [OF assms, of 0] by auto

lemma mark_untracked:
  "lookup_elem qops (pid_map s) (tgid_of current) = None \<Longrightarrow>
   folio_mark_accessed pops cops qops current f s = (s, 0)"
  by (simp add: folio_mark_accessed_def Let_def)

text \<open>The branch of a page that is not in the map yet: one update with a fresh element.\<close>

lemma mark_new:
  assumes "lookup_elem qops (pid_map s) (tgid_of current) \<noteq> None"
    and "lookup_elem cops (static_counter s) 0 = Some n"
    and "lookup_elem pops (page_access_map s) (key_of f) = None"
  shows "folio_mark_accessed pops cops qops current f s =
    (s\<lparr>page_access_map :=
          fst (update_elem pops (page_access_map s) (key_of f) (touched current f n None)),
        static_counter := store_elem cops (static_counter s) 0 (n + 1)\<rparr>, 0)"
  using assms
  by (auto simp: folio_mark_accessed_def Let_def key_of_def touched_def split: option.splits)

text \<open>
  The branch of a known page. The element is changed in place before it is written back, so the
  page map holds the new element even when the final update fails.
\<close>

lemma mark_known:
  assumes "pinv (page_access_map s)"
    and "lookup_elem qops (pid_map s) (tgid_of current) \<noteq> None"
    and "lookup_elem cops (static_counter s) 0 = Some n"
    and "lookup_elem pops (page_access_map s) (key_of f) = Some ac"
  shows "\<exists>m. folio_mark_accessed pops cops qops current f s =
      (s\<lparr>page_access_map := m, static_counter := store_elem cops (static_counter s) 0 (n + 1)\<rparr>, 0)
    \<and> pinv m
    \<and> lookup_elem pops m =
        (lookup_elem pops (page_access_map s))(key_of f \<mapsto> touched current f n (Some ac))"
proof -
  let ?k = "key_of f" and ?old = "page_access_map s"
  let ?mid = "store_elem pops ?old ?k (ac\<lparr>m_ref_count := m_ref_count ac + 1\<rparr>)"
  let ?new = "touched current f n (Some ac)"
  let ?m = "fst (update_elem pops (store_elem pops ?mid ?k ?new) ?k ?new)"
  have p0: "lookup_elem pops ?old ?k \<noteq> None" using assms(4) by simp
  have l1: "lookup_elem pops ?mid = (lookup_elem pops ?old)(?k \<mapsto> ac\<lparr>m_ref_count := m_ref_count ac + 1\<rparr>)"
    by (rule page.lookup_store [OF assms(1) p0])
  have i1: "pinv ?mid" by (rule page.inv_store [OF assms(1) p0])
  have p1: "lookup_elem pops ?mid ?k \<noteq> None" by (simp add: l1)
  have "folio_mark_accessed pops cops qops current f s =
      (s\<lparr>page_access_map := ?m, static_counter := store_elem cops (static_counter s) 0 (n + 1)\<rparr>, 0)"
    using assms(2,3,4)
    by (auto simp: folio_mark_accessed_def Let_def key_of_def touched_in_place split: option.splits)
  moreover have "lookup_elem pops ?m = (lookup_elem pops ?old)(?k \<mapsto> ?new)" "pinv ?m"
    using page.store_then_update [OF i1 p1, of ?new] by (simp_all add: l1)
  ultimately show ?thesis by blast
qed

lemma mark_counter:
  assumes "maps_ok pinv cinv qinv s" and "lookup_elem qops (pid_map s) (tgid_of current) \<noteq> None"
    and "lookup_elem cops (static_counter s) 0 = Some n"
  shows "lookup_elem cops (static_counter (fst (folio_mark_accessed pops cops qops current f s))) 0
      = Some (n + 1)"
    and "pid_map (fst (folio_mark_accessed pops cops qops current f s)) = pid_map s"
    and "trace_pipe (fst (folio_mark_accessed pops cops qops current f s)) = trace_pipe s"
    and "maps_ok pinv cinv qinv (fst (folio_mark_accessed pops cops qops current f s))"
proof -
  from assms(1) have i: "pinv (page_access_map s)" "cinv (static_counter s)" "qinv (pid_map s)"
    by (simp_all add: maps_ok_def)
  obtain m where eq: "folio_mark_accessed pops cops qops current f s =
      (s\<lparr>page_access_map := m, static_counter := store_elem cops (static_counter s) 0 (n + 1)\<rparr>, 0)"
    and m: "pinv m"
  proof (cases "lookup_elem pops (page_access_map s) (key_of f)")
    case None
    show ?thesis
      using that [OF mark_new [OF assms(2,3) None]] page.inv_update_fst [OF i(1)] by blast
  next
    case (Some ac)
    show ?thesis using that mark_known [OF i(1) assms(2,3) Some] by blast
  qed
  have c: "lookup_elem cops (static_counter s) 0 \<noteq> None" using assms(3) by simp
  show "lookup_elem cops (static_counter (fst (folio_mark_accessed pops cops qops current f s))) 0
      = Some (n + 1)"
    by (simp add: eq counter.lookup_store [OF i(2) c])
  show "maps_ok pinv cinv qinv (fst (folio_mark_accessed pops cops qops current f s))"
    using i m by (simp add: eq maps_ok_def counter.inv_store [OF i(2) c])
qed (use mark_new [OF assms(2,3)] mark_known [OF _ assms(2,3)] assms(1) in
    \<open>cases "lookup_elem pops (page_access_map s) (key_of f)"; fastforce simp: maps_ok_def\<close>)+

text \<open>
  The page map after a tracked hit: the element of the page is the touched one if the page was
  known or the map has room; otherwise the map is unchanged. Other pages never change.
\<close>

lemma mark_pages:
  assumes "maps_ok pinv cinv qinv s" and "lookup_elem qops (pid_map s) (tgid_of current) \<noteq> None"
    and "lookup_elem cops (static_counter s) 0 = Some n"
  shows "lookup_elem pops (page_access_map (fst (folio_mark_accessed pops cops qops current f s))) =
    (if lookup_elem pops (page_access_map s) (key_of f) \<noteq> None
        \<or> card (dom (lookup_elem pops (page_access_map s))) < page_access_max_entries
     then (lookup_elem pops (page_access_map s))(key_of f \<mapsto>
            touched current f n (lookup_elem pops (page_access_map s) (key_of f)))
     else lookup_elem pops (page_access_map s))"
proof -
  let ?L = "lookup_elem pops (page_access_map s)"
  from assms(1) have i: "pinv (page_access_map s)" by (simp add: maps_ok_def)
  show ?thesis
  proof (cases "?L (key_of f)")
    case None
    note new = mark_new [OF assms(2,3) None]
    show ?thesis
    proof (cases "card (dom ?L) < page_access_max_entries")
      case True
      with None show ?thesis by (simp add: new page.lookup_update_room [OF i])
    next
      case False
      then have "card (dom ?L) = page_access_max_entries" using page.capacity [OF i] by simp
      with None show ?thesis by (simp add: new page.update_full(2) [OF i])
    qed
  next
    case (Some ac)
    with mark_known [OF i assms(2,3)] show ?thesis by fastforce
  qed
qed

lemma free_effect:
  assumes "maps_ok pinv cinv qinv s"
  shows "lookup_elem pops (page_access_map (fst (filemap_free_folio pops current tmp f s))) =
      (lookup_elem pops (page_access_map s))(\<lparr>pk_mapping = tmp, pk_index = f_index f\<rparr> := None)"
    and "static_counter (fst (filemap_free_folio pops current tmp f s)) = static_counter s"
    and "pid_map (fst (filemap_free_folio pops current tmp f s)) = pid_map s"
    and "maps_ok pinv cinv qinv (fst (filemap_free_folio pops current tmp f s))"
  using assms page.lookup_delete page.inv_delete
  by (auto simp: filemap_free_folio_def Let_def maps_ok_def fun_eq_iff split: option.splits)

text \<open>One probe hit keeps the simulation, as long as the maps have room for it.\<close>

lemma step_tracks:
  assumes "maps_ok pinv cinv qinv s" and "tracks pops cops qops s a"
    and "card (dom (sp_pages a) \<union> event_keys e) \<le> page_access_max_entries"
    and "card (sp_tracked a \<union> event_pids e) \<le> pid_map_max_entries"
  shows "maps_ok pinv cinv qinv (page_step pops cops qops e s) \<and>
    tracks pops cops qops (page_step pops cops qops e s) (spec_step e a)"
proof -
  from assms(2) have l: "lookup_elem pops (page_access_map s) = map_option metric_of \<circ> sp_pages a"
    and c: "lookup_elem cops (static_counter s) 0 = Some (of_nat (sp_clock a))"
    and t: "dom (lookup_elem qops (pid_map s)) = sp_tracked a"
    by (simp_all add: tracks_def)
  from assms(1) have i: "pinv (page_access_map s)" "qinv (pid_map s)" by (simp_all add: maps_ok_def)
  have d: "dom (lookup_elem pops (page_access_map s)) = dom (sp_pages a)"
    by (auto simp: l)
  show ?thesis
  proof (cases e)
    case (Mark_accessed current f)
    show ?thesis
    proof (cases "tgid_of current \<in> sp_tracked a")
      case False
      then have "lookup_elem qops (pid_map s) (tgid_of current) = None" using t by auto
      with False assms(1,2) show ?thesis by (simp add: Mark_accessed mark_untracked)
    next
      case True
      then have q: "lookup_elem qops (pid_map s) (tgid_of current) \<noteq> None" using t by auto
      have room: "lookup_elem pops (page_access_map s) (key_of f) \<noteq> None
          \<or> card (dom (lookup_elem pops (page_access_map s))) < page_access_max_entries"
        using assms(3) by (intro page.fits_room [OF i(1)]) (simp add: Mark_accessed d)
      have "touched current f (of_nat (sp_clock a)) (lookup_elem pops (page_access_map s) (key_of f))
          = metric_of \<lparr>st_refs = Suc (case sp_pages a (key_of f) of None \<Rightarrow> 0 | Some t \<Rightarrow> st_refs t),
              st_last = Suc (sp_clock a), st_pages = ucast (f_nr_pages f), st_pid = tgid_of current\<rparr>"
        by (cases "sp_pages a (key_of f)") (simp_all add: l touched_def metric_of_def add.commute)
      then show ?thesis
        using True t mark_counter [OF assms(1) q c] mark_pages [OF assms(1) q c] room
        by (simp add: Mark_accessed tracks_def l fun_eq_iff add.commute)
    qed
  next
    case (Free_folio current tmp f)
    with free_effect [OF assms(1)] l c t show ?thesis
      by (simp add: tracks_def fun_eq_iff)
  next
    case (Add_pid pid)
    have "lookup_elem qops (pid_map s) pid \<noteq> None
        \<or> card (dom (lookup_elem qops (pid_map s))) < pid_map_max_entries"
      using assms(4) by (intro pids.fits_room [OF i(2)]) (simp add: Add_pid t)
    then show ?thesis
      using assms(1) l c t pids.lookup_update_room [OF i(2), of pid 1] pids.inv_update_fst [OF i(2)]
      by (simp add: Add_pid tracks_def maps_ok_def)
  qed
qed

lemma run_tracks:
  assumes "maps_ok pinv cinv qinv s" and "tracks pops cops qops s a"
    and "card (dom (sp_pages a) \<union> (\<Union>e \<in> set es. event_keys e)) \<le> page_access_max_entries"
    and "card (sp_tracked a \<union> (\<Union>e \<in> set es. event_pids e)) \<le> pid_map_max_entries"
  shows "maps_ok pinv cinv qinv (page_run pops cops qops es s) \<and>
    tracks pops cops qops (page_run pops cops qops es s) (spec_run es a)"
  using assms(3,4)
proof (induction es rule: rev_induct)
  case Nil
  then show ?case using assms(1,2) by simp
next
  case (snoc e es)
  let ?K = "dom (sp_pages a) \<union> (\<Union>e \<in> set (es @ [e]). event_keys e)"
  let ?P = "sp_tracked a \<union> (\<Union>e \<in> set (es @ [e]). event_pids e)"
  have "finite (dom (sp_pages a))" "finite (sp_tracked a)"
    using assms(1,2) page.finite_dom [of "page_access_map s"] pids.finite_dom [of "pid_map s"]
    by (auto simp: maps_ok_def tracks_def dom_def comp_def)
  then have fin: "finite ?K" "finite ?P" by (auto simp: finite_event_keys finite_event_pids)
  have "maps_ok pinv cinv qinv (page_run pops cops qops es s) \<and>
      tracks pops cops qops (page_run pops cops qops es s) (spec_run es a)"
    by (rule snoc.IH; rule order.trans [OF card_mono]; (rule fin snoc.prems)?; auto)
  moreover have "card (dom (sp_pages (spec_run es a)) \<union> event_keys e) \<le> page_access_max_entries"
    using spec_run_dom [of es a] by (intro order.trans [OF card_mono snoc.prems(1)] fin) auto
  moreover have "card (sp_tracked (spec_run es a) \<union> event_pids e) \<le> pid_map_max_entries"
    using spec_run_tracked [of es a] by (intro order.trans [OF card_mono snoc.prems(2)] fin) auto
  ultimately show ?case by (simp only: page_run_snoc spec_run_snoc) (blast intro: step_tracks [THEN conjunct1] step_tracks [THEN conjunct2])
qed

lemma step_counter:
  assumes "maps_ok pinv cinv qinv s" and "lookup_elem cops (static_counter s) 0 = Some n"
  shows "\<exists>n' \<in> {n, n + 1}. lookup_elem cops (static_counter (page_step pops cops qops e s)) 0 = Some n'"
proof (cases e)
  case (Mark_accessed current f)
  then show ?thesis
    using assms mark_untracked [of s current f] mark_counter(1) [OF assms(1) _ assms(2)]
    by (cases "lookup_elem qops (pid_map s) (tgid_of current)") simp_all
qed (use assms free_effect in simp_all)

text \<open>
  The rank invariant needs no room in the maps: it survives failing updates, because a hit whose
  update fails has only advanced the counter.
\<close>

lemma step_ranks:
  assumes "maps_ok pinv cinv qinv s" and "ranks_ok pops cops s"
    and "lookup_elem cops (static_counter s) 0 \<noteq> Some (- 1)"
  shows "maps_ok pinv cinv qinv (page_step pops cops qops e s) \<and>
    ranks_ok pops cops (page_step pops cops qops e s)"
proof (cases e)
  case (Mark_accessed current f)
  obtain n where n: "lookup_elem cops (static_counter s) 0 = Some n"
    and old: "ranks_below (lookup_elem pops (page_access_map s)) n"
    using assms(2) by (auto simp: ranks_ok_def)
  from n assms(3) have lt: "n < n + 1" by (auto intro: less_inc)
  show ?thesis
  proof (cases "lookup_elem qops (pid_map s) (tgid_of current)")
    case None
    with assms(1,2) show ?thesis by (simp add: Mark_accessed mark_untracked)
  next
    case Some
    then have q: "lookup_elem qops (pid_map s) (tgid_of current) \<noteq> None" by simp
    have "ranks_below (lookup_elem pops (page_access_map
        (fst (folio_mark_accessed pops cops qops current f s)))) (n + 1)"
      using old lt by (auto simp: mark_pages [OF assms(1) q n] intro: ranks_below_upd ranks_below_mono)
    with mark_counter [OF assms(1) q n] show ?thesis by (simp add: Mark_accessed ranks_ok_def)
  qed
next
  case (Free_folio current tmp f)
  with assms(2) free_effect [OF assms(1)] show ?thesis
    by (auto simp: ranks_ok_def intro: ranks_below_del)
next
  case (Add_pid pid)
  with assms(1,2) pids.inv_update_fst show ?thesis by (simp add: ranks_ok_def maps_ok_def)
qed

lemma run_ranks:
  assumes "maps_ok pinv cinv qinv s" and "ranks_ok pops cops s"
    and "lookup_elem cops (static_counter s) 0 = Some n" and "unat n + length es < 2 ^ 64"
  shows "maps_ok pinv cinv qinv (page_run pops cops qops es s) \<and>
    ranks_ok pops cops (page_run pops cops qops es s)"
  using assms
proof (induction es arbitrary: s n)
  case Nil
  then show ?case by simp
next
  case (Cons e es)
  have "unat n < 2 ^ 64 - 1" using Cons.prems(4) by simp
  then have n: "n \<noteq> - 1" by (auto simp: unsigned_minus_1_eq_mask mask_eq_exp_minus_1)
  let ?s = "page_step pops cops qops e s"
  have ok: "maps_ok pinv cinv qinv ?s \<and> ranks_ok pops cops ?s"
    using Cons.prems n by (intro step_ranks) auto
  obtain n' where n': "lookup_elem cops (static_counter ?s) 0 = Some n'" "unat n' \<le> Suc (unat n)"
    using step_counter [OF Cons.prems(1,3), of e] n by (auto simp: unat_inc)
  have "page_run pops cops qops (e # es) s = page_run pops cops qops es ?s"
    by (simp add: page_run_def)
  with Cons.IH [of ?s n'] ok n' Cons.prems(4) show ?case by simp
qed

end

section \<open>Least-recently-used order and hit counts\<close>

text \<open>
  The move-to-front list: the pages of the cache, the one touched last first. \<open>lru_run\<close> also
  threads the tracked processes through the events.
\<close>

fun lru_step :: "page_event \<Rightarrow> s32 set \<times> page_key list \<Rightarrow> s32 set \<times> page_key list" where
  "lru_step (Mark_accessed current f) (T, L) =
     (T, if tgid_of current \<in> T then key_of f # removeAll (key_of f) L else L)"
| "lru_step (Free_folio current tmp f) (T, L) =
     (T, removeAll \<lparr>pk_mapping = tmp, pk_index = f_index f\<rparr> L)"
| "lru_step (Add_pid pid) (T, L) = (insert pid T, L)"

definition lru_run :: "page_event list \<Rightarrow> s32 set \<times> page_key list" where
  "lru_run es = fold lru_step es ({}, [])"

definition last_hit :: "page_spec \<Rightarrow> page_key \<Rightarrow> nat" where
  "last_hit a k = (case sp_pages a k of None \<Rightarrow> 0 | Some t \<Rightarrow> st_last t)"

definition lru_inv :: "page_spec \<Rightarrow> s32 set \<times> page_key list \<Rightarrow> bool" where
  "lru_inv a TL \<longleftrightarrow> fst TL = sp_tracked a \<and> set (snd TL) = dom (sp_pages a) \<and>
     sorted_wrt (\<lambda>k k'. last_hit a k' < last_hit a k) (snd TL) \<and>
     (\<forall>k. last_hit a k \<le> sp_clock a)"

lemma lru_inv_step:
  assumes "lru_inv a TL"
  shows "lru_inv (spec_step e a) (lru_step e TL)"
proof -
  obtain T L where TL: "TL = (T, L)" by (cases TL)
  from assms have i: "T = sp_tracked a" "set L = dom (sp_pages a)"
    and sorted: "sorted_wrt (\<lambda>k k'. last_hit a k' < last_hit a k) L"
    and le: "\<And>k. last_hit a k \<le> sp_clock a"
    by (simp_all add: lru_inv_def TL)
  have rest: "sorted_wrt (\<lambda>k k'. last_hit b k' < last_hit b k) (removeAll x L)"
    if "\<And>k. k \<noteq> x \<Longrightarrow> last_hit b k = last_hit a k" for b x
    using that sorted_wrt_filter [OF sorted, of "\<lambda>y. x \<noteq> y"]
    by (auto simp: removeAll_filter_not_eq elim!: sorted_wrt_mono_rel [rotated])
  show ?thesis
  proof (cases e)
    case (Mark_accessed current f)
    show ?thesis
    proof (cases "tgid_of current \<in> T")
      case True
      let ?b = "spec_step e a"
      have b: "last_hit ?b k = (if k = key_of f then Suc (sp_clock a) else last_hit a k)" for k
        using True i by (simp add: Mark_accessed last_hit_def)
      have "last_hit a k < Suc (sp_clock a)" for k using le [of k] by simp
      with True i b rest [of "key_of f" ?b] le show ?thesis
        by (auto simp: lru_inv_def TL Mark_accessed le_SucI)
    next
      case False
      with assms i show ?thesis by (simp add: Mark_accessed TL)
    qed
  next
    case (Free_folio current tmp f)
    let ?x = "\<lparr>pk_mapping = tmp, pk_index = f_index f\<rparr>"
    have b: "last_hit (spec_step e a) k = (if k = ?x then 0 else last_hit a k)" for k
      by (simp add: Free_folio last_hit_def)
    with i rest [of ?x "spec_step e a"] le show ?thesis
      by (auto simp: lru_inv_def TL Free_folio)
  next
    case (Add_pid pid)
    with i sorted le show ?thesis by (simp add: lru_inv_def TL last_hit_def)
  qed
qed

lemma lru_inv_run: "lru_inv (spec_run es spec_init) (lru_run es)"
proof (induction es rule: rev_induct)
  case Nil
  show ?case by (simp add: lru_inv_def lru_run_def spec_init_def last_hit_def)
next
  case (snoc e es)
  then show ?case by (simp add: lru_run_def lru_inv_step)
qed

lemma spec_clock_le: "sp_clock (spec_run es a) \<le> sp_clock a + length es"
proof (induction es rule: rev_induct)
  case (snoc e es)
  then show ?case by (cases e) auto
qed simp

text \<open>
  The events that count for a page: the hits of the tracked processes \<open>T\<close> since the page was
  last freed.
\<close>

fun hits :: "s32 set \<Rightarrow> page_key \<Rightarrow> page_event \<Rightarrow> bool" where
  "hits T k (Mark_accessed current f) \<longleftrightarrow> tgid_of current \<in> T \<and> key_of f = k"
| "hits T k _ \<longleftrightarrow> False"

fun frees :: "page_key \<Rightarrow> page_event \<Rightarrow> bool" where
  "frees k (Free_folio current tmp f) \<longleftrightarrow> \<lparr>pk_mapping = tmp, pk_index = f_index f\<rparr> = k"
| "frees k _ \<longleftrightarrow> False"

definition hits_since_free :: "s32 set \<Rightarrow> page_key \<Rightarrow> page_event list \<Rightarrow> nat" where
  "hits_since_free T k es = length (filter (hits T k) (takeWhile (\<lambda>e. \<not> frees k e) (rev es)))"

lemma hits_since_free_snoc:
  "hits_since_free T k (es @ [e]) =
     (if frees k e then 0 else if hits T k e then Suc (hits_since_free T k es)
      else hits_since_free T k es)"
  by (simp add: hits_since_free_def)

lemma spec_refs:
  assumes "\<forall>e \<in> set es. event_pids e = {}"
  shows "map_option st_refs (sp_pages (spec_run es \<lparr>sp_tracked = T, sp_clock = 0, sp_pages = Map.empty\<rparr>) k)
    = (if hits_since_free T k es = 0 then None else Some (hits_since_free T k es))"
  using assms
proof (induction es rule: rev_induct)
  case Nil
  show ?case by (simp add: hits_since_free_def)
next
  case (snoc e es)
  let ?a = "spec_run es \<lparr>sp_tracked = T, sp_clock = 0, sp_pages = Map.empty\<rparr>"
  have T: "sp_tracked ?a = T" using snoc.prems spec_run_tracked [of es] by simp
  have IH: "map_option st_refs (sp_pages ?a k)
      = (if hits_since_free T k es = 0 then None else Some (hits_since_free T k es))"
    using snoc by simp
  show ?case
  proof (cases e)
    case (Mark_accessed current f)
    with IH T show ?thesis
      by (cases "sp_pages ?a k") (auto simp: hits_since_free_snoc split: if_splits)
  next
    case (Free_folio current tmp f)
    with IH show ?thesis by (auto simp: hits_since_free_snoc)
  next
    case (Add_pid pid)
    with snoc.prems show ?thesis by simp
  qed
qed

section \<open>The tracker on bounded association lists\<close>

abbreviation alist_pages :: "(page_key \<times> metric) list page_map_ops" where
  "alist_pages \<equiv> alist_ops page_access_max_entries"
abbreviation alist_pids :: "(s32 \<times> u8) list pid_map_ops" where
  "alist_pids \<equiv> alist_ops pid_map_max_entries"
abbreviation alist_pages_inv :: "(page_key \<times> metric) list \<Rightarrow> bool" where
  "alist_pages_inv \<equiv> alist_inv page_access_max_entries"
abbreviation alist_pids_inv :: "(s32 \<times> u8) list \<Rightarrow> bool" where
  "alist_pids_inv \<equiv> alist_inv pid_map_max_entries"
abbreviation one_counter :: "u64 list \<Rightarrow> bool" where
  "one_counter \<equiv> \<lambda>xs. length xs = static_counter_max_entries"

interpretation kprobe: page_tracker alist_pages alist_pages_inv array_ops one_counter
  alist_pids alist_pids_inv
  by (intro page_tracker.intro alist_map_axioms array_map_axioms)

lemmas kprobe_on_alists = kprobe.page_tracker_axioms

text \<open>The maps right after the object is loaded: no page, counter 0, no process.\<close>

definition alist_fresh ::
  "((page_key \<times> metric) list, u64 list, (s32 \<times> u8) list) kprobe_maps" where
  "alist_fresh = \<lparr>page_access_map = [], static_counter = [0], pid_map = [], trace_pipe = []\<rparr>"

lemma alist_fresh_ok: "maps_ok alist_pages_inv one_counter alist_pids_inv alist_fresh"
  by (simp add: alist_fresh_def maps_ok_def alist_inv_def)

lemma alist_fresh_tracks: "tracks alist_pages array_ops alist_pids alist_fresh spec_init"
  by (simp add: alist_fresh_def tracks_def spec_init_def fun_eq_iff)

text \<open>A run for the witnesses: two processes, one of them tracked, and three pages.\<close>

definition page_a :: folio where "page_a = \<lparr>f_mapping = 0x1000, f_index = 0, f_nr_pages = 1\<rparr>"
definition page_b :: folio where "page_b = \<lparr>f_mapping = 0x1000, f_index = 1, f_nr_pages = 4\<rparr>"

definition demo_hits :: "page_event list" where
  "demo_hits = [Mark_accessed (pid_tgid 7 7) page_a, Mark_accessed (pid_tgid 7 8) page_b,
     Mark_accessed (pid_tgid 9 9) page_b, Mark_accessed (pid_tgid 7 7) page_a,
     Free_folio (pid_tgid 3 3) 0x1000 page_b, Mark_accessed (pid_tgid 7 7) page_b]"

definition demo_events :: "page_event list" where
  "demo_events = Add_pid 7 # demo_hits"

lemma key_of_pages: "key_of page_a = \<lparr>pk_mapping = 0x1000, pk_index = 0\<rparr>"
  "key_of page_b = \<lparr>pk_mapping = 0x1000, pk_index = 1\<rparr>"
  by (simp_all add: key_of_def page_a_def page_b_def)

lemma demo_keys:
  "(\<Union>e \<in> set demo_hits. event_keys e) = {key_of page_a, key_of page_b}"
  "(\<Union>e \<in> set demo_events. event_keys e) = {key_of page_a, key_of page_b}"
  "card {key_of page_a, key_of page_b} = 2"
  by (auto simp: demo_events_def demo_hits_def key_of_pages)

lemma demo_pids: "(\<Union>e \<in> set demo_events. event_pids e) = {7}"
  by (simp add: demo_events_def demo_hits_def)

section \<open>Properties\<close>

text \<open>
  C1. Refinement. From maps that hold a given abstract state, any sequence of probe hits, page
  frees and process additions leads to maps that hold exactly the abstract access statistics of
  that sequence: the same pages with their hit counts and last-hit times (as 64-bit numbers),
  the same clock and the same tracked processes, as long as the pages and processes fit in the
  maps' \<^verbatim>\<open>max_entries\<close>.
\<close>

theorem page_run_refines_spec:
  assumes "page_tracker pops pinv cops cinv qops qinv"
    and "maps_ok pinv cinv qinv s" and "tracks pops cops qops s a"
    and "card (dom (sp_pages a) \<union> (\<Union>e \<in> set es. event_keys e)) \<le> page_access_max_entries"
    and "card (sp_tracked a \<union> (\<Union>e \<in> set es. event_pids e)) \<le> pid_map_max_entries"
  shows "maps_ok pinv cinv qinv (page_run pops cops qops es s) \<and>
    tracks pops cops qops (page_run pops cops qops es s) (spec_run es a)"
  by (rule page_tracker.run_tracks [OF assms])

theorem page_run_refines_spec_witness:
  "maps_ok alist_pages_inv one_counter alist_pids_inv
     (page_run alist_pages array_ops alist_pids demo_events alist_fresh) \<and>
   tracks alist_pages array_ops alist_pids
     (page_run alist_pages array_ops alist_pids demo_events alist_fresh)
     (spec_run demo_events spec_init)"
  by (rule page_run_refines_spec [OF kprobe_on_alists alist_fresh_ok alist_fresh_tracks])
    (simp_all add: spec_init_def demo_keys demo_pids)

text \<open>
  C2. The hit count of a page is the number of hits by tracked processes since the page was last
  freed (modulo \<open>2 ^ 64\<close>), and a page without such a hit is not in the map.
\<close>

theorem ref_count_counts_hits:
  assumes "page_tracker pops pinv cops cinv qops qinv" and "maps_ok pinv cinv qinv s"
    and "tracks pops cops qops s \<lparr>sp_tracked = T, sp_clock = 0, sp_pages = Map.empty\<rparr>"
    and "\<forall>e \<in> set es. event_pids e = {}"
    and "card (\<Union>e \<in> set es. event_keys e) \<le> page_access_max_entries"
  shows "map_option m_ref_count
      (lookup_elem pops (page_access_map (page_run pops cops qops es s)) k)
    = (if hits_since_free T k es = 0 then None else Some (of_nat (hits_since_free T k es)))"
proof -
  let ?a = "\<lparr>sp_tracked = T, sp_clock = 0, sp_pages = Map.empty\<rparr>"
  have "T = dom (lookup_elem qops (pid_map s))" using assms(3) by (simp add: tracks_def)
  then have "card (sp_tracked ?a \<union> (\<Union>e \<in> set es. event_pids e)) \<le> pid_map_max_entries"
    using assms(2,4) bpf_hash_map.capacity [OF page_tracker.axioms(3) [OF assms(1)], of "pid_map s"]
    by (simp add: maps_ok_def)
  then have "tracks pops cops qops (page_run pops cops qops es s) (spec_run es ?a)"
    using assms page_tracker.run_tracks [OF assms(1,2,3), of es] by simp
  then have "map_option m_ref_count
      (lookup_elem pops (page_access_map (page_run pops cops qops es s)) k)
    = map_option of_nat (map_option st_refs (sp_pages (spec_run es ?a) k))"
    by (simp add: tracks_def option.map_comp comp_def metric_of_def)
  then show ?thesis by (simp add: spec_refs [OF assms(4)])
qed

theorem ref_count_counts_hits_witness:
  "map_option m_ref_count (lookup_elem alist_pages (page_access_map
     (page_run alist_pages array_ops alist_pids demo_hits (alist_fresh\<lparr>pid_map := [(7, 1)]\<rparr>)))
     (key_of page_a)) = Some 2"
proof -
  let ?s = "alist_fresh\<lparr>pid_map := [(7, 1)]\<rparr>"
  have "maps_ok alist_pages_inv one_counter alist_pids_inv ?s"
    by (simp add: alist_fresh_def maps_ok_def alist_inv_def)
  moreover have "tracks alist_pages array_ops alist_pids ?s
      \<lparr>sp_tracked = {7}, sp_clock = 0, sp_pages = Map.empty\<rparr>"
    by (auto simp: alist_fresh_def tracks_def fun_eq_iff)
  moreover have "\<forall>e \<in> set demo_hits. event_pids e = {}" by (simp add: demo_hits_def)
  moreover have "hits_since_free {7} (key_of page_a) demo_hits = 2"
    by (simp add: hits_since_free_def demo_hits_def key_of_pages) (simp add: page_b_def)
  ultimately show ?thesis
    using ref_count_counts_hits [OF kprobe_on_alists, of ?s "{7}" demo_hits "key_of page_a"]
    by (simp add: demo_keys)
qed

text \<open>
  C3. The ranks order the pages by recency: from empty maps, the pages in the map are those of the
  move-to-front list of the events, and along that list (most recently touched first) the ranks
  strictly decrease. So the page with the least rank is the least recently used one.
\<close>

theorem page_ranks_are_lru:
  assumes "page_tracker pops pinv cops cinv qops qinv" and "maps_ok pinv cinv qinv s"
    and "tracks pops cops qops s spec_init"
    and "card (\<Union>e \<in> set es. event_keys e) \<le> page_access_max_entries"
    and "card (\<Union>e \<in> set es. event_pids e) \<le> pid_map_max_entries"
    and "length es < 2 ^ 64"
  shows "let L = snd (lru_run es);
             M = lookup_elem pops (page_access_map (page_run pops cops qops es s))
         in set L = dom M \<and> sorted_wrt (\<lambda>k k'. m_rank (the (M k')) < m_rank (the (M k))) L"
proof -
  let ?a = "spec_run es spec_init" and ?L = "snd (lru_run es)"
  let ?M = "lookup_elem pops (page_access_map (page_run pops cops qops es s))"
  have "tracks pops cops qops (page_run pops cops qops es s) ?a"
    using page_tracker.run_tracks [OF assms(1,2,3), of es] assms(4,5) by (simp add: spec_init_def)
  then have M: "?M = map_option metric_of \<circ> sp_pages ?a" by (simp add: tracks_def)
  have inv: "set ?L = dom (sp_pages ?a)"
      "sorted_wrt (\<lambda>k k'. last_hit ?a k' < last_hit ?a k) ?L"
      "\<And>k. last_hit ?a k \<le> sp_clock ?a"
    using lru_inv_run [of es] by (auto simp: lru_inv_def)
  have "sp_clock ?a \<le> length es" using spec_clock_le [of es spec_init] by (simp add: spec_init_def)
  with inv(3) assms(6) have small: "last_hit ?a k < 2 ^ 64" for k
    by (meson le_less_trans)
  have rank: "unat (m_rank (the (?M k))) = last_hit ?a k" if "k \<in> set ?L" for k
    using that inv(1) small [of k]
    by (auto simp: M metric_of_def last_hit_def unat_of_nat)
  have "sorted_wrt (\<lambda>k k'. m_rank (the (?M k')) < m_rank (the (?M k))) ?L"
    by (rule sorted_wrt_mono_rel [OF _ inv(2)]) (simp add: word_less_nat_alt rank)
  with inv(1) show ?thesis by (auto simp: M Let_def)
qed

theorem page_ranks_are_lru_witness:
  "snd (lru_run demo_events) = [key_of page_b, key_of page_a] \<and>
   (let M = lookup_elem alist_pages (page_access_map
          (page_run alist_pages array_ops alist_pids demo_events alist_fresh))
    in dom M = {key_of page_b, key_of page_a} \<and>
       m_rank (the (M (key_of page_a))) < m_rank (the (M (key_of page_b))))"
proof -
  have "snd (lru_run demo_events) = [key_of page_b, key_of page_a]"
    by (simp add: lru_run_def demo_events_def demo_hits_def key_of_pages) (simp add: page_b_def)
  with page_ranks_are_lru [OF kprobe_on_alists alist_fresh_ok alist_fresh_tracks, of demo_events]
  show ?thesis by (simp add: demo_keys demo_pids Let_def) (simp add: demo_events_def demo_hits_def)
qed

text \<open>
  C20. Whatever the map updates do (also when they fail because a map is full), every stored rank
  stays positive, at most the value of the static counter, and unique to its page, over any
  sequence of events that does not exhaust the 64-bit counter.
\<close>

theorem page_run_keeps_ranks:
  assumes "page_tracker pops pinv cops cinv qops qinv" and "maps_ok pinv cinv qinv s"
    and "ranks_ok pops cops s" and "lookup_elem cops (static_counter s) 0 = Some n"
    and "unat n + length es < 2 ^ 64"
  shows "ranks_ok pops cops (page_run pops cops qops es s)"
  using page_tracker.run_ranks [OF assms] by simp

theorem page_run_keeps_ranks_witness:
  "ranks_ok alist_pages array_ops (page_run alist_pages array_ops alist_pids demo_events alist_fresh)"
  by (rule page_run_keeps_ranks [OF kprobe_on_alists alist_fresh_ok, of 0])
    (simp_all add: alist_fresh_def ranks_ok_def ranks_below_def demo_events_def demo_hits_def)

text \<open>
  A full page map: a tracked hit on a page that is not in the map leaves all the elements as
  they were, but the static counter still advances, so the ranks of later hits skip a number.
\<close>

theorem hit_on_full_map:
  assumes "page_tracker pops pinv cops cinv qops qinv" and "maps_ok pinv cinv qinv s"
    and "lookup_elem qops (pid_map s) (tgid_of current) \<noteq> None"
    and "lookup_elem cops (static_counter s) 0 = Some n"
    and "lookup_elem pops (page_access_map s) (key_of f) = None"
    and "card (dom (lookup_elem pops (page_access_map s))) = page_access_max_entries"
  shows "lookup_elem pops (page_access_map (fst (folio_mark_accessed pops cops qops current f s)))
      = lookup_elem pops (page_access_map s) \<and>
    lookup_elem cops (static_counter (fst (folio_mark_accessed pops cops qops current f s))) 0
      = Some (n + 1)"
  using page_tracker.mark_pages [OF assms(1-4)] page_tracker.mark_counter(1) [OF assms(1-4)]
    assms(5,6) by simp

text \<open>A map with \<^verbatim>\<open>max_entries\<close> pages of one file, at the indices \<open>1, 2, \<dots>\<close>.\<close>

definition full_pages :: "(page_key \<times> metric) list" where
  "full_pages = map (\<lambda>i. (\<lparr>pk_mapping = 0x1000, pk_index = of_nat (Suc i)\<rparr>,
     \<lparr>m_ref_count = 1, m_rank = of_nat (Suc i), m_page_count = 1, m_pid = 7\<rparr>))
     [0..<page_access_max_entries]"

lemma full_pages_index:
  assumes "i < page_access_max_entries" "j < page_access_max_entries"
  shows "(of_nat (Suc i) :: u64) = of_nat (Suc j) \<longleftrightarrow> i = j" "(of_nat (Suc i) :: u64) \<noteq> 0"
proof -
  have u: "unat (of_nat (Suc k) :: u64) = Suc k" if "k < page_access_max_entries" for k
    using that by (simp add: unat_of_nat del: of_nat_Suc)
  show "(of_nat (Suc i) :: u64) = of_nat (Suc j) \<longleftrightarrow> i = j"
    using u [OF assms(1)] u [OF assms(2)] by (metis nat.inject)
  show "(of_nat (Suc i) :: u64) \<noteq> 0" using u [OF assms(1)] by (metis nat.distinct(1) unat_0)
qed

lemma full_pages_ok:
  "alist_pages_inv full_pages" "length full_pages = page_access_max_entries"
  "map_of full_pages (key_of page_a) = None"
proof -
  show l: "length full_pages = page_access_max_entries" by (simp add: full_pages_def)
  have "distinct (map fst full_pages)"
    by (simp add: full_pages_def distinct_map inj_on_def full_pages_index(1) del: of_nat_Suc upt_rec_numeral)
  with l show "alist_pages_inv full_pages" by (simp add: alist_inv_def)
  have "\<lparr>pk_mapping = 0x1000, pk_index = 0\<rparr> \<notin> set (map fst full_pages)"
    using full_pages_index(2) by (auto simp: full_pages_def simp del: of_nat_Suc)
  then show "map_of full_pages (key_of page_a) = None"
    by (simp add: map_of_eq_None_iff key_of_pages)
qed

theorem hit_on_full_map_witness:
  "let s = \<lparr>page_access_map = full_pages, static_counter = [5], pid_map = [(7, 1)], trace_pipe = []\<rparr>;
       s' = fst (folio_mark_accessed alist_pages array_ops alist_pids (pid_tgid 7 7) page_a s)
   in map_of (page_access_map s') = map_of full_pages \<and> static_counter s' ! 0 = 6"
proof -
  let ?s = "\<lparr>page_access_map = full_pages, static_counter = [5 :: u64], pid_map = [(7, 1)], trace_pipe = []\<rparr>"
  have "maps_ok alist_pages_inv one_counter alist_pids_inv ?s"
    using full_pages_ok(1) by (simp add: maps_ok_def alist_inv_def)
  moreover have "card (dom (map_of full_pages)) = page_access_max_entries"
    using full_pages_ok(1,2) by (simp add: alist_inv_def card_dom_alist)
  ultimately show ?thesis
    using hit_on_full_map [OF kprobe_on_alists, of ?s "pid_tgid 7 7" 5 page_a] full_pages_ok(3)
    by (auto simp: Let_def split: if_splits)
qed

end
