(* ===== verification/Page_Races.thy ===== *)
theory Page_Races
  imports Page_Tracker
begin

text \<open>
  The page probe \<^verbatim>\<open>folio_mark_accessed\<close> of \<^verbatim>\<open>examples/c/kprobe.bpf.c\<close> on several CPUs at once. The probe takes
  no lock, so its loads and stores interleave with those of the other CPUs; \<^verbatim>\<open>x++\<close> on shared memory is a
  load followed by a store. The theory gives the probe as a program of such steps and the machine that
  interleaves any number of them, and shows: hits are wait-free; hits on different pages
  are all counted, with ranks that stay in range; hits that do not overlap keep the abstract statistics
  of \<open>Page_Tracker\<close>; and the ways in which concurrent hits are lost.
\<close>

section \<open>The probe as a program of single steps\<close>

text \<open>
  Where a hit is in the source (the next thing it does), with the values it has loaded. The names that
  start with \<open>New\<close> are in the branch of an unknown page.
\<close>

datatype hit_pc =
    Check_pid
  | Find_page
  | New_find_counter
  | New_load_counter
  | New_incr_counter u64
  | New_rank u64
  | New_insert u64
  | Load_refs
  | Incr_refs u64
  | Find_counter
  | Load_counter
  | Incr_counter u64
  | Set_pid u64
  | Load_rank u64
  | Set_rank u64
  | Set_page_count
  | Write_back
  | Done

text \<open>
  One step of a hit: the possible successors. After the increment, \<^verbatim>\<open>*counter\<close> is read again; a compiler may
  also reuse the value that was just stored, so both are possible. A load through a pointer reads the element
  as it is now; there is no step for a pointer whose element is missing.
\<close>

fun hit_next ::
  "'a page_map_ops \<Rightarrow> 'c counter_ops \<Rightarrow> 'p pid_map_ops \<Rightarrow> u64 \<Rightarrow> folio \<Rightarrow> hit_pc \<Rightarrow>
   ('a, 'c, 'p) kprobe_maps \<Rightarrow> (('a, 'c, 'p) kprobe_maps \<times> hit_pc) list" where
  "hit_next pops cops qops current f Check_pid s =
     (case lookup_elem qops (pid_map s) (tgid_of current) of None \<Rightarrow> [(s, Done)] | Some _ \<Rightarrow> [(s, Find_page)])"
| "hit_next pops cops qops current f Find_page s =
     (case lookup_elem pops (page_access_map s) (key_of f) of None \<Rightarrow> [(s, New_find_counter)] | Some _ \<Rightarrow> [(s, Load_refs)])"
| "hit_next pops cops qops current f New_find_counter s =
     (case lookup_elem cops (static_counter s) 0 of None \<Rightarrow> [(s, New_insert 0)] | Some _ \<Rightarrow> [(s, New_load_counter)])"
| "hit_next pops cops qops current f New_load_counter s =
     (case lookup_elem cops (static_counter s) 0 of None \<Rightarrow> [] | Some c \<Rightarrow> [(s, New_incr_counter c)])"
| "hit_next pops cops qops current f (New_incr_counter c) s =
     [(s\<lparr>static_counter := store_elem cops (static_counter s) 0 (c + 1)\<rparr>, New_rank (c + 1))]"
| "hit_next pops cops qops current f (New_rank c) s =
     (s, New_insert c) # (case lookup_elem cops (static_counter s) 0 of None \<Rightarrow> [] | Some c' \<Rightarrow> [(s, New_insert c')])"
| "hit_next pops cops qops current f (New_insert r) s =
     [(s\<lparr>page_access_map := fst (update_elem pops (page_access_map s) (key_of f)
           \<lparr>m_ref_count = 1, m_rank = r, m_page_count = ucast (f_nr_pages f), m_pid = tgid_of current\<rparr>)\<rparr>, Done)]"
| "hit_next pops cops qops current f Load_refs s =
     (case lookup_elem pops (page_access_map s) (key_of f) of None \<Rightarrow> [] | Some ac \<Rightarrow> [(s, Incr_refs (m_ref_count ac))])"
| "hit_next pops cops qops current f (Incr_refs n) s =
     (case lookup_elem pops (page_access_map s) (key_of f) of
        None \<Rightarrow> []
      | Some ac \<Rightarrow> [(s\<lparr>page_access_map := store_elem pops (page_access_map s) (key_of f) (ac\<lparr>m_ref_count := n + 1\<rparr>)\<rparr>, Find_counter)])"
| "hit_next pops cops qops current f Find_counter s =
     (case lookup_elem cops (static_counter s) 0 of None \<Rightarrow> [(s, Set_page_count)] | Some _ \<Rightarrow> [(s, Load_counter)])"
| "hit_next pops cops qops current f Load_counter s =
     (case lookup_elem cops (static_counter s) 0 of None \<Rightarrow> [] | Some c \<Rightarrow> [(s, Incr_counter c)])"
| "hit_next pops cops qops current f (Incr_counter c) s =
     [(s\<lparr>static_counter := store_elem cops (static_counter s) 0 (c + 1)\<rparr>, Set_pid (c + 1))]"
| "hit_next pops cops qops current f (Set_pid c) s =
     (case lookup_elem pops (page_access_map s) (key_of f) of
        None \<Rightarrow> []
      | Some ac \<Rightarrow> [(s\<lparr>page_access_map := store_elem pops (page_access_map s) (key_of f) (ac\<lparr>m_pid := tgid_of current\<rparr>)\<rparr>, Load_rank c)])"
| "hit_next pops cops qops current f (Load_rank c) s =
     (s, Set_rank c) # (case lookup_elem cops (static_counter s) 0 of None \<Rightarrow> [] | Some c' \<Rightarrow> [(s, Set_rank c')])"
| "hit_next pops cops qops current f (Set_rank r) s =
     (case lookup_elem pops (page_access_map s) (key_of f) of
        None \<Rightarrow> []
      | Some ac \<Rightarrow> [(s\<lparr>page_access_map := store_elem pops (page_access_map s) (key_of f) (ac\<lparr>m_rank := r\<rparr>)\<rparr>, Set_page_count)])"
| "hit_next pops cops qops current f Set_page_count s =
     (case lookup_elem pops (page_access_map s) (key_of f) of
        None \<Rightarrow> []
      | Some ac \<Rightarrow> [(s\<lparr>page_access_map :=
            store_elem pops (page_access_map s) (key_of f) (ac\<lparr>m_page_count := ucast (f_nr_pages f)\<rparr>)\<rparr>, Write_back)])"
| "hit_next pops cops qops current f Write_back s =
     (case lookup_elem pops (page_access_map s) (key_of f) of
        None \<Rightarrow> []
      | Some ac \<Rightarrow> [(s\<lparr>page_access_map := fst (update_elem pops (page_access_map s) (key_of f) ac)\<rparr>, Done)])"
| "hit_next pops cops qops current f Done s = []"

text \<open>A CPU in the probe: \<^verbatim>\<open>bpf_get_current_pid_tgid()\<close>, the folio, and where it is.\<close>

record cpu_hit =
  cpu_current :: u64
  cpu_folio :: folio
  cpu_pc :: hit_pc

abbreviation cpu_pid :: "cpu_hit \<Rightarrow> s32" where "cpu_pid c \<equiv> tgid_of (cpu_current c)"
abbreviation cpu_key :: "cpu_hit \<Rightarrow> page_key" where "cpu_key c \<equiv> key_of (cpu_folio c)"

definition enter_probe :: "u64 \<Rightarrow> folio \<Rightarrow> cpu_hit" where
  "enter_probe current f = \<lparr>cpu_current = current, cpu_folio = f, cpu_pc = Check_pid\<rparr>"

text \<open>The machine: in each step one of the CPUs, any one, makes one step.\<close>

inductive race_step ::
  "'a page_map_ops \<Rightarrow> 'c counter_ops \<Rightarrow> 'p pid_map_ops \<Rightarrow>
   ('a, 'c, 'p) kprobe_maps \<times> cpu_hit list \<Rightarrow> ('a, 'c, 'p) kprobe_maps \<times> cpu_hit list \<Rightarrow> bool"
  for pops cops qops where
  cpu_step: "i < length cs \<Longrightarrow>
    (s', pc) \<in> set (hit_next pops cops qops (cpu_current (cs ! i)) (cpu_folio (cs ! i)) (cpu_pc (cs ! i)) s) \<Longrightarrow>
    race_step pops cops qops (s, cs) (s', cs[i := (cs ! i)\<lparr>cpu_pc := pc\<rparr>])"

inductive_cases race_stepE: "race_step pops cops qops (s, cs) (s', cs')"

abbreviation race ::
  "'a page_map_ops \<Rightarrow> 'c counter_ops \<Rightarrow> 'p pid_map_ops \<Rightarrow>
   ('a, 'c, 'p) kprobe_maps \<times> cpu_hit list \<Rightarrow> ('a, 'c, 'p) kprobe_maps \<times> cpu_hit list \<Rightarrow> bool" where
  "race pops cops qops \<equiv> (race_step pops cops qops)\<^sup>*\<^sup>*"

text \<open>A schedule as a list of CPUs, each of which makes its first possible step.\<close>

fun run_schedule ::
  "'a page_map_ops \<Rightarrow> 'c counter_ops \<Rightarrow> 'p pid_map_ops \<Rightarrow> nat list \<Rightarrow>
   ('a, 'c, 'p) kprobe_maps \<times> cpu_hit list \<Rightarrow> ('a, 'c, 'p) kprobe_maps \<times> cpu_hit list" where
  "run_schedule pops cops qops [] (s, cs) = (s, cs)"
| "run_schedule pops cops qops (i # is) (s, cs) =
     (if i < length cs
      then (case hit_next pops cops qops (cpu_current (cs ! i)) (cpu_folio (cs ! i)) (cpu_pc (cs ! i)) s of
              [] \<Rightarrow> run_schedule pops cops qops is (s, cs)
            | (s', pc) # _ \<Rightarrow> run_schedule pops cops qops is (s', cs[i := (cs ! i)\<lparr>cpu_pc := pc\<rparr>]))
      else run_schedule pops cops qops is (s, cs))"

lemma schedule_is_race: "race pops cops qops x (run_schedule pops cops qops is x)"
proof (induction pops cops qops "is" x rule: run_schedule.induct)
  case (2 pops cops qops i "is" s cs)
  have "race_step pops cops qops (s, cs) (s', cs[i := (cs ! i)\<lparr>cpu_pc := pc\<rparr>])"
    if "i < length cs" "hit_next pops cops qops (cpu_current (cs ! i)) (cpu_folio (cs ! i)) (cpu_pc (cs ! i)) s = (s', pc) # xs"
    for s' pc xs
    using that by (intro cpu_step) simp_all
  with 2 show ?case by (auto split: list.split intro: converse_rtranclp_into_rtranclp)
qed simp

text \<open>
  A schedule gives turns to CPUs. A turn of a CPU in the probe is one of its possible steps, a turn of a CPU that is
  done passes. The races are the runs of such schedules.
\<close>

inductive race_turns ::
  "'a page_map_ops \<Rightarrow> 'c counter_ops \<Rightarrow> 'p pid_map_ops \<Rightarrow> nat list \<Rightarrow>
   ('a, 'c, 'p) kprobe_maps \<times> cpu_hit list \<Rightarrow> ('a, 'c, 'p) kprobe_maps \<times> cpu_hit list \<Rightarrow> bool"
  for pops cops qops where
  turns_over: "race_turns pops cops qops [] x x"
| turn_passes: "i < length cs \<Longrightarrow> cpu_pc (cs ! i) = Done \<Longrightarrow> race_turns pops cops qops is (s, cs) y \<Longrightarrow>
    race_turns pops cops qops (i # is) (s, cs) y"
| turn_taken: "i < length cs \<Longrightarrow>
    (s', pc) \<in> set (hit_next pops cops qops (cpu_current (cs ! i)) (cpu_folio (cs ! i)) (cpu_pc (cs ! i)) s) \<Longrightarrow>
    race_turns pops cops qops is (s', cs[i := (cs ! i)\<lparr>cpu_pc := pc\<rparr>]) y \<Longrightarrow> race_turns pops cops qops (i # is) (s, cs) y"

lemma turns_iff_race: "(\<exists>is. race_turns pops cops qops is x y) \<longleftrightarrow> race pops cops qops x y"
proof
  assume "\<exists>is. race_turns pops cops qops is x y"
  then obtain "is" where "race_turns pops cops qops is x y" ..
  then show "race pops cops qops x y"
    by induction (auto intro: cpu_step converse_rtranclp_into_rtranclp)
next
  assume "race pops cops qops x y"
  then show "\<exists>is. race_turns pops cops qops is x y"
  proof (induction rule: converse_rtranclp_induct)
    case (step x x')
    then obtain "is" where "race_turns pops cops qops is x' y" by blast
    with step(1) show ?case by cases (blast intro: turn_taken)
  qed (blast intro: turns_over)
qed

section \<open>Every schedule comes to an end\<close>

fun steps_left :: "hit_pc \<Rightarrow> nat" where
  "steps_left Check_pid = 12"
| "steps_left Find_page = 11"
| "steps_left New_find_counter = 5"
| "steps_left New_load_counter = 4"
| "steps_left (New_incr_counter c) = 3"
| "steps_left (New_rank c) = 2"
| "steps_left (New_insert r) = 1"
| "steps_left Load_refs = 10"
| "steps_left (Incr_refs n) = 9"
| "steps_left Find_counter = 8"
| "steps_left Load_counter = 7"
| "steps_left (Incr_counter c) = 6"
| "steps_left (Set_pid c) = 5"
| "steps_left (Load_rank c) = 4"
| "steps_left (Set_rank r) = 3"
| "steps_left Set_page_count = 2"
| "steps_left Write_back = 1"
| "steps_left Done = 0"

definition race_left :: "cpu_hit list \<Rightarrow> nat" where
  "race_left cs = (\<Sum>c \<leftarrow> cs. steps_left (cpu_pc c))"

lemma hit_next_left: "(s', pc') \<in> set (hit_next pops cops qops current f pc s) \<Longrightarrow> steps_left pc' < steps_left pc"
  by (cases pc) (auto split: option.splits)

lemma race_step_left:
  assumes "race_step pops cops qops (s, cs) (s', cs')"
  shows "race_left cs' < race_left cs"
proof -
  obtain i pc where i: "cs' = cs[i := (cs ! i)\<lparr>cpu_pc := pc\<rparr>]" "i < length cs"
      "(s', pc) \<in> set (hit_next pops cops qops (cpu_current (cs ! i)) (cpu_folio (cs ! i)) (cpu_pc (cs ! i)) s)"
    using assms by (rule race_stepE)
  have "steps_left pc < steps_left (cpu_pc (cs ! i))" by (rule hit_next_left [OF i(3)])
  then show ?thesis using i(2) elem_le_sum_list [of i "map (\<lambda>c. steps_left (cpu_pc c)) cs"]
    by (simp add: race_left_def i(1) map_update sum_list_update)
qed

lemma race_same_length: "race pops cops qops x y \<Longrightarrow> length (snd y) = length (snd x)"
  by (induction rule: rtranclp_induct) (auto elim!: race_step.cases)

text \<open>Every turn of a CPU brings it, and it alone, closer to the end of the probe.\<close>

lemma turns_left:
  assumes "race_turns pops cops qops is x y" "i < length (snd x)"
  shows "steps_left (cpu_pc (snd y ! i)) \<le> steps_left (cpu_pc (snd x ! i)) - count_list is i"
  using assms
proof induction
  case (turn_taken j cs s' pc s "is" y)
  have "steps_left pc < steps_left (cpu_pc (cs ! j))" by (rule hit_next_left [OF turn_taken.hyps(2)])
  with turn_taken.IH turn_taken.prems turn_taken.hyps(1) show ?case by (auto simp: nth_list_update split: if_splits)
qed auto

text \<open>The hits that are in the branch of a known page rely on its element being there.\<close>

fun needs_page :: "hit_pc \<Rightarrow> bool" where
  "needs_page Load_refs = True"
| "needs_page (Incr_refs n) = True"
| "needs_page Find_counter = True"
| "needs_page Load_counter = True"
| "needs_page (Incr_counter c) = True"
| "needs_page (Set_pid c) = True"
| "needs_page (Load_rank c) = True"
| "needs_page (Set_rank r) = True"
| "needs_page Set_page_count = True"
| "needs_page Write_back = True"
| "needs_page _ = False"

definition race_ok ::
  "'a page_map_ops \<Rightarrow> ('a \<Rightarrow> bool) \<Rightarrow> ('c \<Rightarrow> bool) \<Rightarrow> ('p \<Rightarrow> bool) \<Rightarrow> ('a, 'c, 'p) kprobe_maps \<times> cpu_hit list \<Rightarrow> bool" where
  "race_ok pops pinv cinv qinv = (\<lambda>(s, cs). maps_ok pinv cinv qinv s \<and>
     (\<forall>c \<in> set cs. needs_page (cpu_pc c) \<longrightarrow> lookup_elem pops (page_access_map s) (cpu_key c) \<noteq> None))"

context page_tracker
begin

text \<open>A step keeps the maps in order, never removes a page, and keeps what the hit itself relies on.\<close>

lemma hit_next_ok:
  assumes "(s', pc') \<in> set (hit_next pops cops qops current f pc s)" "maps_ok pinv cinv qinv s"
    and "needs_page pc \<Longrightarrow> lookup_elem pops (page_access_map s) (key_of f) \<noteq> None"
  shows "maps_ok pinv cinv qinv s'"
    and "lookup_elem pops (page_access_map s) k \<noteq> None \<Longrightarrow> lookup_elem pops (page_access_map s') k \<noteq> None"
    and "needs_page pc' \<Longrightarrow> lookup_elem pops (page_access_map s') (key_of f) \<noteq> None"
proof -
  have i: "pinv (page_access_map s)" "cinv (static_counter s)" "qinv (pid_map s)" using assms(2) by (simp_all add: maps_ok_def)
  obtain c where c: "lookup_elem cops (static_counter s) 0 = Some c" using counter_present [OF i(2)] .
  have upd: "lookup_elem pops (page_access_map s) k \<noteq> None \<Longrightarrow>
      lookup_elem pops (fst (update_elem pops (page_access_map s) k' v)) k \<noteq> None" for k k' v
    using i(1) by (cases rule: page.update_cases [where k = k' and v = v]) auto
  note facts = maps_ok_def page.lookup_store page.inv_store counter.inv_store page.inv_update_fst
  show "maps_ok pinv cinv qinv s'"
    using assms(1,3) i c by (cases pc) (auto simp: facts split: option.splits)
  show "lookup_elem pops (page_access_map s') k \<noteq> None" if "lookup_elem pops (page_access_map s) k \<noteq> None"
    using assms(1,3) i c that upd [OF that] by (cases pc) (auto simp: facts split: option.splits)
  show "lookup_elem pops (page_access_map s') (key_of f) \<noteq> None" if "needs_page pc'"
    using assms(1,3) i c that by (cases pc) (auto simp: facts split: option.splits)
qed

lemma race_step_ok:
  assumes "race_step pops cops qops x y" "race_ok pops pinv cinv qinv x"
  shows "race_ok pops pinv cinv qinv y"
  using assms
proof cases
  case (cpu_step i cs s' pc s)
  have c: "cs ! i \<in> set cs" using cpu_step(3) by simp
  have n: "needs_page (cpu_pc (cs ! i)) \<Longrightarrow> lookup_elem pops (page_access_map s) (cpu_key (cs ! i)) \<noteq> None"
    and m: "maps_ok pinv cinv qinv s"
    using assms(2) c by (auto simp: cpu_step(1) race_ok_def)
  note ok = hit_next_ok [OF cpu_step(4) m n]
  show ?thesis
    using assms(2) ok set_update_subset_insert [of cs i] unfolding race_ok_def cpu_step(1,2) by fastforce
qed

lemma race_keeps_ok: "race pops cops qops x y \<Longrightarrow> race_ok pops pinv cinv qinv x \<Longrightarrow> race_ok pops pinv cinv qinv y"
  by (induction rule: rtranclp_induct) (auto intro: race_step_ok)

lemma hit_next_progress:
  assumes "maps_ok pinv cinv qinv s" "pc \<noteq> Done"
    and "needs_page pc \<Longrightarrow> lookup_elem pops (page_access_map s) (key_of f) \<noteq> None"
  shows "hit_next pops cops qops current f pc s \<noteq> []"
proof -
  have "cinv (static_counter s)" using assms(1) by (simp add: maps_ok_def)
  then obtain c where "lookup_elem cops (static_counter s) 0 = Some c" by (rule counter_present)
  with assms(2,3) show ?thesis by (cases pc) (auto split: option.split)
qed

lemma race_progress:
  assumes "race_ok pops pinv cinv qinv (s, cs)" "c \<in> set cs" "cpu_pc c \<noteq> Done"
  shows "\<exists>y. race_step pops cops qops (s, cs) y"
proof -
  obtain i where i: "i < length cs" "c = cs ! i" using assms(2) by (auto simp: in_set_conv_nth)
  have "hit_next pops cops qops (cpu_current c) (cpu_folio c) (cpu_pc c) s \<noteq> []"
    using assms by (intro hit_next_progress) (auto simp: race_ok_def)
  then obtain s' pc where "(s', pc) \<in> set (hit_next pops cops qops (cpu_current c) (cpu_folio c) (cpu_pc c) s)"
    by (metis list.set_sel(1) prod.collapse)
  with i show ?thesis by (auto intro: cpu_step)
qed

text \<open>Every schedule can be carried out: no hit waits for another one.\<close>

lemma turns_possible:
  assumes "race_ok pops pinv cinv qinv (s, cs)" "set is \<subseteq> {..<length cs}"
  shows "\<exists>y. race_turns pops cops qops is (s, cs) y"
  using assms
proof (induction "is" arbitrary: s cs)
  case (Cons i "is")
  then have i: "i < length cs" "set is \<subseteq> {..<length cs}" by auto
  show ?case
  proof (cases "cpu_pc (cs ! i) = Done")
    case True
    with i Cons.IH [OF Cons.prems(1)] show ?thesis by (blast intro: turn_passes)
  next
    case False
    have "hit_next pops cops qops (cpu_current (cs ! i)) (cpu_folio (cs ! i)) (cpu_pc (cs ! i)) s \<noteq> []"
      using Cons.prems(1) i(1) False by (intro hit_next_progress) (auto simp: race_ok_def)
    then obtain s' pc where
      next_pc: "(s', pc) \<in> set (hit_next pops cops qops (cpu_current (cs ! i)) (cpu_folio (cs ! i)) (cpu_pc (cs ! i)) s)"
      by (metis list.set_sel(1) prod.collapse)
    have "race_ok pops pinv cinv qinv (s', cs[i := (cs ! i)\<lparr>cpu_pc := pc\<rparr>])"
      by (rule race_step_ok [OF cpu_step [OF i(1) next_pc] Cons.prems(1)])
    with Cons.IH i next_pc show ?thesis by (metis length_list_update turn_taken)
  qed
qed (blast intro: turns_over)

text \<open>From any state, some schedule finishes all hits.\<close>

lemma race_completes:
  assumes "race_ok pops pinv cinv qinv (s, cs)"
  shows "\<exists>s' cs'. race pops cops qops (s, cs) (s', cs') \<and> (\<forall>c \<in> set cs'. cpu_pc c = Done)"
  using assms
proof (induction "race_left cs" arbitrary: s cs rule: less_induct)
  case less
  show ?case
  proof (cases "\<forall>c \<in> set cs. cpu_pc c = Done")
    case False
    then obtain s1 cs1 where step: "race_step pops cops qops (s, cs) (s1, cs1)"
      using race_progress [OF less.prems] by (metis surj_pair)
    with less show ?thesis
      using race_step_left [OF step] race_step_ok [OF step] by (meson converse_rtranclp_into_rtranclp)
  qed blast
qed

end

section \<open>Hits on different pages\<close>

text \<open>
  What a hit has done so far, in terms of the element \<open>e0\<close> that the page had before it, the counter
  \<open>c0\<close> at the start and the number \<open>K\<close> of increments by all CPUs; \<open>tracked\<close> tells the tracked
  processes.
\<close>

definition loaded :: "u64 \<Rightarrow> nat \<Rightarrow> u64 \<Rightarrow> bool" where
  "loaded c0 K c \<longleftrightarrow> (\<exists>j \<le> K. c = c0 + of_nat j)"

definition ranked :: "u64 \<Rightarrow> nat \<Rightarrow> u64 \<Rightarrow> bool" where
  "ranked c0 K c \<longleftrightarrow> (\<exists>j < K. c = c0 + of_nat j + 1)"

fun hit_done :: "u64 \<Rightarrow> nat \<Rightarrow> (s32 \<Rightarrow> bool) \<Rightarrow> u64 \<Rightarrow> folio \<Rightarrow> metric option \<Rightarrow> hit_pc \<Rightarrow> metric option \<Rightarrow> bool" where
  "hit_done c0 K tracked current f e0 Check_pid e \<longleftrightarrow> e = e0"
| "hit_done c0 K tracked current f e0 Find_page e \<longleftrightarrow> tracked (tgid_of current) \<and> e = e0"
| "hit_done c0 K tracked current f e0 New_find_counter e \<longleftrightarrow> tracked (tgid_of current) \<and> e0 = None \<and> e = None"
| "hit_done c0 K tracked current f e0 New_load_counter e \<longleftrightarrow> tracked (tgid_of current) \<and> e0 = None \<and> e = None"
| "hit_done c0 K tracked current f e0 (New_incr_counter c) e \<longleftrightarrow>
     tracked (tgid_of current) \<and> e0 = None \<and> e = None \<and> loaded c0 K c"
| "hit_done c0 K tracked current f e0 (New_rank c) e \<longleftrightarrow>
     tracked (tgid_of current) \<and> e0 = None \<and> e = None \<and> ranked c0 K c"
| "hit_done c0 K tracked current f e0 (New_insert c) e \<longleftrightarrow>
     tracked (tgid_of current) \<and> e0 = None \<and> e = None \<and> ranked c0 K c"
| "hit_done c0 K tracked current f e0 Load_refs e \<longleftrightarrow> tracked (tgid_of current) \<and> e0 \<noteq> None \<and> e = e0"
| "hit_done c0 K tracked current f e0 (Incr_refs n) e \<longleftrightarrow>
     tracked (tgid_of current) \<and> (\<exists>a. e0 = Some a \<and> n = m_ref_count a) \<and> e = e0"
| "hit_done c0 K tracked current f e0 Find_counter e \<longleftrightarrow>
     tracked (tgid_of current) \<and> (\<exists>a. e0 = Some a \<and> e = Some (a\<lparr>m_ref_count := m_ref_count a + 1\<rparr>))"
| "hit_done c0 K tracked current f e0 Load_counter e \<longleftrightarrow>
     tracked (tgid_of current) \<and> (\<exists>a. e0 = Some a \<and> e = Some (a\<lparr>m_ref_count := m_ref_count a + 1\<rparr>))"
| "hit_done c0 K tracked current f e0 (Incr_counter c) e \<longleftrightarrow>
     tracked (tgid_of current) \<and> (\<exists>a. e0 = Some a \<and> e = Some (a\<lparr>m_ref_count := m_ref_count a + 1\<rparr>)) \<and> loaded c0 K c"
| "hit_done c0 K tracked current f e0 (Set_pid c) e \<longleftrightarrow>
     tracked (tgid_of current) \<and> (\<exists>a. e0 = Some a \<and> e = Some (a\<lparr>m_ref_count := m_ref_count a + 1\<rparr>)) \<and> ranked c0 K c"
| "hit_done c0 K tracked current f e0 (Load_rank c) e \<longleftrightarrow>
     tracked (tgid_of current) \<and> (\<exists>a. e0 = Some a \<and> e = Some (a\<lparr>m_ref_count := m_ref_count a + 1, m_pid := tgid_of current\<rparr>))
     \<and> ranked c0 K c"
| "hit_done c0 K tracked current f e0 (Set_rank c) e \<longleftrightarrow>
     tracked (tgid_of current) \<and> (\<exists>a. e0 = Some a \<and> e = Some (a\<lparr>m_ref_count := m_ref_count a + 1, m_pid := tgid_of current\<rparr>))
     \<and> ranked c0 K c"
| "hit_done c0 K tracked current f e0 Set_page_count e \<longleftrightarrow>
     tracked (tgid_of current) \<and> (\<exists>a r. e0 = Some a \<and> ranked c0 K r \<and>
       e = Some (a\<lparr>m_ref_count := m_ref_count a + 1, m_pid := tgid_of current, m_rank := r\<rparr>))"
| "hit_done c0 K tracked current f e0 Write_back e \<longleftrightarrow>
     tracked (tgid_of current) \<and> e0 \<noteq> None \<and> (\<exists>j < K. e = Some (touched current f (c0 + of_nat j) e0))"
| "hit_done c0 K tracked current f e0 Done e \<longleftrightarrow>
     (if tracked (tgid_of current) then \<exists>j < K. e = Some (touched current f (c0 + of_nat j) e0) else e = e0)"

lemma hit_done_page: "hit_done c0 K tracked current f e0 pc e \<Longrightarrow> needs_page pc \<Longrightarrow> e \<noteq> None"
  by (cases pc) auto

text \<open>The hits that have incremented the counter.\<close>

fun counted :: "hit_pc \<Rightarrow> bool" where
  "counted (New_rank c) = True"
| "counted (New_insert r) = True"
| "counted (Set_pid c) = True"
| "counted (Load_rank c) = True"
| "counted (Set_rank r) = True"
| "counted Set_page_count = True"
| "counted Write_back = True"
| "counted Done = True"
| "counted _ = False"

definition counter_in :: "u64 \<Rightarrow> nat \<Rightarrow> u64 option \<Rightarrow> bool" where
  "counter_in c0 K c \<longleftrightarrow> (\<exists>j \<le> K. c = Some (c0 + of_nat j) \<and> (0 < K \<longrightarrow> 0 < j))"

lemma loaded_mono: "loaded c0 K c \<Longrightarrow> K \<le> L \<Longrightarrow> loaded c0 L c"
  by (metis loaded_def le_trans)

lemma ranked_mono: "ranked c0 K c \<Longrightarrow> K \<le> L \<Longrightarrow> ranked c0 L c"
  by (metis ranked_def less_le_trans)

lemma counter_loaded: "counter_in c0 K (Some c) \<Longrightarrow> loaded c0 K c"
  and counter_ranked: "counter_in c0 K (Some c) \<Longrightarrow> 0 < K \<Longrightarrow> ranked c0 K c"
proof -
  show "counter_in c0 K (Some c) \<Longrightarrow> loaded c0 K c" by (auto simp: counter_in_def loaded_def)
  assume "counter_in c0 K (Some c)" "0 < K"
  then obtain j where "Suc j \<le> K" "c = c0 + of_nat (Suc j)" unfolding counter_in_def by (metis option.inject gr0_conv_Suc)
  then show "ranked c0 K c" by (auto simp: ranked_def algebra_simps intro!: exI [of _ j])
qed

lemma loaded_next: "loaded c0 K c \<Longrightarrow> ranked c0 (Suc K) (c + 1)" "loaded c0 K c \<Longrightarrow> counter_in c0 (Suc K) (Some (c + 1))"
proof -
  assume "loaded c0 K c"
  then obtain j where j: "j \<le> K" "c = c0 + of_nat j" by (auto simp: loaded_def)
  then show "ranked c0 (Suc K) (c + 1)" by (auto simp: ranked_def less_Suc_eq_le)
  show "counter_in c0 (Suc K) (Some (c + 1))"
    using j unfolding counter_in_def by (intro exI [of _ "Suc j"]) (simp add: algebra_simps)
qed

text \<open>A complete element, made afresh or in place.\<close>

lemma ranked_touched:
  assumes "ranked c0 K r"
  shows "\<exists>j < K. \<lparr>m_ref_count = 1, m_rank = r, m_page_count = ucast (f_nr_pages f), m_pid = tgid_of current\<rparr>
      = touched current f (c0 + of_nat j) None"
    and "\<exists>j < K. a\<lparr>m_ref_count := m_ref_count a + 1, m_pid := tgid_of current, m_rank := r, m_page_count := ucast (f_nr_pages f)\<rparr>
      = touched current f (c0 + of_nat j) (Some a)"
proof -
  obtain j where "j < K" "r = c0 + of_nat j + 1" using assms by (auto simp: ranked_def)
  then show "\<exists>j < K. \<lparr>m_ref_count = 1, m_rank = r, m_page_count = ucast (f_nr_pages f), m_pid = tgid_of current\<rparr>
      = touched current f (c0 + of_nat j) None"
    and "\<exists>j < K. a\<lparr>m_ref_count := m_ref_count a + 1, m_pid := tgid_of current, m_rank := r, m_page_count := ucast (f_nr_pages f)\<rparr>
      = touched current f (c0 + of_nat j) (Some a)"
    by (auto simp: touched_in_place touched_def)
qed

lemma hit_done_mono: "hit_done c0 K tracked current f e0 pc e \<Longrightarrow> K \<le> L \<Longrightarrow> hit_done c0 L tracked current f e0 pc e"
  by (cases pc) (auto intro: loaded_mono ranked_mono less_le_trans split: if_splits)

context page_tracker
begin

text \<open>One step of a hit, as the other CPUs see it and as it advances the hit itself.\<close>

lemma hit_next_frame:
  assumes "(s', pc') \<in> set (hit_next pops cops qops current f pc s)" "maps_ok pinv cinv qinv s"
  shows "k \<noteq> key_of f \<Longrightarrow> lookup_elem pops (page_access_map s') k = lookup_elem pops (page_access_map s) k"
    and "pid_map s' = pid_map s" "trace_pipe s' = trace_pipe s"
proof -
  have i: "pinv (page_access_map s)" using assms(2) by (simp add: maps_ok_def)
  have "lookup_elem pops (fst (update_elem pops (page_access_map s) (key_of f) v)) k = lookup_elem pops (page_access_map s) k"
    if "k \<noteq> key_of f" for v
    using i that by (cases rule: page.update_cases [where k = "key_of f" and v = v]) auto
  then show "lookup_elem pops (page_access_map s') k = lookup_elem pops (page_access_map s) k" if "k \<noteq> key_of f"
    using assms(1) i that
    by (cases pc; cases "lookup_elem pops (page_access_map s) (key_of f)") (auto simp: page.lookup_store split: option.splits)
  show "pid_map s' = pid_map s" "trace_pipe s' = trace_pipe s"
    using assms(1) by (cases pc; auto split: option.splits)+
qed

lemma hit_next_done:
  assumes "(s', pc') \<in> set (hit_next pops cops qops current f pc s)" "maps_ok pinv cinv qinv s"
    and room: "lookup_elem pops (page_access_map s) (key_of f) \<noteq> None
      \<or> card (dom (lookup_elem pops (page_access_map s))) < page_access_max_entries"
    and tracked: "tracked = (\<lambda>p. lookup_elem qops (pid_map s) p \<noteq> None)"
    and "hit_done c0 K tracked current f e0 pc (lookup_elem pops (page_access_map s) (key_of f))"
    and "counter_in c0 K (lookup_elem cops (static_counter s) 0)"
    and "tracked (tgid_of current) \<Longrightarrow> counted pc \<Longrightarrow> 0 < K"
    and L: "L = K + (if tracked (tgid_of current) \<and> counted pc' \<and> \<not> counted pc then 1 else 0)"
  shows "hit_done c0 L tracked current f e0 pc' (lookup_elem pops (page_access_map s') (key_of f))"
    and "counter_in c0 L (lookup_elem cops (static_counter s') 0)"
    and "counted pc \<Longrightarrow> counted pc'"
proof -
  have i: "pinv (page_access_map s)" "cinv (static_counter s)" using assms(2) by (simp_all add: maps_ok_def)
  obtain c where c: "lookup_elem cops (static_counter s) 0 = Some c" using counter_present [OF i(2)] .
  note upd = page.lookup_update_room [OF i(1) room]
  show "hit_done c0 L tracked current f e0 pc' (lookup_elem pops (page_access_map s') (key_of f))"
    using assms(1,5,6,7) i c
    by (cases pc; cases "lookup_elem pops (page_access_map s) (key_of f)")
      (auto simp: L tracked upd page.lookup_store
        intro: ranked_touched loaded_next(1) counter_loaded counter_ranked split: option.splits if_splits)
  show "counter_in c0 L (lookup_elem cops (static_counter s') 0)"
    using assms(1,5,6) i c
    by (cases pc; cases "lookup_elem pops (page_access_map s) (key_of f)")
      (auto simp: L tracked counter.lookup_store intro: loaded_next(2) split: option.splits if_splits)
  show "counted pc'" if "counted pc"
    using assms(1) that by (cases pc) (auto split: option.splits)
qed

end

text \<open>The invariant of the whole machine, for hits on different pages.\<close>

definition increments :: "(s32 \<Rightarrow> bool) \<Rightarrow> cpu_hit list \<Rightarrow> nat" where
  "increments tracked cs = length (filter (\<lambda>c. tracked (cpu_pid c) \<and> counted (cpu_pc c)) cs)"

definition tracked_pid :: "'p pid_map_ops \<Rightarrow> ('a, 'c, 'p) kprobe_maps \<Rightarrow> s32 \<Rightarrow> bool" where
  "tracked_pid qops s p \<longleftrightarrow> lookup_elem qops (pid_map s) p \<noteq> None"

definition race_inv ::
  "'a page_map_ops \<Rightarrow> ('a \<Rightarrow> bool) \<Rightarrow> 'c counter_ops \<Rightarrow> ('c \<Rightarrow> bool) \<Rightarrow> 'p pid_map_ops \<Rightarrow> ('p \<Rightarrow> bool) \<Rightarrow> u64 \<Rightarrow>
   ('a, 'c, 'p) kprobe_maps \<Rightarrow> cpu_hit list \<Rightarrow> ('a, 'c, 'p) kprobe_maps \<times> cpu_hit list \<Rightarrow> bool" where
  "race_inv pops pinv cops cinv qops qinv c0 s0 cs0 = (\<lambda>(s, cs).
     (let tracked = tracked_pid qops s0; K = increments tracked cs;
          before = lookup_elem pops (page_access_map s0); now = lookup_elem pops (page_access_map s) in
      maps_ok pinv cinv qinv s \<and> pid_map s = pid_map s0 \<and> trace_pipe s = trace_pipe s0 \<and>
      map (\<lambda>c. (cpu_current c, cpu_folio c)) cs = map (\<lambda>c. (cpu_current c, cpu_folio c)) cs0 \<and>
      (\<forall>k. k \<notin> cpu_key ` set cs0 \<longrightarrow> now k = before k) \<and>
      counter_in c0 K (lookup_elem cops (static_counter s) 0) \<and>
      (\<forall>c \<in> set cs. hit_done c0 K tracked (cpu_current c) (cpu_folio c) (before (cpu_key c)) (cpu_pc c) (now (cpu_key c)))))"

lemma length_filter_update:
  assumes "i < length xs"
  shows "length (filter P (xs[i := y])) + (if P (xs ! i) then 1 else 0) = length (filter P xs) + (if P y then 1 else 0)"
  using assms
proof (induction xs arbitrary: i)
  case (Cons x xs)
  then show ?case by (cases i) auto
qed simp

lemma cpu_keys: "map (\<lambda>c. (cpu_current c, cpu_folio c)) cs = map (\<lambda>c. (cpu_current c, cpu_folio c)) cs0 \<Longrightarrow> map cpu_key cs = map cpu_key cs0"
  by (drule arg_cong [where f = "map (\<lambda>x. key_of (snd x))"]) (simp add: comp_def)

context page_tracker
begin

lemma race_step_inv:
  assumes "race_step pops cops qops x y" "race_inv pops pinv cops cinv qops qinv c0 s0 cs0 x"
    and "distinct (map cpu_key cs0)"
    and fits: "card (dom (lookup_elem pops (page_access_map s0)) \<union> cpu_key ` set cs0) \<le> page_access_max_entries"
    and "finite (dom (lookup_elem pops (page_access_map s0)))"
  shows "race_inv pops pinv cops cinv qops qinv c0 s0 cs0 y"
  using assms(1)
proof cases
  case (cpu_step i cs s' pc s)
  define tracked where "tracked = tracked_pid qops s0"
  define K where "K = increments tracked cs"
  let ?c = "cs ! i" and ?cs = "cs[i := (cs ! i)\<lparr>cpu_pc := pc\<rparr>]"
  let ?before = "lookup_elem pops (page_access_map s0)" and ?now = "lookup_elem pops (page_access_map s)"
  have inv: "maps_ok pinv cinv qinv s" "pid_map s = pid_map s0" "trace_pipe s = trace_pipe s0"
      "map (\<lambda>c. (cpu_current c, cpu_folio c)) cs = map (\<lambda>c. (cpu_current c, cpu_folio c)) cs0"
      "\<And>k. k \<notin> cpu_key ` set cs0 \<Longrightarrow> ?now k = ?before k"
      "counter_in c0 K (lookup_elem cops (static_counter s) 0)"
    and hits: "\<And>c. c \<in> set cs \<Longrightarrow>
      hit_done c0 K tracked (cpu_current c) (cpu_folio c) (?before (cpu_key c)) (cpu_pc c) (?now (cpu_key c))"
    using assms(2) unfolding cpu_step(1) race_inv_def by (simp_all add: Let_def tracked_def K_def)
  have c: "?c \<in> set cs" using cpu_step(3) by simp
  note keys = cpu_keys [OF inv(4)]
  have ck: "cpu_key ?c \<in> cpu_key ` set cs0" using c keys by (metis image_eqI list.set_map)
  have "insert (cpu_key ?c) (dom ?now) \<subseteq> dom ?before \<union> cpu_key ` set cs0" using inv(5) ck by (auto simp: dom_def)
  then have "card (insert (cpu_key ?c) (dom ?now)) \<le> page_access_max_entries"
    using assms(5) fits by (meson List.finite_set card_mono finite_UnI finite_imageI le_trans)
  then have room: "?now (cpu_key ?c) \<noteq> None \<or> card (dom ?now) < page_access_max_entries"
    using inv(1) by (intro page.fits_room) (simp_all add: maps_ok_def)
  have tr: "tracked = (\<lambda>p. lookup_elem qops (pid_map s) p \<noteq> None)" by (simp add: tracked_def tracked_pid_def inv(2) fun_eq_iff)
  have pos: "0 < K" if "tracked (cpu_pid ?c)" "counted (cpu_pc ?c)"
    using that c unfolding K_def increments_def by (auto simp: length_greater_0_conv filter_empty_conv)
  define L where "L = K + (if tracked (cpu_pid ?c) \<and> counted pc \<and> \<not> counted (cpu_pc ?c) then 1 else 0)"
  note step = hit_next_done [OF cpu_step(4) inv(1) room tr hits [OF c] inv(6) pos L_def]
  note frame = hit_next_frame [OF cpu_step(4) inv(1)]
  have "increments tracked ?cs + (if tracked (cpu_pid ?c) \<and> counted (cpu_pc ?c) then 1 else 0)
      = K + (if tracked (cpu_pid ?c) \<and> counted pc then 1 else 0)"
    using length_filter_update [OF cpu_step(3), of "\<lambda>c. tracked (cpu_pid c) \<and> counted (cpu_pc c)" "?c\<lparr>cpu_pc := pc\<rparr>"]
    by (simp add: increments_def K_def)
  then have L: "increments tracked ?cs = L" using step(3) by (auto simp: L_def split: if_splits)
  have "maps_ok pinv cinv qinv s'"
    using hit_done_page [OF hits [OF c]] by (rule hit_next_ok(1) [OF cpu_step(4) inv(1)])
  moreover have "hit_done c0 L tracked (cpu_current c) (cpu_folio c) (?before (cpu_key c)) (cpu_pc c)
      (lookup_elem pops (page_access_map s') (cpu_key c))" if "c \<in> set ?cs" for c
  proof -
    obtain j where j: "j < length cs" "c = ?cs ! j" using \<open>c \<in> set ?cs\<close> by (auto simp: in_set_conv_nth)
    show ?thesis
    proof (cases "j = i")
      case False
      then have cj: "c = cs ! j" using j(2) by simp
      have "map cpu_key cs ! j \<noteq> map cpu_key cs ! i"
        using assms(3) False j(1) cpu_step(3) unfolding keys [symmetric] by (simp only: nth_eq_iff_index_eq length_map not_False_eq_True)
      then have "cpu_key c \<noteq> cpu_key ?c" using cj j(1) cpu_step(3) by simp
      moreover have "c \<in> set cs" using cj j(1) by simp
      ultimately show ?thesis using hit_done_mono [OF hits, of c L] frame(1) by (simp add: L_def)
    qed (use j step(1) in simp)
  qed
  moreover have "lookup_elem pops (page_access_map s') k = ?before k" if "k \<notin> cpu_key ` set cs0" for k
    using frame(1) [of k] inv(5) [OF that] that ck by metis
  moreover have "map (\<lambda>c. (cpu_current c, cpu_folio c)) ?cs = map (\<lambda>c. (cpu_current c, cpu_folio c)) cs0"
    unfolding inv(4) [symmetric] using cpu_step(3) by (intro nth_equalityI) (auto simp: nth_list_update)
  ultimately show ?thesis
    unfolding cpu_step(2) race_inv_def using inv(2,3) step(2) frame(2,3) by (simp add: Let_def L tracked_def [symmetric])
qed

lemma race_keeps_inv:
  assumes "race pops cops qops (s0, cs0) y" "maps_ok pinv cinv qinv s0" "lookup_elem cops (static_counter s0) 0 = Some c0"
    and "distinct (map cpu_key cs0)" "\<forall>c \<in> set cs0. cpu_pc c = Check_pid"
    and "card (dom (lookup_elem pops (page_access_map s0)) \<union> cpu_key ` set cs0) \<le> page_access_max_entries"
  shows "race_inv pops pinv cops cinv qops qinv c0 s0 cs0 y"
  using assms(1)
proof (induction rule: rtranclp_induct)
  case base
  have "increments tracked cs0 = 0" for tracked using assms(5) by (simp add: increments_def)
  then show ?case using assms(2,3,5) by (simp add: race_inv_def counter_in_def Let_def)
next
  case (step x y)
  have "finite (dom (lookup_elem pops (page_access_map s0)))" using assms(2) by (intro page.finite_dom) (simp add: maps_ok_def)
  then show ?case by (rule race_step_inv [OF step(2,3) assms(4,6)])
qed

end

section \<open>Hits that do not overlap\<close>

text \<open>
  Executions in which each hit runs in single steps, but from its start to its end without another event in between.
  The other events (a page freed, a process added) are as in \<open>page_step\<close>.
\<close>

inductive stepwise_run ::
  "'a page_map_ops \<Rightarrow> 'c counter_ops \<Rightarrow> 'p pid_map_ops \<Rightarrow> page_event list \<Rightarrow>
   ('a, 'c, 'p) kprobe_maps \<Rightarrow> ('a, 'c, 'p) kprobe_maps \<Rightarrow> bool"
  for pops cops qops where
  no_event: "stepwise_run pops cops qops [] s s"
| stepwise_hit: "stepwise_run pops cops qops es s s1 \<Longrightarrow>
    race pops cops qops (s1, [enter_probe current f]) (s2, [c]) \<Longrightarrow> cpu_pc c = Done \<Longrightarrow>
    stepwise_run pops cops qops (es @ [Mark_accessed current f]) s s2"
| stepwise_free: "stepwise_run pops cops qops es s s1 \<Longrightarrow>
    stepwise_run pops cops qops (es @ [Free_folio current tmp f]) s (page_step pops cops qops (Free_folio current tmp f) s1)"
| stepwise_add: "stepwise_run pops cops qops es s s1 \<Longrightarrow>
    stepwise_run pops cops qops (es @ [Add_pid pid]) s (page_step pops cops qops (Add_pid pid) s1)"

lemma race_inv_alone:
  assumes "race_inv pops pinv cops cinv qops qinv c0 s [enter_probe current f] (s', [c])" "cpu_pc c = Done"
  shows "k \<noteq> key_of f \<Longrightarrow> lookup_elem pops (page_access_map s') k = lookup_elem pops (page_access_map s) k"
    and "pid_map s' = pid_map s" "trace_pipe s' = trace_pipe s"
    and "lookup_elem cops (static_counter s') 0 = Some (if tracked_pid qops s (tgid_of current) then c0 + 1 else c0)"
    and "lookup_elem pops (page_access_map s') (key_of f) =
      (if tracked_pid qops s (tgid_of current)
       then Some (touched current f c0 (lookup_elem pops (page_access_map s) (key_of f)))
       else lookup_elem pops (page_access_map s) (key_of f))"
proof -
  have c: "cpu_current c = current" "cpu_folio c = f"
    using assms(1) by (simp_all add: race_inv_def enter_probe_def Let_def)
  have K: "increments (tracked_pid qops s) [c] = (if tracked_pid qops s (tgid_of current) then 1 else 0)"
    by (simp add: increments_def c assms(2))
  note inv = assms(1) [unfolded race_inv_def Let_def prod.case K]
  show "lookup_elem pops (page_access_map s') k = lookup_elem pops (page_access_map s) k" if "k \<noteq> key_of f"
    using inv that by (simp add: enter_probe_def)
  show "pid_map s' = pid_map s" "trace_pipe s' = trace_pipe s" using inv by simp_all
  have "counter_in c0 1 x \<longleftrightarrow> x = Some (c0 + 1)" "counter_in c0 0 x \<longleftrightarrow> x = Some c0" for x
    by (auto simp: counter_in_def le_Suc_eq)
  then show "lookup_elem cops (static_counter s') 0 = Some (if tracked_pid qops s (tgid_of current) then c0 + 1 else c0)"
    using inv by presburger
  show "lookup_elem pops (page_access_map s') (key_of f) =
      (if tracked_pid qops s (tgid_of current)
       then Some (touched current f c0 (lookup_elem pops (page_access_map s) (key_of f)))
       else lookup_elem pops (page_access_map s) (key_of f))"
    using inv by (simp add: c assms(2) split: if_splits)
qed

context page_tracker
begin

lemma hit_alone:
  assumes ok: "maps_ok pinv cinv qinv s"
    and room: "lookup_elem pops (page_access_map s) (key_of f) \<noteq> None
      \<or> card (dom (lookup_elem pops (page_access_map s))) < page_access_max_entries"
    and "race pops cops qops (s, [enter_probe current f]) (s', [c])" and "cpu_pc c = Done"
  shows "lookup_elem pops (page_access_map s') = lookup_elem pops (page_access_map (fst (folio_mark_accessed pops cops qops current f s))) \<and>
    lookup_elem cops (static_counter s') 0 = lookup_elem cops (static_counter (fst (folio_mark_accessed pops cops qops current f s))) 0 \<and>
    pid_map s' = pid_map (fst (folio_mark_accessed pops cops qops current f s)) \<and>
    trace_pipe s' = trace_pipe (fst (folio_mark_accessed pops cops qops current f s))"
proof -
  have i: "pinv (page_access_map s)" "cinv (static_counter s)" using ok by (simp_all add: maps_ok_def)
  obtain c0 where c0: "lookup_elem cops (static_counter s) 0 = Some c0" using counter_present [OF i(2)] .
  have "card (dom (lookup_elem pops (page_access_map s)) \<union> cpu_key ` set [enter_probe current f]) \<le> page_access_max_entries"
    using room page.finite_dom [OF i(1)] page.capacity [OF i(1)] by (auto simp: enter_probe_def card_insert_if insert_absorb domI)
  then have "race_inv pops pinv cops cinv qops qinv c0 s [enter_probe current f] (s', [c])"
    by (intro race_keeps_inv [OF assms(3) ok c0]) (simp_all add: enter_probe_def)
  note alone = race_inv_alone [OF this assms(4)]
  show ?thesis
  proof (cases "lookup_elem qops (pid_map s) (tgid_of current)")
    case None
    then have "fst (folio_mark_accessed pops cops qops current f s) = s" by (simp add: mark_untracked)
    moreover have "lookup_elem pops (page_access_map s') k = lookup_elem pops (page_access_map s) k" for k
      using alone(1,5) None by (cases "k = key_of f") (simp_all add: tracked_pid_def)
    ultimately show ?thesis using alone(2-4) None by (simp add: tracked_pid_def c0 fun_eq_iff)
  next
    case (Some v)
    then have t: "lookup_elem qops (pid_map s) (tgid_of current) \<noteq> None" by simp
    have "lookup_elem pops (page_access_map s') = (lookup_elem pops (page_access_map s))
        (key_of f \<mapsto> touched current f c0 (lookup_elem pops (page_access_map s) (key_of f)))"
      using alone(1,5) t by (auto simp: tracked_pid_def fun_eq_iff)
    then show ?thesis
      using alone(2,3,4) t mark_pages [OF ok t c0] mark_counter [OF ok t c0] room by (simp add: tracked_pid_def)
  qed
qed

text \<open>
  One event, with its hit in single steps, keeps the simulation: what the maps hold after the steps is
  what \<open>step_tracks\<close> shows of the event.
\<close>

lemma hit_tracks:
  assumes "maps_ok pinv cinv qinv s" "tracks pops cops qops s a"
    and "card (dom (sp_pages a) \<union> {key_of f}) \<le> page_access_max_entries" "card (sp_tracked a) \<le> pid_map_max_entries"
    and "race pops cops qops (s, [enter_probe current f]) (s', [c])" "cpu_pc c = Done"
  shows "maps_ok pinv cinv qinv s' \<and> tracks pops cops qops s' (spec_step (Mark_accessed current f) a)"
proof
  have "race_ok pops pinv cinv qinv (s, [enter_probe current f])" using assms(1) by (simp add: race_ok_def enter_probe_def)
  from race_keeps_ok [OF assms(5) this] show "maps_ok pinv cinv qinv s'" by (simp add: race_ok_def)
  have i: "pinv (page_access_map s)" using assms(1) by (simp add: maps_ok_def)
  have "dom (lookup_elem pops (page_access_map s)) = dom (sp_pages a)" using assms(2) by (auto simp: tracks_def)
  then have room: "lookup_elem pops (page_access_map s) (key_of f) \<noteq> None
      \<or> card (dom (lookup_elem pops (page_access_map s))) < page_access_max_entries"
    using assms(3) by (intro page.fits_room [OF i]) simp
  have "tracks pops cops qops (page_step pops cops qops (Mark_accessed current f) s) (spec_step (Mark_accessed current f) a)"
    using assms(3,4) by (intro step_tracks [OF assms(1,2), THEN conjunct2]) simp_all
  then show "tracks pops cops qops s' (spec_step (Mark_accessed current f) a)"
    using hit_alone [OF assms(1) room assms(5,6)] by (simp add: tracks_def del: spec_step.simps)
qed

lemma stepwise_tracks:
  assumes "stepwise_run pops cops qops es s s'" "maps_ok pinv cinv qinv s" "tracks pops cops qops s a"
    and "card (dom (sp_pages a) \<union> (\<Union>e \<in> set es. event_keys e)) \<le> page_access_max_entries"
    and "card (sp_tracked a \<union> (\<Union>e \<in> set es. event_pids e)) \<le> pid_map_max_entries"
  shows "maps_ok pinv cinv qinv s' \<and> tracks pops cops qops s' (spec_run es a)"
proof -
  have fin: "finite (dom (sp_pages a))" "finite (sp_tracked a)"
    using assms(2,3) page.finite_dom [of "page_access_map s"] pids.finite_dom [of "pid_map s"]
    by (auto simp: maps_ok_def tracks_def dom_def comp_def)
  have fits: "card (dom (sp_pages (spec_run es a)) \<union> event_keys e) \<le> page_access_max_entries"
      "card (sp_tracked (spec_run es a) \<union> event_pids e) \<le> pid_map_max_entries"
      "card (dom (sp_pages a) \<union> (\<Union>e \<in> set es. event_keys e)) \<le> page_access_max_entries"
      "card (sp_tracked a \<union> (\<Union>e \<in> set es. event_pids e)) \<le> pid_map_max_entries"
    if "card (dom (sp_pages a) \<union> (\<Union>e \<in> set (es @ [e]). event_keys e)) \<le> page_access_max_entries"
      "card (sp_tracked a \<union> (\<Union>e \<in> set (es @ [e]). event_pids e)) \<le> pid_map_max_entries" for es e
    using spec_run_dom [of es a] spec_run_tracked [of es a] fin
    by (auto intro!: order.trans [OF card_mono that(1)] order.trans [OF card_mono that(2)] simp: finite_event_keys finite_event_pids)
  show ?thesis
    using assms
  proof induction
    case (stepwise_hit es s s1 current f s2 c)
    note ok = stepwise_hit.IH [OF stepwise_hit.prems(1,2) fits(3,4) [OF stepwise_hit.prems(3,4)]]
    show ?case
      using hit_tracks [OF ok [THEN conjunct1] ok [THEN conjunct2] _ _ stepwise_hit.hyps(2,3)] fits(1,2) [OF stepwise_hit.prems(3,4)]
      by simp
  next
    case (stepwise_free es s s1 current tmp f)
    note ok = stepwise_free.IH [OF stepwise_free.prems(1,2) fits(3,4) [OF stepwise_free.prems(3,4)]]
    show ?case
      unfolding spec_run_snoc by (rule step_tracks [OF ok [THEN conjunct1] ok [THEN conjunct2] fits(1,2) [OF stepwise_free.prems(3,4)]])
  next
    case (stepwise_add es s s1 pid)
    note ok = stepwise_add.IH [OF stepwise_add.prems(1,2) fits(3,4) [OF stepwise_add.prems(3,4)]]
    show ?case
      unfolding spec_run_snoc by (rule step_tracks [OF ok [THEN conjunct1] ok [THEN conjunct2] fits(1,2) [OF stepwise_add.prems(3,4)]])
  qed simp
qed

lemma stepwise_exists:
  assumes "maps_ok pinv cinv qinv s"
  shows "\<exists>s'. stepwise_run pops cops qops es s s' \<and> maps_ok pinv cinv qinv s'"
proof (induction es rule: rev_induct)
  case (snoc e es)
  then obtain s1 where s1: "stepwise_run pops cops qops es s s1" "maps_ok pinv cinv qinv s1" by blast
  show ?case
  proof (cases e)
    case (Mark_accessed current f)
    let ?cs = "[enter_probe current f]"
    have ok: "race_ok pops pinv cinv qinv (s1, ?cs)" using s1(2) by (simp add: race_ok_def enter_probe_def)
    then obtain s2 cs where run: "race pops cops qops (s1, ?cs) (s2, cs)" "\<forall>c \<in> set cs. cpu_pc c = Done"
      using race_completes by blast
    have "length cs = 1" using race_same_length [OF run(1)] by simp
    then obtain c where c: "cs = [c]" by (auto simp: length_Suc_conv)
    have "maps_ok pinv cinv qinv s2" using race_keeps_ok [OF run(1) ok] by (simp add: race_ok_def)
    with run s1(1) c show ?thesis unfolding Mark_accessed by (metis list.set_intros(1) stepwise_hit)
  next
    case (Free_folio current tmp f)
    with s1 free_effect [OF s1(2)] show ?thesis using stepwise_free [OF s1(1)] by fastforce
  next
    case (Add_pid pid)
    have "maps_ok pinv cinv qinv (page_step pops cops qops (Add_pid pid) s1)"
      using s1(2) pids.inv_update_fst by (simp add: maps_ok_def)
    with Add_pid show ?thesis using stepwise_add [OF s1(1)] by fast
  qed
qed (use assms no_event in blast)

end

section \<open>Properties\<close>

abbreviation is_tracked :: "'p pid_map_ops \<Rightarrow> ('a, 'c, 'p) kprobe_maps \<Rightarrow> cpu_hit \<Rightarrow> bool" where
  "is_tracked qops s c \<equiv> tracked_pid qops s (cpu_pid c)"

text \<open>
  C5. Concurrent hits on different pages, in any interleaving of their loads and stores: once all are done, every page
  hit by a tracked process has exactly one hit more than before, the folio's page count and the
  process, and a rank that lies above the old counter by at most the number of tracked hits; every
  other page is as it was, and the counter has moved by at least one and at most that number. Only
  the counter is shared, so only ranks can collide (some increments may be lost).\<close>

theorem concurrent_hits_counted:
  assumes "page_tracker pops pinv cops cinv qops qinv" and "maps_ok pinv cinv qinv s"
    and "lookup_elem cops (static_counter s) 0 = Some c0"
    and "distinct (map cpu_key cs)" and "\<forall>c \<in> set cs. cpu_pc c = Check_pid"
    and "card (dom (lookup_elem pops (page_access_map s)) \<union> cpu_key ` set cs) \<le> page_access_max_entries"
    and "race pops cops qops (s, cs) (s', cs')" and "\<forall>c \<in> set cs'. cpu_pc c = Done"
    and "N = length (filter (is_tracked qops s) cs)"
  shows "(\<forall>c \<in> set cs. if is_tracked qops s c
      then \<exists>j < N. lookup_elem pops (page_access_map s') (cpu_key c) =
        Some (touched (cpu_current c) (cpu_folio c) (c0 + of_nat j) (lookup_elem pops (page_access_map s) (cpu_key c)))
      else lookup_elem pops (page_access_map s') (cpu_key c) = lookup_elem pops (page_access_map s) (cpu_key c)) \<and>
    (\<forall>k. k \<notin> cpu_key ` set cs \<longrightarrow> lookup_elem pops (page_access_map s') k = lookup_elem pops (page_access_map s) k) \<and>
    (\<exists>j \<le> N. lookup_elem cops (static_counter s') 0 = Some (c0 + of_nat j) \<and> (0 < N \<longrightarrow> 0 < j))"
proof (intro conjI ballI)
  let ?tr = "tracked_pid qops s" and ?cf = "\<lambda>c. (cpu_current c, cpu_folio c)"
  have inv: "race_inv pops pinv cops cinv qops qinv c0 s cs (s', cs')"
    by (rule page_tracker.race_keeps_inv [OF assms(1,7,2,3,4,5,6)])
  then have cf: "map ?cf cs' = map ?cf cs" by (simp add: race_inv_def Let_def)
  have "increments ?tr cs' = length (filter (\<lambda>(cur, f). ?tr (tgid_of cur)) (map ?cf cs'))"
    using assms(8) by (simp add: increments_def filter_map comp_def cong: filter_cong)
  then have N: "increments ?tr cs' = N" unfolding cf assms(9) by (simp add: filter_map comp_def)
  show "\<exists>j \<le> N. lookup_elem cops (static_counter s') 0 = Some (c0 + of_nat j) \<and> (0 < N \<longrightarrow> 0 < j)"
    using inv by (simp add: race_inv_def Let_def N counter_in_def)
  show "\<forall>k. k \<notin> cpu_key ` set cs \<longrightarrow> lookup_elem pops (page_access_map s') k = lookup_elem pops (page_access_map s) k"
    using inv by (simp add: race_inv_def Let_def)
  fix c assume "c \<in> set cs"
  then have "?cf c \<in> set (map ?cf cs')" unfolding cf by simp
  then obtain c' where "c' \<in> set cs'" "cpu_current c' = cpu_current c" "cpu_folio c' = cpu_folio c" by auto
  then show "if is_tracked qops s c
      then \<exists>j < N. lookup_elem pops (page_access_map s') (cpu_key c) =
        Some (touched (cpu_current c) (cpu_folio c) (c0 + of_nat j) (lookup_elem pops (page_access_map s) (cpu_key c)))
      else lookup_elem pops (page_access_map s') (cpu_key c) = lookup_elem pops (page_access_map s) (cpu_key c)"
    using inv assms(8) by (auto simp: race_inv_def Let_def N dest!: bspec [of "set cs'" _ c'] split: if_splits)
qed

text \<open>Two CPUs for the witnesses: page \<open>page_a\<close> is known, \<open>page_b\<close> is not.\<close>

definition race_maps :: "((page_key \<times> metric) list, u64 list, (s32 \<times> u8) list) kprobe_maps" where
  "race_maps = \<lparr>page_access_map = [(key_of page_a, \<lparr>m_ref_count = 1, m_rank = 5, m_page_count = 1, m_pid = 7\<rparr>)],
     static_counter = [5], pid_map = [(7, 1)], trace_pipe = []\<rparr>"

definition two_hits :: "folio \<Rightarrow> folio \<Rightarrow> cpu_hit list" where
  "two_hits f g = [enter_probe (pid_tgid 7 7) f, enter_probe (pid_tgid 7 8) g]"

text \<open>
  Two schedules: the CPUs alternate; and the first one is interrupted, right after it has loaded the counter, by
  a whole hit of the other.
\<close>

definition in_step :: "nat list" where
  "in_step = [0, 1, 0, 1, 0, 1, 0, 1, 0, 1, 0, 1, 0, 1, 0, 1, 0, 1, 0, 1, 0, 1, 0, 1]"

definition interrupted :: "nat list" where
  "interrupted = [0, 0, 0, 0, 0, 0, 1, 1, 1, 1, 1, 1, 1, 0, 0, 0, 0, 0, 0]"

lemma race_maps_ok: "maps_ok alist_pages_inv one_counter alist_pids_inv race_maps"
  by (simp add: race_maps_def maps_ok_def alist_inv_def)

lemma demo_words: "key_of page_a \<noteq> key_of page_b" "key_of page_b \<noteq> key_of page_a" "f_nr_pages page_a = 1" "f_nr_pages page_b = 4"
  by (simp add: key_of_pages, simp add: key_of_pages, simp_all add: page_a_def page_b_def)

lemma interrupted_hit:
  "run_schedule alist_pages array_ops alist_pids interrupted (race_maps, two_hits page_a page_b) =
    (race_maps\<lparr>page_access_map := [(key_of page_a, \<lparr>m_ref_count = 2, m_rank = 6, m_page_count = 1, m_pid = 7\<rparr>),
       (key_of page_b, \<lparr>m_ref_count = 1, m_rank = 6, m_page_count = 4, m_pid = 7\<rparr>)], static_counter := [6]\<rparr>,
     map (\<lambda>c. c\<lparr>cpu_pc := Done\<rparr>) (two_hits page_a page_b))"
  by (simp add: interrupted_def two_hits_def enter_probe_def race_maps_def demo_words alist_update_def)

lemma in_step_same:
  "run_schedule alist_pages array_ops alist_pids in_step (race_maps, two_hits page_a page_a) =
    (race_maps\<lparr>page_access_map := [(key_of page_a, \<lparr>m_ref_count = 2, m_rank = 6, m_page_count = 1, m_pid = 7\<rparr>)],
       static_counter := [6]\<rparr>,
     map (\<lambda>c. c\<lparr>cpu_pc := Done\<rparr>) (two_hits page_a page_a))"
  by (simp add: in_step_def two_hits_def enter_probe_def race_maps_def demo_words alist_update_def)

theorem concurrent_hits_counted_witness:
  "\<exists>s' cs'. run_schedule alist_pages array_ops alist_pids interrupted (race_maps, two_hits page_a page_b) = (s', cs') \<and>
    (\<forall>c \<in> set (two_hits page_a page_b). \<exists>j < 2. map_of (page_access_map s') (cpu_key c) =
       Some (touched (cpu_current c) (cpu_folio c) (5 + of_nat j) (map_of (page_access_map race_maps) (cpu_key c)))) \<and>
    (\<exists>j \<le> 2. static_counter s' ! 0 = 5 + of_nat j \<and> 0 < j)"
proof -
  let ?cs = "two_hits page_a page_b"
  obtain s' cs' where r: "run_schedule alist_pages array_ops alist_pids interrupted (race_maps, ?cs) = (s', cs')" by fastforce
  have cs': "cs' = map (\<lambda>c. c\<lparr>cpu_pc := Done\<rparr>) ?cs" "length (static_counter s') = 1"
    using r unfolding interrupted_hit by auto
  have race: "race alist_pages array_ops alist_pids (race_maps, ?cs) (s', cs')"
    using schedule_is_race [of alist_pages array_ops alist_pids "(race_maps, ?cs)" interrupted] by (simp add: r)
  have tr: "\<forall>c \<in> set ?cs. is_tracked alist_pids race_maps c" by (simp add: two_hits_def enter_probe_def tracked_pid_def race_maps_def)
  have "card (dom (map_of (page_access_map race_maps)) \<union> cpu_key ` set ?cs) \<le> page_access_max_entries"
    by (simp add: race_maps_def two_hits_def enter_probe_def card_insert_if)
  then have "(\<forall>c \<in> set ?cs. if is_tracked alist_pids race_maps c
      then \<exists>j < 2. map_of (page_access_map s') (cpu_key c) =
        Some (touched (cpu_current c) (cpu_folio c) (5 + of_nat j) (map_of (page_access_map race_maps) (cpu_key c)))
      else map_of (page_access_map s') (cpu_key c) = map_of (page_access_map race_maps) (cpu_key c)) \<and>
    (\<exists>j \<le> 2. lookup_elem array_ops (static_counter s') 0 = Some (5 + of_nat j) \<and> (0 < (2 :: nat) \<longrightarrow> 0 < j))"
    using concurrent_hits_counted [OF kprobe_on_alists race_maps_ok _ _ _ _ race, of 5 2] tr cs'
    by (simp add: race_maps_def two_hits_def enter_probe_def demo_words tracked_pid_def)
  then show ?thesis using r tr cs'(2) by (auto split: if_splits)
qed

text \<open>
  C6. Hits are wait-free. Take any number of CPUs that enter the probe, on the same or on different pages, and
  any schedule of their single steps. Whatever has happened so far, every further schedule can be
  carried out, so that no hit ever waits for another one; and a CPU that has had twelve turns
  is done with its hit, however many turns the others have had and wherever they are. (Twelve is the number
  of loads, stores and map calls on the longest path through the probe.)\<close>

theorem concurrent_hits_finish:
  assumes "page_tracker pops pinv cops cinv qops qinv" and "maps_ok pinv cinv qinv s"
    and "\<forall>c \<in> set cs. cpu_pc c = Check_pid" and "race_turns pops cops qops is (s, cs) (s', cs')"
  shows "(\<forall>js. set js \<subseteq> {..<length cs} \<longrightarrow> (\<exists>y. race_turns pops cops qops js (s', cs') y)) \<and>
    (\<forall>i < length cs. 12 \<le> count_list is i \<longrightarrow> cpu_pc (cs' ! i) = Done)"
proof (intro conjI allI impI)
  have run: "race pops cops qops (s, cs) (s', cs')" using assms(4) turns_iff_race by blast
  moreover have "race_ok pops pinv cinv qinv (s, cs)" using assms(2,3) by (simp add: race_ok_def)
  ultimately have ok: "race_ok pops pinv cinv qinv (s', cs')" by (rule page_tracker.race_keeps_ok [OF assms(1)])
  show "\<exists>y. race_turns pops cops qops js (s', cs') y" if "set js \<subseteq> {..<length cs}" for js
    using page_tracker.turns_possible [OF assms(1) ok] race_same_length [OF run] that by simp
  fix i assume "i < length cs" "12 \<le> count_list is i"
  then have "steps_left (cpu_pc (cs' ! i)) = 0"
    using turns_left [OF assms(4), of i] assms(3) by simp
  then show "cpu_pc (cs' ! i) = Done" by (cases "cpu_pc (cs' ! i)") simp_all
qed

theorem concurrent_hits_finish_witness:
  "\<exists>s' cs'. race_turns alist_pages array_ops alist_pids in_step (race_maps, two_hits page_a page_a) (s', cs') \<and>
    cpu_pc (cs' ! 0) = Done \<and> cpu_pc (cs' ! 1) = Done"
proof -
  let ?cs = "two_hits page_a page_a"
  have start: "\<forall>c \<in> set ?cs. cpu_pc c = Check_pid" "length ?cs = 2" "set in_step \<subseteq> {..<length ?cs}"
      "count_list in_step 0 = 12" "count_list in_step 1 = 12"
    by (simp_all add: two_hits_def enter_probe_def in_step_def)
  note fin = concurrent_hits_finish [OF kprobe_on_alists race_maps_ok start(1)]
  obtain s' cs' where run: "race_turns alist_pages array_ops alist_pids in_step (race_maps, ?cs) (s', cs')"
    using fin [OF turns_over] start(3) by (metis surj_pair)
  have "12 \<le> count_list in_step i \<longrightarrow> cpu_pc (cs' ! i) = Done" if "i < 2" for i using fin [OF run] that by (simp add: start)
  from this [of 0] this [of 1] have "cpu_pc (cs' ! 0) = Done \<and> cpu_pc (cs' ! 1) = Done" unfolding start by simp
  with run show ?thesis by blast
qed

text \<open>
  C16. The probe, step by step, implements the abstract access statistics: take any sequence of hits, page frees and
  process additions in which the hits run their loads, stores and map calls one after the other, not
  overlapping. Every such execution ends with every hit done, and leaves maps that
  hold the abstract statistics of the sequence (hit counts, last-hit times, sizes, processes),
  whichever way the compiler reads the rank, as long as pages and processes fit in the maps.\<close>

theorem stepwise_refines_spec:
  assumes "page_tracker pops pinv cops cinv qops qinv"
    and "maps_ok pinv cinv qinv s" and "tracks pops cops qops s a"
    and "card (dom (sp_pages a) \<union> (\<Union>e \<in> set es. event_keys e)) \<le> page_access_max_entries"
    and "card (sp_tracked a \<union> (\<Union>e \<in> set es. event_pids e)) \<le> pid_map_max_entries"
  shows "(\<exists>s'. stepwise_run pops cops qops es s s') \<and>
    (\<forall>s'. stepwise_run pops cops qops es s s' \<longrightarrow>
       maps_ok pinv cinv qinv s' \<and> tracks pops cops qops s' (spec_run es a))"
  using page_tracker.stepwise_tracks [OF assms(1) _ assms(2-5)] page_tracker.stepwise_exists [OF assms(1,2)] by blast

theorem stepwise_refines_spec_witness:
  "\<exists>s'. stepwise_run alist_pages array_ops alist_pids demo_events alist_fresh s' \<and>
    tracks alist_pages array_ops alist_pids s' (spec_run demo_events spec_init)"
  using stepwise_refines_spec [OF kprobe_on_alists alist_fresh_ok alist_fresh_tracks, of demo_events]
  by (auto simp: spec_init_def demo_keys demo_pids)

text \<open>
  C35. Hits can be lost. Two tracked processes hit the same page at the same time: both hits complete, and the page's hit
  count and the counter have gone up by one only. Two that hit different pages can end up with the
  same rank, and the counter counts them once; hits one after the other would count both.\<close>

theorem concurrent_hits_lost:
  "(\<exists>s' cs'. race alist_pages array_ops alist_pids (race_maps, two_hits page_a page_a) (s', cs') \<and>
      map cpu_pc cs' = [Done, Done] \<and> static_counter s' = [6] \<and>
      map_option m_ref_count (map_of (page_access_map s') (key_of page_a)) = Some 2) \<and>
   (\<exists>s' cs'. race alist_pages array_ops alist_pids (race_maps, two_hits page_a page_b) (s', cs') \<and>
      map cpu_pc cs' = [Done, Done] \<and> static_counter s' = [6] \<and>
      map_option m_rank (map_of (page_access_map s') (key_of page_a)) = Some 6 \<and>
      map_option m_rank (map_of (page_access_map s') (key_of page_b)) = Some 6) \<and>
   (let s = page_run alist_pages array_ops alist_pids
       [Mark_accessed (pid_tgid 7 7) page_a, Mark_accessed (pid_tgid 7 8) page_a] race_maps in
    static_counter s = [7] \<and> map_option m_ref_count (map_of (page_access_map s) (key_of page_a)) = Some 3)"
proof (intro conjI)
  note same = schedule_is_race [of alist_pages array_ops alist_pids "(race_maps, two_hits page_a page_a)" in_step]
  then show "\<exists>s' cs'. race alist_pages array_ops alist_pids (race_maps, two_hits page_a page_a) (s', cs') \<and>
      map cpu_pc cs' = [Done, Done] \<and> static_counter s' = [6] \<and>
      map_option m_ref_count (map_of (page_access_map s') (key_of page_a)) = Some 2"
    unfolding in_step_same by (intro exI conjI) (assumption, auto simp: two_hits_def)
  note different = schedule_is_race [of alist_pages array_ops alist_pids "(race_maps, two_hits page_a page_b)" interrupted]
  then show "\<exists>s' cs'. race alist_pages array_ops alist_pids (race_maps, two_hits page_a page_b) (s', cs') \<and>
      map cpu_pc cs' = [Done, Done] \<and> static_counter s' = [6] \<and>
      map_option m_rank (map_of (page_access_map s') (key_of page_a)) = Some 6 \<and>
      map_option m_rank (map_of (page_access_map s') (key_of page_b)) = Some 6"
    unfolding interrupted_hit by (intro exI conjI) (assumption, auto simp: demo_words two_hits_def)
  show "let s = page_run alist_pages array_ops alist_pids
       [Mark_accessed (pid_tgid 7 7) page_a, Mark_accessed (pid_tgid 7 8) page_a] race_maps in
    static_counter s = [7] \<and> map_option m_ref_count (map_of (page_access_map s) (key_of page_a)) = Some 3"
    by (simp add: page_run_def folio_mark_accessed_def race_maps_def Let_def key_of_def alist_update_def)
qed

end
