(* ===== verification/C_Text.thy ===== *)
theory C_Text
  imports Prelude
begin

text \<open>
  The text functions of the C library that the programs use: reading integers (\<^verbatim>\<open>strtol\<close>,
  \<^verbatim>\<open>atoi\<close>, \<^verbatim>\<open>sscanf("%d")\<close>), reading lines (\<^verbatim>\<open>fgets\<close>) and bounded printing (\<^verbatim>\<open>snprintf\<close>).
  A C string is the list of its characters before the terminating NUL. The lemmas are the
  round trips with the decimal rendering of \<open>Prelude\<close> and the law that lets a file be read
  in pieces.
\<close>

section \<open>Reading integers\<close>

abbreviation newline :: char where "newline \<equiv> CHR 0x0A"

definition isspace :: "char \<Rightarrow> bool" where
  "isspace c \<longleftrightarrow> c = CHR '' '' \<or> (9 \<le> (of_char c :: nat) \<and> (of_char c :: nat) \<le> 13)"

definition isdigit :: "char \<Rightarrow> bool" where
  "isdigit c \<longleftrightarrow> 48 \<le> (of_char c :: nat) \<and> (of_char c :: nat) \<le> 57"

text \<open>The common core: white space, an optional sign, at least one digit.\<close>

definition parse_int :: "string \<Rightarrow> (int \<times> string) option" where
  "parse_int s =
    (let s1 = dropWhile isspace s;
         neg = (s1 \<noteq> [] \<and> hd s1 = CHR ''-'');
         s2 = (if s1 \<noteq> [] \<and> hd s1 \<in> {CHR ''-'', CHR ''+''} then tl s1 else s1);
         ds = takeWhile isdigit s2
     in if ds = [] then None
        else Some (if neg then - int (of_base 10 ds) else int (of_base 10 ds), dropWhile isdigit s2))"

abbreviation LONG_MAX :: int where "LONG_MAX \<equiv> 2 ^ 63 - 1"
abbreviation LONG_MIN :: int where "LONG_MIN \<equiv> - (2 ^ 63)"

text \<open>\<^verbatim>\<open>strtol(s, NULL, 10)\<close> and whether it sets \<^verbatim>\<open>errno\<close> (to \<^verbatim>\<open>ERANGE\<close>).\<close>

definition strtol10 :: "string \<Rightarrow> int \<times> bool" where
  "strtol10 s =
    (case parse_int s of
       None \<Rightarrow> (0, False)
     | Some (v, _) \<Rightarrow>
         if v > LONG_MAX then (LONG_MAX, True)
         else if v < LONG_MIN then (LONG_MIN, True) else (v, False))"

text \<open>\<^verbatim>\<open>atoi(s)\<close> is \<^verbatim>\<open>(int)strtol(s, NULL, 10)\<close>.\<close>

definition atoi :: "string \<Rightarrow> int" where
  "atoi s = sint (word_of_int (fst (strtol10 s)) :: s32)"

text \<open>
  \<^verbatim>\<open>sscanf(s, "%d", &i)\<close>: the value stored in the 32-bit \<open>i\<close>, or None when the call does not
  return 1. A number that does not fit is cut to 32 bits, as glibc does.
\<close>

definition sscanf_d :: "string \<Rightarrow> s32 option" where
  "sscanf_d s = map_option (\<lambda>(v, _). word_of_int v) (parse_int s)"

lemma isdigit_digit_char: "d < 10 \<Longrightarrow> isdigit (digit_char d)"
proof -
  assume "d < 10"
  then have "d \<in> set [0..<10]" by simp
  also have "[0..<10] = [0, 1, 2, 3, 4, 5, 6, 7, 8, 9 :: nat]" by (simp add: upt_rec)
  finally show ?thesis by (auto simp: isdigit_def digit_char_def digits16_def)
qed

lemma to_base10_digits: "c \<in> set (to_base 10 n) \<Longrightarrow> isdigit c"
proof (induction "10 :: nat" n rule: to_base.induct)
  case (1 n)
  show ?case
  proof (cases "n < 10")
    case True
    with "1.prems" show ?thesis by (simp add: to_base.simps [of 10 n] isdigit_digit_char)
  next
    case False
    with "1" show ?thesis
      by (auto simp: to_base.simps [of 10 n] isdigit_digit_char)
  qed
qed

lemma digit_not_special: "isdigit c \<Longrightarrow> \<not> isspace c \<and> c \<noteq> CHR ''-'' \<and> c \<noteq> CHR ''+''"
  by (auto simp: isdigit_def isspace_def)

lemma takeWhile_digits:
  assumes "rest = [] \<or> \<not> isdigit (hd rest)"
  shows "takeWhile isdigit (to_base 10 n @ rest) = to_base 10 n"
    and "dropWhile isdigit (to_base 10 n @ rest) = rest"
  using assms to_base10_digits [of _ n]
  by (cases rest; simp add: takeWhile_append dropWhile_append)+

lemma to_base10_Cons: "\<exists>c cs. to_base 10 n = c # cs \<and> isdigit c"
  using to_base10_digits [of _ n] by (cases "to_base 10 n") auto

text \<open>What \<^verbatim>\<open>%d\<close> has printed, \<open>parse_int\<close> reads back.\<close>

lemma parse_int_dec_int:
  assumes "rest = [] \<or> \<not> isdigit (hd rest)"
  shows "parse_int (dec_int i @ rest) = Some (i, rest)"
proof (cases "i < 0")
  case True
  then have "dec_int i @ rest = CHR ''-'' # (to_base 10 (nat (- i)) @ rest)"
    by (simp add: dec_int_def)
  moreover have "\<not> isspace (CHR ''-'')" by (simp add: isspace_def)
  ultimately show ?thesis
    using True by (simp add: parse_int_def Let_def takeWhile_digits [OF assms] of_base_to_base)
next
  case False
  then have d: "dec_int i @ rest = to_base 10 (nat i) @ rest" by (simp add: dec_int_def)
  obtain c cs where c: "to_base 10 (nat i) = c # cs" "isdigit c"
    using to_base10_Cons by blast
  have "dropWhile isspace (to_base 10 (nat i) @ rest) = to_base 10 (nat i) @ rest"
    using c digit_not_special by simp
  moreover have "hd (to_base 10 (nat i) @ rest) \<notin> {CHR ''-'', CHR ''+''}"
    using c digit_not_special by auto
  ultimately show ?thesis
    using False
    by (simp add: d parse_int_def Let_def takeWhile_digits [OF assms] of_base_to_base)
qed

lemma strtol10_dec_int: "LONG_MIN \<le> i \<Longrightarrow> i \<le> LONG_MAX \<Longrightarrow> strtol10 (dec_int i) = (i, False)"
  using parse_int_dec_int [of "[]" i] by (simp add: strtol10_def)

lemma sscanf_d_dec_int: "sscanf_d (dec_int (sint (p :: s32)) @ [newline]) = Some p"
  using parse_int_dec_int [of "[newline]" "sint p"] by (simp add: sscanf_d_def isdigit_def)

section \<open>Reading lines\<close>

text \<open>
  One call of \<^verbatim>\<open>fgets(line, n + 1, f)\<close> on the rest \<open>s\<close> of the file: at most \<open>n\<close> characters,
  up to and including a newline; and all the calls until the end of the file.
\<close>

fun fgets :: "nat \<Rightarrow> string \<Rightarrow> string \<times> string" where
  "fgets 0 s = ([], s)"
| "fgets (Suc n) [] = ([], [])"
| "fgets (Suc n) (c # cs) =
     (if c = newline then ([c], cs) else (c # fst (fgets n cs), snd (fgets n cs)))"

lemma fgets_length: "length (snd (fgets n s)) \<le> length s"
  by (induction n s rule: fgets.induct) auto

function fgets_all :: "nat \<Rightarrow> string \<Rightarrow> string list" where
  "fgets_all n s =
     (if n = 0 \<or> s = [] then [] else fst (fgets n s) # fgets_all n (snd (fgets n s)))"
  by pat_completeness auto
termination
proof (relation "measure (length \<circ> snd)", simp)
  fix n :: nat and s :: string
  assume "\<not> (n = 0 \<or> s = [])"
  then obtain m c cs where "n = Suc m" "s = c # cs"
    by (cases n; cases s) auto
  then show "((n, snd (fgets n s)), n, s) \<in> measure (length \<circ> snd)"
    using fgets_length [of m cs] by simp
qed

declare fgets_all.simps [simp del]

lemma fgets_all_Nil [simp]: "fgets_all n [] = []"
  and fgets_all_0 [simp]: "fgets_all 0 s = []"
  by (simp_all add: fgets_all.simps)

text \<open>A text that ends with a newline is read the same, whatever follows it.\<close>

lemma fgets_append:
  "xs \<noteq> [] \<Longrightarrow> last xs = newline \<Longrightarrow>
   fgets n (xs @ ys) = (fst (fgets n xs), snd (fgets n xs) @ ys) \<and>
   (snd (fgets n xs) = [] \<or> last (snd (fgets n xs)) = newline)"
proof (induction n xs rule: fgets.induct)
  case (3 n c cs)
  then show ?case by (cases "cs = []") auto
qed auto

lemma fgets_all_append:
  assumes "xs = [] \<or> last xs = newline"
  shows "fgets_all n (xs @ ys) = fgets_all n xs @ fgets_all n ys"
  using assms
proof (induction n xs rule: fgets_all.induct)
  case (1 n xs)
  show ?case
  proof (cases "n = 0 \<or> xs = []")
    case True
    then show ?thesis by (cases "n = 0") simp_all
  next
    case False
    with "1.prems" have a: "fgets n (xs @ ys) = (fst (fgets n xs), snd (fgets n xs) @ ys)"
        "snd (fgets n xs) = [] \<or> last (snd (fgets n xs)) = newline"
      using fgets_append [of xs n ys] by auto
    with False "1.IH" show ?thesis
      by (simp add: fgets_all.simps [of n "xs @ ys"] fgets_all.simps [of n xs])
  qed
qed

lemma fgets_rest: "newline \<notin> set l \<Longrightarrow> length l \<le> n \<Longrightarrow> fgets n l = (l, [])"
proof (induction l arbitrary: n)
  case Nil
  show ?case by (cases n) auto
next
  case (Cons c l)
  then show ?case by (cases n) auto
qed

lemma fgets_line: "newline \<notin> set l \<Longrightarrow> length l < n \<Longrightarrow> fgets n (l @ newline # r) = (l @ [newline], r)"
proof (induction l arbitrary: n)
  case Nil
  then show ?case by (cases n) auto
next
  case (Cons c l)
  then show ?case by (cases n) auto
qed

section \<open>Bounded printing\<close>

text \<open>\<^verbatim>\<open>snprintf(dst, sz, ...)\<close> keeps at most \<open>sz - 1\<close> characters.\<close>

definition snprintf :: "nat \<Rightarrow> string \<Rightarrow> string" where
  "snprintf sz s = take (sz - 1) s"

lemma snprintf_fits [simp]: "length s < sz \<Longrightarrow> snprintf sz s = s"
  by (simp add: snprintf_def)

lemma snprintf_bound: "0 < sz \<Longrightarrow> length (snprintf sz s) < sz"
  by (auto simp: snprintf_def min_def)

text \<open>The decimal text of a 32-bit \<^verbatim>\<open>int\<close> has at most ten digits and a sign.\<close>

lemma length_dec_int_nonneg: "0 \<le> i \<Longrightarrow> i < 2 ^ 31 \<Longrightarrow> length (dec_int i) \<le> 10"
  using length_to_base [of 10 10 "nat i"] by (simp add: dec_int_def)

lemma length_dec_int: "- (2 ^ 31) \<le> i \<Longrightarrow> i < 2 ^ 31 \<Longrightarrow> length (dec_int i) \<le> 11"
proof (cases "i < 0")
  case True
  moreover assume "- (2 ^ 31) \<le> i"
  ultimately show ?thesis using length_to_base [of 10 10 "nat (- i)"] by (simp add: dec_int_def)
next
  case False
  moreover assume "i < 2 ^ 31"
  ultimately show ?thesis using length_dec_int_nonneg [of i] by simp
qed

lemma dec_int_inj: "dec_int i = dec_int j \<longleftrightarrow> i = j"
proof
  assume "dec_int i = dec_int j"
  then have "parse_int (dec_int i @ []) = parse_int (dec_int j @ [])" by simp
  then show "i = j" by (simp only: parse_int_dec_int simp_thms option.inject prod.inject)
qed simp

end
