(* ===== verification/App_Lifecycle.thy ===== *)
theory App_Lifecycle
  imports C_Text
begin

text \<open>
  The control flow that the user-space programs share: they acquire kernel and library resources
  one after the other (the BPF skeleton, links, ring buffers, sockets, descriptors, threads), jump
  to a \<^verbatim>\<open>cleanup\<close> label when a step fails, and run a loop until a signal or an error.

  A program's \<^verbatim>\<open>main\<close> is a function from the answers of the environment (which calls fail, with
  which code, what the loop sees) to its run: the trace of what it acquires, uses, releases and
  prints, and how it ends. The ownership automaton \<open>owned\<close> reads such a trace; the locale
  \<open>program\<close> states the discipline a program keeps and derives what it gives: nothing is used or
  released that is not held, and a finished run has released all it acquired exactly once.
\<close>

section \<open>Traces\<close>

datatype res =
    Skel
  | Ring
  | Sock
  | Tc_hook
  | Tc_filter
  | Thread
  | Stream string \<comment> \<open>an open file\<close>
  | Perf_fd nat
  | Link nat
  | Iter_fd
  | Symbolizer
  | Memory string \<comment> \<open>a heap block, named after the variable that holds it\<close>
  | Map_region nat \<comment> \<open>a memory mapping\<close>
  | Mapped_byte nat \<comment> \<open>one byte of a memory mapping\<close>
  | Fd string \<comment> \<open>a descriptor of the file of that name\<close>
  | Disk string \<comment> \<open>a file that the program created\<close>

datatype act =
    Acquire res
  | Release res
  | Use res
  | Peek res string \<comment> \<open>a named part of a held object is read\<close>
  | Put res string \<comment> \<open>text written to a held stream\<close>
  | Poke res string int \<comment> \<open>a named field of a held object is set (\<^verbatim>\<open>skel->bss->my_pid\<close>)\<close>
  | Out string \<comment> \<open>standard output\<close>
  | Err string \<comment> \<open>standard error\<close>

text \<open>
  Fixed messages are named by their leading words, without the line end and without the
  \<^verbatim>\<open>strerror\<close> text that some of them append; output computed from data is given in full.
\<close>

text \<open>
  How a run ends: with the value that \<^verbatim>\<open>main\<close> returns or passes to \<^verbatim>\<open>exit\<close>; with the value of a
  variable that was never assigned; in a call or access whose behaviour is undefined (a null or
  dangling pointer); or not at all within the given environment.
\<close>

datatype outcome = Exit int | Indeterminate | Undefined | Running

type_synonym run = "act list \<times> outcome"

definition emit :: "act list \<Rightarrow> run \<Rightarrow> run" where
  "emit xs r = (xs @ fst r, snd r)"

lemma emit_sel [simp]: "fst (emit xs r) = xs @ fst r" "snd (emit xs r) = snd r"
  by (simp_all add: emit_def)

text \<open>
  The library's destructors (\<^verbatim>\<open>xxx_bpf__destroy\<close>, \<^verbatim>\<open>ring_buffer__free\<close>, \<^verbatim>\<open>bpf_link__destroy\<close>,
  \<^verbatim>\<open>free\<close>) do nothing on a null pointer.
\<close>

definition release_if :: "bool \<Rightarrow> res \<Rightarrow> act list" where
  "release_if b r = (if b then [Release r] else [])"

lemma release_if_simps [simp]: "release_if True r = [Release r]" "release_if False r = []"
  by (simp_all add: release_if_def)

section \<open>Ownership\<close>

fun owned :: "res list \<Rightarrow> act list \<Rightarrow> res list option" where
  "owned H [] = Some H"
| "owned H (Acquire r # xs) = (if r \<in> set H then None else owned (r # H) xs)"
| "owned H (Release r # xs) = (if r \<in> set H then owned (remove1 r H) xs else None)"
| "owned H (Use r # xs) = (if r \<in> set H then owned H xs else None)"
| "owned H (Peek r f # xs) = (if r \<in> set H then owned H xs else None)"
| "owned H (Put r s # xs) = (if r \<in> set H then owned H xs else None)"
| "owned H (Poke r f v # xs) = (if r \<in> set H then owned H xs else None)"
| "owned H (Out s # xs) = owned H xs"
| "owned H (Err s # xs) = owned H xs"

lemma owned_append:
  "owned H (xs @ ys) = (case owned H xs of None \<Rightarrow> None | Some H' \<Rightarrow> owned H' ys)"
  by (induction H xs rule: owned.induct) auto

lemma count_list_remove1:
  "q \<in> set H \<Longrightarrow> count_list H r = count_list (remove1 q H) r + (if q = r then 1 else 0)"
  by (induction H) auto

text \<open>What is held is what was held before, plus what was acquired, minus what was released.\<close>

lemma owned_count:
  "owned H xs = Some H' \<Longrightarrow>
   count_list H r + count_list xs (Acquire r) = count_list H' r + count_list xs (Release r)"
proof (induction H xs rule: owned.induct)
  case (3 H q xs)
  from "3.prems" have q: "q \<in> set H" and o: "owned (remove1 q H) xs = Some H'"
    by (simp_all split: if_splits)
  have "count_list (Release q # xs) (Acquire r) = count_list xs (Acquire r)"
    and "count_list (Release q # xs) (Release r) = count_list xs (Release r) + (if q = r then 1 else 0)"
    by simp_all
  with "3.IH" [OF q o] count_list_remove1 [OF q, of r] show ?case by linarith
qed (simp_all split: if_splits)

lemma owned_distinct: "owned H xs = Some H' \<Longrightarrow> distinct H \<Longrightarrow> distinct H'"
  by (induction H xs rule: owned.induct) (auto split: if_splits)

lemma owned_use_held:
  assumes "owned [] (xs @ Use r # ys) \<noteq> None"
  shows "count_list xs (Acquire r) = Suc (count_list xs (Release r))"
proof -
  obtain H where H: "owned [] xs = Some H" "r \<in> set H"
    using assms by (auto simp: owned_append split: option.splits if_splits)
  have "distinct H" using owned_distinct [OF H(1)] by simp
  with H(2) have "count_list H r = 1" by (induction H) (auto simp: count_list_0_iff)
  with owned_count [OF H(1), of r] show ?thesis by simp
qed

lemma owned_release_all:
  assumes "distinct H" "distinct rs" "set rs = set H"
  shows "owned H (map Release rs) = Some []"
  using assms
proof (induction rs arbitrary: H)
  case (Cons r rs)
  have "owned (remove1 r H) (map Release rs) = Some []"
    using Cons.prems by (intro Cons.IH) (auto simp: distinct_remove1)
  with Cons.prems(3) show ?case by auto
qed simp

text \<open>
  A run that starts with \<open>H\<close> held is clean when it never uses or releases what it does not hold and,
  if it ends, holds nothing.
\<close>

definition clean :: "res list \<Rightarrow> run \<Rightarrow> bool" where
  "clean H r \<longleftrightarrow> owned H (fst r) \<noteq> None \<and> (snd r \<noteq> Running \<longrightarrow> owned H (fst r) = Some [])"

lemma clean_emit [simp]:
  "clean H (emit xs r) = (case owned H xs of None \<Rightarrow> False | Some H' \<Rightarrow> clean H' r)"
  by (simp add: clean_def owned_append split: option.split)

lemma clean_pair [simp]:
  "clean H (xs, Exit n) = (owned H xs = Some [])"
  "clean H (xs, Indeterminate) = (owned H xs = Some [])"
  "clean H (xs, Undefined) = (owned H xs = Some [])"
  "clean H (xs, Running) = (owned H xs \<noteq> None)"
  by (auto simp: clean_def)

lemma owned_quiet [simp]:
  "owned H (map (\<lambda>x. Out (f x)) ys @ xs) = owned H xs"
  "owned H (map (\<lambda>x. Out (f x)) ys) = Some H"
  "owned H (map (\<lambda>(x, y). Out (g x y)) zs) = Some H"
  by (induction ys, simp_all) (induction zs, auto)

section \<open>The discipline of a program\<close>

text \<open>
  \<open>main\<close> with the environments in which the program keeps the discipline (\<open>sound\<close>; everything,
  for most programs). The law is what each program's theory proves of its \<^verbatim>\<open>main\<close>.
\<close>

locale program =
  fixes main :: "'env \<Rightarrow> run" and sound :: "'env \<Rightarrow> bool"
  assumes clean_main: "sound e \<Longrightarrow> clean [] (main e)"
begin

lemma disciplined: "sound e \<Longrightarrow> owned [] (fst (main e)) \<noteq> None"
  and closed: "sound e \<Longrightarrow> snd (main e) \<noteq> Running \<Longrightarrow> owned [] (fst (main e)) = Some []"
  using clean_main by (auto simp: clean_def)

lemma released_once:
  assumes "sound e" "snd (main e) \<noteq> Running"
  shows "count_list (fst (main e)) (Acquire r) = count_list (fst (main e)) (Release r)"
  using owned_count [OF closed [OF assms]] by simp

lemma used_while_held:
  assumes "sound e" "fst (main e) = xs @ Use r # ys"
  shows "count_list xs (Acquire r) = Suc (count_list xs (Release r))"
  using owned_use_held disciplined [OF assms(1)] assms(2) by simp

lemma releases_bounded:
  assumes "sound e" "fst (main e) = xs @ ys"
  shows "count_list xs (Release r) \<le> count_list xs (Acquire r)"
proof -
  obtain H where "owned [] xs = Some H"
    using disciplined [OF assms(1)] assms(2) by (auto simp: owned_append split: option.splits)
  from owned_count [OF this, of r] show ?thesis by simp
qed

end

text \<open>
  A program whose loop never ends keeps its skeleton for as long as it runs; when it ends before the
  loop, it has released it.
\<close>

locale endless_program = program +
  assumes skel_kept: "sound e \<Longrightarrow> snd (main e) = Running \<Longrightarrow> owned [] (fst (main e)) = Some [Skel]"
begin

lemma held: "sound e \<Longrightarrow> owned [] (fst (main e)) = Some (if snd (main e) = Running then [Skel] else [])"
  using skel_kept closed by simp

end

section \<open>Loops that only wait\<close>

text \<open>
  \<^verbatim>\<open>while (!stop) { fprintf(stderr, "."); sleep(1); }\<close>: the script gives, per iteration, whether
  the signal handler has set the flag when it is tested. \<^verbatim>\<open>for (;;)\<close> loops never see it.
\<close>

fun wait_loop :: "bool list \<Rightarrow> run \<Rightarrow> run" where
  "wait_loop [] k = ([], Running)"
| "wait_loop (stop # script) k = (if stop then k else emit [Err ''.''] (wait_loop script k))"

lemma owned_Err_replicate [simp]: "owned H (replicate n (Err s) @ xs) = owned H xs"
  by (induction n) auto

lemma clean_wait_loop [simp]: "clean H k \<Longrightarrow> clean H (wait_loop script k)"
  by (induction script) simp_all

text \<open>The loop ends as soon as the flag is set.\<close>

lemma wait_loop_stops: "True \<in> set script \<Longrightarrow> snd (wait_loop script k) = snd k"
  by (induction script) auto

text \<open>\<^verbatim>\<open>for (;;)\<close> with the same body, watched for \<open>n\<close> turns.\<close>

definition forever :: "nat \<Rightarrow> run" where
  "forever n = (replicate n (Err ''.''), Running)"

lemma owned_forever [simp]: "owned H (fst (forever n)) = Some H"
  using owned_Err_replicate [of H n "''.''" "[]"] by (simp add: forever_def)

lemma clean_forever [simp]: "clean H (forever n)"
  by (simp add: clean_def, simp add: forever_def)

section \<open>Loops that poll a ring buffer\<close>

text \<open>
  One turn of such a loop: the flag that the signal handler sets, the records that the poll
  delivers to the callback, and the value that it returns.
\<close>

record 'e poll =
  p_exiting :: bool
  p_events :: "'e list"
  p_result :: int

section \<open>Command lines\<close>

text \<open>
  \<^verbatim>\<open>argp_parse\<close> calls the program's parser for each option and argument in turn. A parser updates the
  settings, rejects the input (\<^verbatim>\<open>argp_usage\<close> prints the usage and ends the program with \<^verbatim>\<open>EX_USAGE\<close>), or
  does not know the key, which is then skipped.
\<close>

datatype arg_key = Key char | Key_arg | Key_other

datatype 'env arg_result = Arg_ok 'env | Arg_usage "act list" | Arg_unknown

abbreviation (input) argp_err_exit_status :: int where "argp_err_exit_status \<equiv> 64"

fun argp_run ::
  "(arg_key \<Rightarrow> string \<Rightarrow> 'env \<Rightarrow> 'env arg_result) \<Rightarrow> (arg_key \<times> string) list \<Rightarrow> 'env \<Rightarrow> act list + 'env" where
  "argp_run parser [] env = Inr env"
| "argp_run parser ((key, arg) # args) env =
     (case parser key arg env of
        Arg_ok env \<Rightarrow> argp_run parser args env
      | Arg_usage usage \<Rightarrow> Inl usage
      | Arg_unknown \<Rightarrow> argp_run parser args env)"

lemma argp_run_quiet:
  assumes "\<And>key arg env usage H. parser key arg env = Arg_usage usage \<Longrightarrow> owned H usage = Some H"
  shows "argp_run parser args env = Inl usage \<Longrightarrow> owned H usage = Some H"
  using assms
  by (induction parser args env rule: argp_run.induct) (auto split: arg_result.splits)

end
