(* ===== verification/Page_Export.thy ===== *)
theory Page_Export
  imports Page_Tracker App_Lifecycle
begin

text \<open>
  The loader of the page tracker, \<^verbatim>\<open>examples/c/kprobe.c\<close>: a thread that reads process ids from a
  growing file into \<^verbatim>\<open>pid_map\<close>, and a main loop that every half second walks the page map and
  writes one row per page to a numbered file. The theory shows what the receiver adds and when
  reading in pieces is the same as reading at once, that a walk over a quiet map ends and writes
  every element exactly once (and the one key at which it does not), that the rows can be read
  back, that the file names always fit their buffer and never repeat, and which resources a run
  leaves behind.
\<close>

section \<open>File names and hashes\<close>

text \<open>\<^verbatim>\<open>concatenate_string_and_integer\<close>: the error is the message before \<^verbatim>\<open>exit(EXIT_FAILURE)\<close>.\<close>

definition concatenate_string_and_integer :: "string \<Rightarrow> int \<Rightarrow> nat \<Rightarrow> string + string" where
  "concatenate_string_and_integer str num result_size =
    (let num_str = snprintf 20 (dec_int num) in
     if length str + length num_str + 1 > result_size
     then Inl ''Error: Result buffer is too small.''
     else Inr (snprintf result_size (str @ num_str)))"

definition hash_index_mapping :: "u64 \<Rightarrow> u64 \<Rightarrow> u64" where
  "hash_index_mapping index mapping = index XOR mapping"

section \<open>The PID receiver\<close>

text \<open>One line of the file: a leading number becomes a key of \<^verbatim>\<open>pid_map\<close>.\<close>

definition receive_line :: "'p pid_map_ops \<Rightarrow> string \<Rightarrow> 'p \<times> act list \<Rightarrow> 'p \<times> act list" where
  "receive_line qops line st =
    (case sscanf_d line of
       None \<Rightarrow> st
     | Some pid \<Rightarrow>
         (let (m, r) = update_elem qops (fst st) pid 1
          in (m, snd st @ [if r = 0 then Out (''Added PID '' @ dec_int (sint pid) @ [newline])
                           else Err ''Failed to add PID''])))"

text \<open>
  One iteration of the thread's loop: the file as it is at that moment (None if it cannot be
  opened), and the position up to which it was read before. \<^verbatim>\<open>fseek\<close> beyond the end of the file
  succeeds and \<^verbatim>\<open>ftell\<close> then returns that position.
\<close>

record 'p receiver =
  file_pos :: nat
  rc_pid_map :: 'p
  rc_log :: "act list"

definition receiver_poll :: "'p pid_map_ops \<Rightarrow> string option \<Rightarrow> 'p receiver \<Rightarrow> 'p receiver" where
  "receiver_poll qops file rc =
    (case file of
       None \<Rightarrow> rc
     | Some content \<Rightarrow>
         (let (m, l) = fold (receive_line qops) (fgets_all 255 (drop (file_pos rc) content))
                         (rc_pid_map rc, rc_log rc)
          in \<lparr>file_pos = max (file_pos rc) (length content), rc_pid_map = m, rc_log = l\<rparr>))"

fun pid_receiver :: "'p pid_map_ops \<Rightarrow> (bool \<times> string option) list \<Rightarrow> 'p receiver \<Rightarrow> 'p receiver" where
  "pid_receiver qops [] rc = rc"
| "pid_receiver qops ((stop, file) # script) rc =
     (if stop then rc else pid_receiver qops script (receiver_poll qops file rc))"

section \<open>Writing the page map\<close>

text \<open>
  \<^verbatim>\<open>fprintf(file, "%" PRIx64 " %d %ld \n", hash, value.pid, value.ref_count)\<close>; \<^verbatim>\<open>%ld\<close> prints the
  unsigned count as a signed number.
\<close>

definition dump_row :: "page_key \<Rightarrow> metric \<Rightarrow> string" where
  "dump_row k v =
     to_base 16 (unat (hash_index_mapping (pk_index k) (pk_mapping k))) @ '' ''
       @ dec_int (sint (m_pid v)) @ '' '' @ dec_int (sint (m_ref_count v)) @ '' '' @ [newline]"

datatype dump_item = Row string | Lookup_failed

definition dump_act :: "string \<Rightarrow> dump_item \<Rightarrow> act" where
  "dump_act name x =
    (case x of Row s \<Rightarrow> Put (Stream name) s
     | Lookup_failed \<Rightarrow> Err ''Failed to lookup map element'')"

text \<open>
  The walk over the page map. The probes run concurrently, so each system call sees the map of
  its own moment: \<open>ms t\<close> is the map at the \<open>t\<close>-th call. None is a walk that never ends.
\<close>

partial_function (option) dump_loop ::
  "'a page_map_ops \<Rightarrow> (nat \<Rightarrow> 'a) \<Rightarrow> nat \<Rightarrow> page_key \<Rightarrow> dump_item list \<Rightarrow> dump_item list option" where
  "dump_loop pops ms t key written =
    (case next_key pops (ms t) key of
       None \<Rightarrow> Some written
     | Some nk \<Rightarrow>
         dump_loop pops ms (t + 2) nk
           (written @ [case lookup_elem pops (ms (t + 1)) nk of
              Some v \<Rightarrow> Row (dump_row nk v) | None \<Rightarrow> Lookup_failed]))"

text \<open>\<^verbatim>\<open>memset(&key, 0, sizeof(key))\<close>: the walk starts from the all-zero key.\<close>

definition zero_key :: page_key where
  "zero_key = \<lparr>pk_mapping = 0, pk_index = 0\<rparr>"

definition dump_map :: "'a page_map_ops \<Rightarrow> (nat \<Rightarrow> 'a) \<Rightarrow> dump_item list option" where
  "dump_map pops ms = dump_loop pops ms 0 zero_key []"

section \<open>The main program\<close>

abbreviation metrics_path :: string where "metrics_path \<equiv> ''./lru_metrics/time_''"

record 'a kprobe_iter =
  it_stop :: bool \<comment> \<open>\<^verbatim>\<open>stop\<close> is set when the loop tests it\<close>
  it_fopen :: bool
  it_maps :: "nat \<Rightarrow> 'a"

record 'a kprobe_env =
  ke_open_and_load :: bool
  ke_attach :: int
  ke_signal :: bool \<comment> \<open>\<^verbatim>\<open>signal\<close> does not return \<^verbatim>\<open>SIG_ERR\<close>\<close>
  ke_pthread_create :: int
  ke_iters :: "'a kprobe_iter list"

text \<open>The loop counter \<^verbatim>\<open>i\<close> overflows after \<open>2 ^ 31\<close> iterations (34 years); it is a number here.\<close>

fun kprobe_loop :: "'a page_map_ops \<Rightarrow> nat \<Rightarrow> 'a kprobe_iter list \<Rightarrow> run \<Rightarrow> run" where
  "kprobe_loop pops i [] after_loop = ([], Running)"
| "kprobe_loop pops i (it # its) after_loop =
     (if it_stop it then after_loop
      else case concatenate_string_and_integer metrics_path (int i) 30 of
        Inl msg \<Rightarrow> ([Err msg], Exit 1)
      | Inr result \<Rightarrow>
          if \<not> it_fopen it then ([Err ''Failed to open file''], Exit 1)
          else (case dump_map pops (it_maps it) of
                  None \<Rightarrow> ([Acquire (Stream result)], Running)
                | Some items \<Rightarrow>
                    emit (Acquire (Stream result) # map (dump_act result) items
                            @ [Release (Stream result)])
                      (kprobe_loop pops (Suc i) its after_loop)))"

definition kprobe_main :: "'a page_map_ops \<Rightarrow> 'a kprobe_env \<Rightarrow> run" where
  "kprobe_main pops env =
    (if \<not> ke_open_and_load env then ([Err ''Failed to open BPF skeleton''], Exit 1)
     else emit [Acquire Skel]
       (let err = ke_attach env; cleanup = ([Release Skel], Exit (- err)) in
        if err \<noteq> 0 then emit [Err ''Failed to attach BPF skeleton''] cleanup
        else if \<not> ke_signal env then emit [Err ''Can't set signal handler''] cleanup
        else emit [Out ''Successfully started!'']
          (if ke_pthread_create env \<noteq> 0
           then emit [Err ''Failed to create PID receiver thread''] cleanup
           else emit [Acquire Thread]
             (kprobe_loop pops 0 (ke_iters env) (emit [Release Thread] cleanup)))))"

section \<open>Lemmas\<close>

lemma receive_line_none: "sscanf_d line = None \<Longrightarrow> receive_line qops line st = st"
  by (simp add: receive_line_def)

lemma receive_line_map:
  "fst (receive_line qops line st) =
     (case sscanf_d line of None \<Rightarrow> fst st | Some pid \<Rightarrow> fst (update_elem qops (fst st) pid 1))"
  by (auto simp: receive_line_def split: option.split prod.split)

lemma receiver_poll_sel [simp]:
  "file_pos (receiver_poll qops (Some content) rc) = max (file_pos rc) (length content)"
  by (simp add: receiver_poll_def split: prod.split)

lemma receiver_poll_map:
  "rc_pid_map (receiver_poll qops (Some content) rc) =
     fst (fold (receive_line qops) (fgets_all 255 (drop (file_pos rc) content))
       (rc_pid_map rc, rc_log rc))"
  by (simp add: receiver_poll_def case_prod_unfold Let_def)

text \<open>The file that the workload scripts write: one process id per line.\<close>

definition pid_lines :: "s32 list \<Rightarrow> string" where
  "pid_lines ps = concat (map (\<lambda>p. dec_int (sint p) @ [newline]) ps)"

lemma pid_text: "newline \<notin> set (dec_int (sint (p :: s32)))" "length (dec_int (sint p)) < 255" "dec_int (sint p) \<noteq> []"
proof -
  have "\<not> isdigit newline" by (simp add: isdigit_def)
  then have "newline \<notin> set (to_base 10 n)" for n using to_base10_digits by blast
  then show "newline \<notin> set (dec_int (sint p))" by (auto simp: dec_int_def)
  show "length (dec_int (sint p)) < 255"
    using length_dec_int [of "sint p"] sint_ge [of p] sint_lt [of p] by simp
  show "dec_int (sint p) \<noteq> []" by (simp add: dec_int_def)
qed

lemma pid_line_fgets:
  "fgets 255 (dec_int (sint (p :: s32)) @ newline # rest) = (dec_int (sint p) @ [newline], rest)"
  by (intro fgets_line pid_text)

lemma pid_lines_fgets: "fgets_all 255 (pid_lines ps) = map (\<lambda>p. dec_int (sint p) @ [newline]) ps"
proof (induction ps)
  case (Cons p ps)
  then show ?case
    by (simp add: pid_lines_def fgets_all.simps [of 255 "dec_int (sint p) @ newline # _"]
        pid_line_fgets)
qed (simp add: pid_lines_def)

lemma fold_receive_pids:
  "fst (fold (receive_line qops) (map (\<lambda>p. dec_int (sint p) @ [newline]) ps) st) =
     fold (\<lambda>p m. fst (update_elem qops m p 1)) ps (fst st)"
  by (induction ps arbitrary: st) (simp_all add: receive_line_map sscanf_d_dec_int)

lemma receiver_poll_twice:
  assumes "xs = [] \<or> last xs = newline" and "file_pos rc \<le> length xs"
  shows "receiver_poll qops (Some (xs @ ys)) (receiver_poll qops (Some xs) rc) =
    receiver_poll qops (Some (xs @ ys)) rc"
proof -
  let ?old = "drop (file_pos rc) xs"
  have "?old = [] \<or> last ?old = newline" using assms(1,2)
    by (cases "file_pos rc = length xs") (auto simp: last_drop)
  then have "fgets_all 255 (drop (file_pos rc) (xs @ ys)) = fgets_all 255 ?old @ fgets_all 255 ys"
    using assms(2) by (simp add: fgets_all_append)
  with assms(2) show ?thesis
    by (simp add: receiver_poll_def max_absorb2 split: prod.split)
qed

context bpf_iter_map
begin

lemma next_key_split:
  assumes "inv m" "keys m = xs @ k # ys"
  shows "next_key ops m k = (case ys of [] \<Rightarrow> None | y # _ \<Rightarrow> Some y)"
  using assms distinct_keys [OF assms(1)] next_key [OF assms(1), of k]
  by (simp add: successor_def after_split)

lemma next_key_absent:
  assumes "inv m" "k \<notin> dom (lookup_elem ops m)"
  shows "next_key ops m k = (case keys m of [] \<Rightarrow> None | y # _ \<Rightarrow> Some y)"
  using assms set_keys [OF assms(1)] next_key [OF assms(1), of k] by (simp add: successor_def)

end

context bpf_hash_map
begin

lemma dom_fold_update:
  assumes "inv m" "card (dom (lookup_elem ops m) \<union> set ps) \<le> max_entries"
  shows "dom (lookup_elem ops (fold (\<lambda>p m. fst (update_elem ops m p v)) ps m))
    = dom (lookup_elem ops m) \<union> set ps"
  using assms
proof (induction ps arbitrary: m)
  case (Cons p ps)
  have fin: "finite (dom (lookup_elem ops m))" by (rule finite_dom [OF Cons.prems(1)])
  then have "card (insert p (dom (lookup_elem ops m))) \<le> max_entries"
    using Cons.prems(2) by (intro order.trans [OF card_mono Cons.prems(2)]) auto
  then have l: "lookup_elem ops (fst (update_elem ops m p v)) = (lookup_elem ops m)(p \<mapsto> v)"
    by (rule lookup_update_fits [OF Cons.prems(1) Cons.prems(1)])
  have "dom (lookup_elem ops (fst (update_elem ops m p v))) = insert p (dom (lookup_elem ops m))"
    unfolding l by simp
  with Cons.IH [OF inv_update_fst [OF Cons.prems(1), of p v]] Cons.prems(2) show ?case by simp
qed simp

end

text \<open>The row of a key in a map, and the walk over a map that does not change meanwhile.\<close>

definition row_in :: "'a page_map_ops \<Rightarrow> 'a \<Rightarrow> page_key \<Rightarrow> dump_item" where
  "row_in pops m k = Row (dump_row k (the (lookup_elem pops m k)))"

lemma dump_loop_from:
  assumes "bpf_iter_map pops pinv keys" "pinv m" "keys m = xs @ k # ys"
  shows "dump_loop pops (\<lambda>_. m) t k w = Some (w @ map (row_in pops m) ys)"
  using assms(3)
proof (induction ys arbitrary: xs k t w)
  case Nil
  then show ?case
    using bpf_iter_map.next_key_split [OF assms(1,2) Nil] by (simp add: dump_loop.simps)
next
  case (Cons y ys)
  have "y \<in> dom (lookup_elem pops m)"
    using bpf_iter_map.set_keys [OF assms(1,2)] Cons.prems by auto
  then have r: "(case lookup_elem pops m y of Some v \<Rightarrow> Row (dump_row y v) | None \<Rightarrow> Lookup_failed)
      = row_in pops m y"
    by (auto simp: row_in_def)
  have "dump_loop pops (\<lambda>_. m) (t + 2) y (w @ [row_in pops m y])
      = Some ((w @ [row_in pops m y]) @ map (row_in pops m) ys)"
    by (rule Cons.IH [of "xs @ [k]"]) (simp add: Cons.prems)
  then show ?case
    using bpf_iter_map.next_key_split [OF assms(1,2) Cons.prems]
    by (subst dump_loop.simps) (simp add: r)
qed

lemma dump_loop_start:
  assumes "bpf_iter_map pops pinv keys" "pinv m" "k \<notin> dom (lookup_elem pops m)"
  shows "dump_loop pops (\<lambda>_. m) t k w = Some (w @ map (row_in pops m) (keys m))"
proof (cases "keys m")
  case Nil
  then show ?thesis
    using bpf_iter_map.next_key_absent [OF assms] by (simp add: dump_loop.simps)
next
  case (Cons y ys)
  have "y \<in> dom (lookup_elem pops m)"
    using bpf_iter_map.set_keys [OF assms(1,2)] Cons by auto
  then have r: "(case lookup_elem pops m y of Some v \<Rightarrow> Row (dump_row y v) | None \<Rightarrow> Lookup_failed)
      = row_in pops m y"
    by (auto simp: row_in_def)
  show ?thesis
    using bpf_iter_map.next_key_absent [OF assms] dump_loop_from [OF assms(1,2), of "[]" y ys] Cons
    by (subst dump_loop.simps) (simp add: r)
qed

text \<open>
  Whatever happens to the map: a property of the position, the key and the rows so far that every
  turn keeps gives a property of the result.
\<close>

definition dump_item_at :: "'a page_map_ops \<Rightarrow> 'a \<Rightarrow> page_key \<Rightarrow> dump_item" where
  "dump_item_at pops m k = (case lookup_elem pops m k of Some v \<Rightarrow> Row (dump_row k v) | None \<Rightarrow> Lookup_failed)"

lemma dump_loop_invariant:
  assumes "dump_loop pops ms t key w = Some items" and "Q t key w"
    and step: "\<And>t key w nk. Q t key w \<Longrightarrow> next_key pops (ms t) key = Some nk \<Longrightarrow>
      Q (t + 2) nk (w @ [dump_item_at pops (ms (Suc t)) nk])"
    and stop: "\<And>t key w. Q t key w \<Longrightarrow> next_key pops (ms t) key = None \<Longrightarrow> R w"
  shows "R items"
proof -
  have "pops' = pops \<longrightarrow> ms' = ms \<longrightarrow> Q t key w \<longrightarrow> R items"
    if "dump_loop pops' ms' t key w = Some items" for pops' ms' t key w items
    using that
  proof (rule dump_loop.raw_induct [where P = "\<lambda>pops' ms' t key w items. pops' = pops \<longrightarrow> ms' = ms \<longrightarrow> Q t key w \<longrightarrow> R items",
        rotated], goal_cases)
    case (1 loop pops' ms' t key w items)
    then show ?case
      using step [of t key w] stop [of t key w] by (auto simp: dump_item_at_def split: option.splits)
  qed
  with assms(1,2) show ?thesis by blast
qed

lemma concatenate_fits:
  assumes "0 \<le> i" "i < 2 ^ 31"
  shows "concatenate_string_and_integer metrics_path i 30 = Inr (metrics_path @ dec_int i)"
  using length_dec_int_nonneg [OF assms] by (simp add: concatenate_string_and_integer_def)

text \<open>Ownership along the dump loop and the main program.\<close>

lemma owned_dump_acts:
  "Stream name \<in> set H \<Longrightarrow> owned H (map (dump_act name) items @ xs) = owned H xs"
  by (induction items) (auto simp: dump_act_def split: dump_item.split)

lemma kprobe_loop_clean:
  assumes "\<forall>it \<in> set its. it_fopen it" and "i + length its \<le> 2 ^ 31"
    and "\<And>name. Stream name \<notin> set H" and "clean H k"
  shows "clean H (kprobe_loop pops i its k)"
  using assms(1,2)
proof (induction its arbitrary: i)
  case (Cons it its)
  then have c: "concatenate_string_and_integer metrics_path (int i) 30 = Inr (metrics_path @ dec_int (int i))"
    by (intro concatenate_fits) auto
  from Cons assms(3,4) show ?case
    by (cases "dump_map pops (it_maps it)") (simp_all add: c owned_dump_acts)
qed simp

section \<open>Properties\<close>

text \<open>
  C17. A walk over a page map that does not change ends, and writes exactly one row per element,
  in the order of the map's keys, provided that the all-zero key is not in the map.
\<close>

theorem dump_writes_every_page:
  assumes "bpf_iter_map pops pinv keys" and "pinv m"
    and "zero_key \<notin> dom (lookup_elem pops m)"
  shows "\<exists>items. dump_map pops (\<lambda>_. m) = Some items \<and>
      items = map (\<lambda>k. Row (dump_row k (the (lookup_elem pops m k)))) (keys m) \<and>
      distinct (keys m) \<and> set (keys m) = dom (lookup_elem pops m)"
  using dump_loop_start [OF assms, of 0 "[]"] bpf_iter_map.distinct_keys [OF assms(1,2)]
    bpf_iter_map.set_keys [OF assms(1,2)]
  by (simp add: dump_map_def row_in_def [abs_def])

definition demo_metric :: metric where
  "demo_metric = \<lparr>m_ref_count = 3, m_rank = 5, m_page_count = 1, m_pid = 7\<rparr>"

lemma alist_iter_axioms: "bpf_iter_map (alist_ops cap) (alist_inv cap) (map fst)"
  by (rule alist_iter.bpf_iter_map_axioms)

theorem dump_writes_every_page_witness:
  "dump_map alist_pages (\<lambda>_. [(key_of page_a, demo_metric), (key_of page_b, demo_metric)])
   = Some [Row (''1000 7 3 '' @ [newline]), Row (''1001 7 3 '' @ [newline])]"
proof -
  let ?m = "[(key_of page_a, demo_metric), (key_of page_b, demo_metric)]"
  have "alist_pages_inv ?m" by (simp add: alist_inv_def key_of_pages)
  moreover have "zero_key \<notin> dom (lookup_elem alist_pages ?m)"
    by (simp add: zero_key_def key_of_pages)
  ultimately show ?thesis
    using dump_writes_every_page [OF alist_iter_axioms, of page_access_max_entries ?m]
    by (simp add: key_of_pages demo_metric_def dump_row_def hash_index_mapping_def dec_int_def
        to_base.simps digit_char_def digits16_def)
qed

text \<open>
  C18. The probes may run during a walk: whatever they do to the map between any two calls, every row that a walk writes is
  the row of an element that the map held at that moment, under the key that the walk was given, and
  each failed lookup is of a key that had just been removed.
\<close>

theorem dump_rows_genuine:
  assumes "dump_map pops ms = Some items"
  shows "\<forall>x \<in> set items. \<exists>t k j. next_key pops (ms t) j = Some k \<and> x = dump_item_at pops (ms (Suc t)) k"
  using assms unfolding dump_map_def
  by (rule dump_loop_invariant [where Q = "\<lambda>t key w. \<forall>x \<in> set w. \<exists>t k j.
      next_key pops (ms t) j = Some k \<and> x = dump_item_at pops (ms (Suc t)) k"]) auto

definition freed_at_once :: "nat \<Rightarrow> (page_key \<times> metric) list" where
  "freed_at_once t = (if t = 0 then [(key_of page_a, demo_metric)] else [])"

theorem dump_rows_genuine_witness:
  "\<exists>t k j. next_key alist_pages (freed_at_once t) j = Some k \<and> Lookup_failed = dump_item_at alist_pages (freed_at_once (Suc t)) k"
proof -
  have "dump_map alist_pages freed_at_once = Some [Lookup_failed]"
    by (simp add: dump_map_def dump_loop.simps successor_def zero_key_def key_of_pages freed_at_once_def)
  from dump_rows_genuine [OF this] show ?thesis by simp
qed

text \<open>
  A walk that the probes disturb may write pages twice, or never end: when the page that it has just visited is freed,
  the next call starts again from the first key.
\<close>

definition two_maps :: "nat \<Rightarrow> (page_key \<times> metric) list" where
  "two_maps t = (if t mod 4 < 2 then [(key_of page_a, demo_metric)] else [(key_of page_b, demo_metric)])"

lemma dump_never_ends: "dump_map alist_pages two_maps = None"
proof (rule ccontr)
  assume "dump_map alist_pages two_maps \<noteq> None"
  then obtain items where "dump_loop alist_pages two_maps 0 zero_key [] = Some items" by (auto simp: dump_map_def)
  then show False
  proof (rule dump_loop_invariant [where Q = "\<lambda>t key w. even t \<and> key \<notin> set (map fst (two_maps t))"])
    show "even 0 \<and> zero_key \<notin> set (map fst (two_maps 0))" by (simp add: two_maps_def zero_key_def key_of_pages)
    fix t :: nat and key nk and w :: "dump_item list"
    assume q: "even t \<and> key \<notin> set (map fst (two_maps t))"
    then have "even t" by blast
    then have "(t + 2) mod 4 = 2 \<and> t mod 4 = 0 \<or> (t + 2) mod 4 = 0 \<and> t mod 4 = 2" by presburger
    with q show "next_key alist_pages (two_maps t) key = Some nk \<Longrightarrow> even (t + 2) \<and> nk \<notin> set (map fst (two_maps (t + 2)))"
      and "next_key alist_pages (two_maps t) key = None \<Longrightarrow> False"
      by (auto simp: two_maps_def successor_def key_of_pages)
  qed
qed

text \<open>
  C34. The all-zero key (a folio without a mapping, at index 0) is where the walk starts from, so
  when it is in the map the walk takes it for the previous element: it and all the pages before
  it in the key order are left out of the file.
\<close>

theorem dump_skips_up_to_zero_key:
  assumes "bpf_iter_map pops pinv keys" and "pinv m"
    and "keys m = before @ zero_key # rest"
  shows "dump_map pops (\<lambda>_. m) = Some (map (\<lambda>k. Row (dump_row k (the (lookup_elem pops m k)))) rest)"
  using dump_loop_from [OF assms, of 0 "[]"] by (simp add: dump_map_def row_in_def [abs_def])

theorem dump_skips_up_to_zero_key_witness:
  "dump_map alist_pages (\<lambda>_. [(key_of page_a, demo_metric), (zero_key, demo_metric)]) = Some []"
  using dump_skips_up_to_zero_key
      [OF alist_iter_axioms, of page_access_max_entries
         "[(key_of page_a, demo_metric), (zero_key, demo_metric)]" "[key_of page_a]" "[]"]
  by (simp add: alist_inv_def key_of_pages zero_key_def)

text \<open>
  C19. The PID receiver reads a growing file incrementally: if the file grows by whole lines, then
  polling it after each growth leaves the same position, the same \<^verbatim>\<open>pid_map\<close> and the same
  messages as polling it once at the end.
\<close>

theorem receiver_reads_incrementally:
  assumes "\<forall>part \<in> set parts. part \<noteq> [] \<and> last part = newline" and "file_pos rc = 0"
    and "parts \<noteq> []"
  shows "fold (\<lambda>n. receiver_poll qops (Some (concat (take n parts)))) [1..<Suc (length parts)] rc
    = receiver_poll qops (Some (concat parts)) rc"
  using assms
proof (induction parts rule: rev_induct)
  case (snoc p ps)
  let ?poll = "\<lambda>xs n. receiver_poll qops (Some (concat (take n xs)))"
  have old: "fold (?poll (ps @ [p])) [1..<Suc (length ps)] rc = fold (?poll ps) [1..<Suc (length ps)] rc"
    by (rule fold_cong) auto
  have "last (concat ps) = newline" if "ps \<noteq> []"
    using that snoc.prems(1) by (induction ps rule: rev_induct) auto
  then have nl: "concat ps = [] \<or> last (concat ps) = newline" by (cases "ps = []") auto
  show ?case
  proof (cases "ps = []")
    case False
    have "fold (?poll (ps @ [p])) [1..<Suc (length (ps @ [p]))] rc
        = receiver_poll qops (Some (concat (ps @ [p]))) (fold (?poll ps) [1..<Suc (length ps)] rc)"
      using old by simp
    also have "fold (?poll ps) [1..<Suc (length ps)] rc = receiver_poll qops (Some (concat ps)) rc"
      using snoc False by simp
    finally show ?thesis using receiver_poll_twice [OF nl, of rc qops p] snoc.prems(2) by simp
  qed simp
qed simp

theorem receiver_reads_incrementally_witness:
  "fold (\<lambda>n. receiver_poll alist_pids
       (Some (concat (take n [''12'' @ [newline], ''345'' @ [newline]])))) [1..<3]
     \<lparr>file_pos = 0, rc_pid_map = [], rc_log = []\<rparr>
   = receiver_poll alist_pids (Some (concat [''12'' @ [newline], ''345'' @ [newline]]))
     \<lparr>file_pos = 0, rc_pid_map = [], rc_log = []\<rparr>"
  using receiver_reads_incrementally
      [of "[''12'' @ [newline], ''345'' @ [newline]]"
          "\<lparr>file_pos = 0, rc_pid_map = [], rc_log = []\<rparr>" alist_pids]
  by (simp add: numeral_3_eq_3 numeral_2_eq_2)

text \<open>
  Polling a file of decimal process ids, one per line, performs exactly one \<^verbatim>\<open>pid_map\<close> update
  per line, in order; so, within the capacity of the map, the tracked processes are the old ones
  and those of the file.
\<close>

theorem receiver_adds_all_pids:
  assumes "bpf_hash_map qops qinv cap" and "qinv (rc_pid_map rc)" and "file_pos rc = 0"
    and "card (dom (lookup_elem qops (rc_pid_map rc)) \<union> set ps) \<le> cap"
  shows "dom (lookup_elem qops (rc_pid_map (receiver_poll qops (Some (pid_lines ps)) rc)))
    = dom (lookup_elem qops (rc_pid_map rc)) \<union> set ps"
  using fold_receive_pids [of qops ps "(rc_pid_map rc, rc_log rc)"]
    bpf_hash_map.dom_fold_update [OF assms(1,2,4), of 1] assms(3)
  by (simp add: receiver_poll_map pid_lines_fgets)

theorem receiver_adds_all_pids_witness:
  "dom (lookup_elem alist_pids (rc_pid_map (receiver_poll alist_pids (Some (pid_lines [12, 345]))
     \<lparr>file_pos = 0, rc_pid_map = [(7, 1)], rc_log = []\<rparr>))) = {7, 12, 345}"
  using receiver_adds_all_pids [OF alist_map_axioms,
      of pid_map_max_entries "\<lparr>file_pos = 0, rc_pid_map = [(7, 1)], rc_log = []\<rparr>" "[12, 345]"]
  by (simp add: alist_inv_def insert_commute)

text \<open>
  The receiver remembers only a position: when the file has been truncated and rewritten and
  is not longer than that position, nothing of it is read, although all of it is new.
\<close>

theorem receiver_misses_rewritten_file:
  assumes "length content \<le> file_pos rc"
  shows "receiver_poll qops (Some content) rc = rc"
  using assms by (simp add: receiver_poll_def)

theorem receiver_misses_rewritten_file_witness:
  "receiver_poll alist_pids (Some (pid_lines [345])) \<lparr>file_pos = 4, rc_pid_map = [(123, 1)], rc_log = []\<rparr>
   = \<lparr>file_pos = 4, rc_pid_map = [(123, 1)], rc_log = []\<rparr>"
  by (rule receiver_misses_rewritten_file)
    (simp add: pid_lines_def dec_int_def to_base.simps digit_char_def)

text \<open>
  A poll that finds a line half written takes what is there for a process id, and the rest of the line
  for another one at the next poll: the two parts are tracked, and the process itself is not.
\<close>

lemma receiver_splits_line:
  assumes "file_pos rc = 0"
  shows "rc_pid_map (receiver_poll qops (Some (dec_int (sint (a :: s32)) @ dec_int (sint (b :: s32)) @ [newline]))
      (receiver_poll qops (Some (dec_int (sint a))) rc))
    = fst (update_elem qops (fst (update_elem qops (rc_pid_map rc) a 1)) b 1)"
proof -
  have "fgets 255 (dec_int (sint a)) = (dec_int (sint a), [])" using pid_text [of a] by (intro fgets_rest) simp_all
  then have "fgets_all 255 (dec_int (sint a)) = [dec_int (sint a)]" using pid_text(3) by (simp add: fgets_all.simps)
  moreover have "sscanf_d (dec_int (sint a)) = Some a"
    using parse_int_dec_int [of "[]" "sint a"] by (simp add: sscanf_d_def)
  moreover have "fgets_all 255 (dec_int (sint b) @ [newline]) = [dec_int (sint b) @ [newline]]"
    using pid_lines_fgets [of "[b]"] by (simp add: pid_lines_def)
  ultimately show ?thesis
    using assms by (simp add: receiver_poll_map receive_line_map sscanf_d_dec_int)
qed

text \<open>
  C31. Each row of a metrics file can be read back: its first field is the hexadecimal hash of the
  page key, the second the process, the third the count as a signed number.
\<close>

theorem dump_row_reads_back:
  "\<exists>rest rest'. of_base 16 (takeWhile (\<lambda>c. c \<noteq> CHR '' '') (dump_row k v))
       = unat (pk_index k XOR pk_mapping k) \<and>
     parse_int (dropWhile (\<lambda>c. c \<noteq> CHR '' '') (dump_row k v)) = Some (sint (m_pid v), rest) \<and>
     parse_int rest = Some (sint (m_ref_count v), rest')"
proof -
  let ?h = "to_base 16 (unat (pk_index k XOR pk_mapping k))"
  let ?tl = "dec_int (sint (m_ref_count v)) @ '' '' @ [newline]"
  have "CHR '' '' \<notin> set digits16" by (simp add: digits16_def)
  then have "CHR '' '' \<notin> set ?h" using set_to_base [of 16] by auto
  then have h: "takeWhile (\<lambda>c. c \<noteq> CHR '' '') (?h @ '' '' @ r) = ?h"
      "dropWhile (\<lambda>c. c \<noteq> CHR '' '') (?h @ '' '' @ r) = '' '' @ r" for r
    by (auto simp: takeWhile_append dropWhile_append)
  have row: "dump_row k v = ?h @ '' '' @ dec_int (sint (m_pid v)) @ '' '' @ ?tl"
    by (simp add: dump_row_def hash_index_mapping_def)
  have sp: "parse_int ('' '' @ s) = parse_int s" for s
    by (simp add: parse_int_def isspace_def)
  have nd: "\<not> isdigit (CHR '' '')" by (simp add: isdigit_def)
  have "parse_int ('' '' @ dec_int (sint (m_pid v)) @ '' '' @ ?tl) = Some (sint (m_pid v), '' '' @ ?tl)"
    by (simp only: sp) (rule parse_int_dec_int, simp add: nd)
  moreover have "parse_int ('' '' @ ?tl) = Some (sint (m_ref_count v), '' '' @ [newline])"
    by (simp only: sp) (rule parse_int_dec_int, simp add: nd)
  ultimately show ?thesis by (simp only: row h of_base_to_base) (simp add: of_base_to_base)
qed

text \<open>
  The name of every metrics file fits the 30-byte buffer \<^verbatim>\<open>result\<close> for every value of the
  loop counter, and different iterations write different files.
\<close>

theorem metrics_file_names:
  assumes "0 \<le> i" "i < 2 ^ 31" "0 \<le> j" "j < 2 ^ 31"
  shows "\<exists>name. concatenate_string_and_integer metrics_path i 30 = Inr name \<and> length name < 30 \<and>
    (concatenate_string_and_integer metrics_path j 30 = Inr name \<longleftrightarrow> i = j)"
  using concatenate_fits [OF assms(1,2)] concatenate_fits [OF assms(3,4)]
    length_dec_int_nonneg [OF assms(1,2)]
  by (auto simp: dec_int_inj)

theorem metrics_file_names_witness:
  "\<exists>name. concatenate_string_and_integer metrics_path 2147483647 30 = Inr name \<and> length name < 30 \<and>
     (concatenate_string_and_integer metrics_path 60 30 = Inr name \<longleftrightarrow> (2147483647 :: int) = 60)"
  by (rule metrics_file_names) simp_all

text \<open>The environments in which every metrics file can be opened.\<close>

definition kprobe_sound :: "'a kprobe_env \<Rightarrow> bool" where
  "kprobe_sound env \<longleftrightarrow> (\<forall>it \<in> set (ke_iters env). it_fopen it) \<and> length (ke_iters env) \<le> 2 ^ 31"

interpretation kprobe_app: program "kprobe_main pops" kprobe_sound for pops :: "'a page_map_ops"
proof
  fix env :: "'a kprobe_env"
  assume "kprobe_sound env"
  then have "clean [Thread, Skel]
      (kprobe_loop pops 0 (ke_iters env) (emit [Release Thread] ([Release Skel], Exit 0)))"
    by (intro kprobe_loop_clean) (auto simp: kprobe_sound_def)
  then show "clean [] (kprobe_main pops env)" by (simp add: kprobe_main_def Let_def)
qed

end
