(* ===== verification/Page_System.thy ===== *)
theory Page_System
  imports Page_Export
begin

text \<open>
  The page tracker as a whole: process ids go in through a file (\<^verbatim>\<open>pid_receiver\<close> of \<^verbatim>\<open>kprobe.c\<close>), the probes
  of \<^verbatim>\<open>kprobe.bpf.c\<close> fill the page map, and the main loop of \<^verbatim>\<open>kprobe.c\<close> writes it to a file. The
  theory follows the data through all three and shows what the rows of a metrics file say about the
  page accesses of the listed processes.
\<close>

section \<open>What a row should say\<close>

fun hitter :: "page_event \<Rightarrow> s32" where
  "hitter (Mark_accessed current f) = tgid_of current"
| "hitter _ = 0"

definition last_hitter :: "s32 set \<Rightarrow> page_key \<Rightarrow> page_event list \<Rightarrow> s32" where
  "last_hitter T k es = hitter (last (filter (hits T k) es))"

text \<open>The row of a page, from the events: its hash, the last process that touched it, its hits.\<close>

definition access_row :: "s32 set \<Rightarrow> page_event list \<Rightarrow> page_key \<Rightarrow> string" where
  "access_row T es k = to_base 16 (unat (pk_index k XOR pk_mapping k)) @ '' ''
     @ dec_int (sint (last_hitter T k es)) @ '' '' @ dec_int (int (hits_since_free T k es)) @ '' '' @ [newline]"

section \<open>From the events to the rows\<close>

lemma spec_last_hitter:
  assumes "\<forall>e \<in> set es. event_pids e = {}"
    and "sp_pages (spec_run es \<lparr>sp_tracked = T, sp_clock = 0, sp_pages = Map.empty\<rparr>) k = Some t"
  shows "st_pid t = last_hitter T k es"
  using assms
proof (induction es arbitrary: t rule: rev_induct)
  case (snoc e es)
  let ?a = "spec_run es \<lparr>sp_tracked = T, sp_clock = 0, sp_pages = Map.empty\<rparr>"
  have T: "sp_tracked ?a = T" using snoc.prems(1) spec_run_tracked [of es] by simp
  have IH: "st_pid t = last_hitter T k es" if "sp_pages ?a k = Some t" for t using snoc.IH snoc.prems(1) that by simp
  show ?case
    using snoc.prems IH T by (cases e) (auto simp: last_hitter_def split: if_splits)
qed simp

lemma hits_since_free_le: "hits_since_free T k es \<le> length es"
  unfolding hits_since_free_def
  by (metis length_filter_le length_rev length_takeWhile_le order.trans)

lemma sint_of_nat_small: "n < 2 ^ 63 \<Longrightarrow> sint (of_nat n :: u64) = int n"
  by (simp add: signed_of_nat signed_take_bit_int_eq_self)

text \<open>A page map that holds the statistics of the events: its keys and its rows.\<close>

lemma rows_of_spec:
  assumes "\<forall>e \<in> set es. event_pids e = {}" "length es < 2 ^ 63"
    and M: "M = map_option metric_of \<circ> sp_pages (spec_run es \<lparr>sp_tracked = T, sp_clock = 0, sp_pages = Map.empty\<rparr>)"
  shows "dom M = {k. 0 < hits_since_free T k es}" and "k \<in> dom M \<Longrightarrow> dump_row k (the (M k)) = access_row T es k"
proof -
  note refs = spec_refs [OF assms(1), of T]
  have "k \<in> dom M \<longleftrightarrow> 0 < hits_since_free T k es" for k
    using refs [of k] by (auto simp: M split: if_splits)
  then show "dom M = {k. 0 < hits_since_free T k es}" by blast
  assume "k \<in> dom M"
  then obtain t where t: "sp_pages (spec_run es \<lparr>sp_tracked = T, sp_clock = 0, sp_pages = Map.empty\<rparr>) k = Some t" by (auto simp: M)
  then have "st_refs t = hits_since_free T k es" using refs [of k] by (simp split: if_splits)
  moreover have "hits_since_free T k es < 2 ^ 63" using hits_since_free_le assms(2) by (rule le_less_trans)
  ultimately show "dump_row k (the (M k)) = access_row T es k"
    using spec_last_hitter [OF assms(1) t] t
    by (simp add: M dump_row_def access_row_def metric_of_def hash_index_mapping_def sint_of_nat_small)
qed

text \<open>One turn of the main loop over a map that does not change.\<close>

lemma kprobe_loop_turn:
  assumes "bpf_iter_map pops pinv keys" "pinv m" "zero_key \<notin> dom (lookup_elem pops m)" "i < 2 ^ 31"
  shows "kprobe_loop pops i (\<lparr>it_stop = False, it_fopen = True, it_maps = (\<lambda>_. m)\<rparr> # its) k =
    (let name = metrics_path @ dec_int (int i) in
     emit (Acquire (Stream name) # map (\<lambda>p. Put (Stream name) (dump_row p (the (lookup_elem pops m p)))) (keys m)
         @ [Release (Stream name)]) (kprobe_loop pops (Suc i) its k))"
proof -
  have "concatenate_string_and_integer metrics_path (int i) 30 = Inr (metrics_path @ dec_int (int i))"
    using assms(4) by (intro concatenate_fits) simp_all
  moreover have "dump_map pops (\<lambda>_. m) = Some (map (row_in pops m) (keys m))"
    using dump_loop_start [OF assms(1-3), of 0 "[]"] by (simp add: dump_map_def)
  ultimately show ?thesis by (simp add: Let_def comp_def dump_act_def row_in_def)
qed

context page_tracker
begin

lemma inv_fold_update: "qinv m \<Longrightarrow> qinv (fold (\<lambda>p m. fst (update_elem qops m p v)) ps m)"
  by (induction ps arbitrary: m) (simp_all add: pids.inv_update_fst)

text \<open>Starting from fresh maps, the receiver sets up the tracked processes.\<close>

lemma receiver_tracks:
  assumes "maps_ok pinv cinv qinv s" "tracks pops cops qops s spec_init" "card (set ps) \<le> pid_map_max_entries"
    and "q = rc_pid_map (receiver_poll qops (Some (pid_lines ps)) \<lparr>file_pos = 0, rc_pid_map = pid_map s, rc_log = l\<rparr>)"
  shows "maps_ok pinv cinv qinv (s\<lparr>pid_map := q\<rparr>)"
    and "tracks pops cops qops (s\<lparr>pid_map := q\<rparr>) \<lparr>sp_tracked = set ps, sp_clock = 0, sp_pages = Map.empty\<rparr>"
proof -
  have q: "q = fold (\<lambda>p m. fst (update_elem qops m p 1)) ps (pid_map s)"
    using fold_receive_pids [of qops ps "(pid_map s, l)"] by (simp add: assms(4) receiver_poll_map pid_lines_fgets)
  have i: "qinv (pid_map s)" and d: "dom (lookup_elem qops (pid_map s)) = {}"
    using assms(1,2) by (simp_all add: maps_ok_def tracks_def spec_init_def)
  show "maps_ok pinv cinv qinv (s\<lparr>pid_map := q\<rparr>)"
    using assms(1) inv_fold_update [OF i] by (simp add: maps_ok_def q)
  show "tracks pops cops qops (s\<lparr>pid_map := q\<rparr>) \<lparr>sp_tracked = set ps, sp_clock = 0, sp_pages = Map.empty\<rparr>"
    using assms(2,3) pids.dom_fold_update [OF i, of ps 1] d by (simp add: tracks_def spec_init_def q)
qed

end

section \<open>The whole system\<close>

text \<open>
  C4. From the list of process ids to the metrics file. The maps start empty, the receiver reads a file with one process
  id per line, then pages are touched and freed, by these and other processes in any order; the next
  turn of the main loop writes a file with exactly one row for each page that one of the listed
  processes has touched since the page was last freed. The row shows the hash of the page, the
  process that touched it last and the number of these touches. (Assumed: the maps have room, no
  page has the all-zero key, the probes pause during the dump, and the number of events is below
  2^63.)\<close>

theorem metrics_of_listed_processes:
  assumes "page_tracker pops pinv cops cinv qops qinv" and "bpf_iter_map pops pinv keys"
    and "maps_ok pinv cinv qinv s" and "tracks pops cops qops s spec_init"
    and "card (set ps) \<le> pid_map_max_entries" and "card (\<Union>e \<in> set es. event_keys e) \<le> page_access_max_entries"
    and "\<forall>e \<in> set es. event_pids e = {}" and "zero_key \<notin> (\<Union>e \<in> set es. event_keys e)"
    and "length es < 2 ^ 63" and "i < 2 ^ 31"
    and "rc = receiver_poll qops (Some (pid_lines ps)) \<lparr>file_pos = 0, rc_pid_map = pid_map s, rc_log = []\<rparr>"
    and "t = page_run pops cops qops es (s\<lparr>pid_map := rc_pid_map rc\<rparr>)"
    and "name = metrics_path @ dec_int (int i)"
  shows "\<exists>L. distinct L \<and> set L = {k. 0 < hits_since_free (set ps) k es} \<and>
    kprobe_loop pops i (\<lparr>it_stop = False, it_fopen = True, it_maps = (\<lambda>_. page_access_map t)\<rparr> # its) after_loop =
      emit (Acquire (Stream name) # map (\<lambda>k. Put (Stream name) (access_row (set ps) es k)) L @ [Release (Stream name)])
        (kprobe_loop pops (Suc i) its after_loop)"
proof -
  let ?a = "\<lparr>sp_tracked = set ps, sp_clock = 0, sp_pages = Map.empty\<rparr>" and ?m = "page_access_map t"
  note r = page_tracker.receiver_tracks [OF assms(1,3,4,5) refl, of "[]", folded assms(11)]
  have "maps_ok pinv cinv qinv t \<and> tracks pops cops qops t (spec_run es ?a)"
    unfolding assms(12) using assms(5-7) by (intro page_tracker.run_tracks [OF assms(1) r]) simp_all
  then have m: "pinv ?m" and l: "lookup_elem pops ?m = map_option metric_of \<circ> sp_pages (spec_run es ?a)"
    by (simp_all add: maps_ok_def tracks_def)
  note rows = rows_of_spec [OF assms(7,9) l]
  have "dom (lookup_elem pops ?m) \<subseteq> (\<Union>e \<in> set es. event_keys e)" using spec_run_dom [of es ?a] by (auto simp: l)
  with assms(8) have z: "zero_key \<notin> dom (lookup_elem pops ?m)" by blast
  have keys: "set (keys ?m) = dom (lookup_elem pops ?m)" "distinct (keys ?m)"
    using bpf_iter_map.set_keys [OF assms(2) m] bpf_iter_map.distinct_keys [OF assms(2) m] by simp_all
  have "map (\<lambda>p. Put (Stream name) (dump_row p (the (lookup_elem pops ?m p)))) (keys ?m)
      = map (\<lambda>k. Put (Stream name) (access_row (set ps) es k)) (keys ?m)"
    using rows(2) keys(1) by simp
  note turn = kprobe_loop_turn [OF assms(2) m z assms(10), of its after_loop, unfolded Let_def, folded assms(13), unfolded this]
  show ?thesis using turn keys unfolding rows(1) by (intro exI [of _ "keys ?m"] conjI)
qed

theorem metrics_of_listed_processes_witness:
  "\<exists>L. distinct L \<and> set L = {k. 0 < hits_since_free {7, 12} k demo_hits} \<and>
    fst (kprobe_loop alist_pages 3 [\<lparr>it_stop = False, it_fopen = True, it_maps = (\<lambda>_. page_access_map
        (page_run alist_pages array_ops alist_pids demo_hits (alist_fresh\<lparr>pid_map := rc_pid_map
          (receiver_poll alist_pids (Some (pid_lines [7, 12])) \<lparr>file_pos = 0, rc_pid_map = [], rc_log = []\<rparr>)\<rparr>)))\<rparr>] ([], Exit 0))
      = Acquire (Stream (metrics_path @ dec_int 3))
        # map (\<lambda>k. Put (Stream (metrics_path @ dec_int 3)) (access_row {7, 12} demo_hits k)) L
        @ [Release (Stream (metrics_path @ dec_int 3))]"
proof -
  have "pid_map alist_fresh = []" by (simp add: alist_fresh_def)
  moreover have "zero_key \<notin> (\<Union>e \<in> set demo_hits. event_keys e)" by (simp add: demo_keys key_of_pages zero_key_def)
  moreover have "\<forall>e \<in> set demo_hits. event_pids e = {}" "length demo_hits < 2 ^ 63" by (simp_all add: demo_hits_def)
  ultimately show ?thesis
    using metrics_of_listed_processes [OF kprobe_on_alists alist_iter_axioms alist_fresh_ok alist_fresh_tracks _ _ _ _ _ _ refl refl refl,
        of "[7, 12]" demo_hits 3 "[]" "([], Exit 0)"]
    by (simp add: demo_keys emit_def del: kprobe_loop.simps(2)) (elim exE conjE, intro exI conjI, assumption+, simp)
qed

end
