(* ===== verification/Process_Tracker.thy ===== *)
theory Process_Tracker
  imports Bpf_Maps App_Lifecycle
begin

text \<open>
  The process tracker, \<^verbatim>\<open>examples/c/bootstrap.bpf.c\<close> and \<^verbatim>\<open>bootstrap.c\<close>: tracepoints on exec and
  exit keep the start time of each process in a hash map and send events through a ring buffer;
  the user-space side prints them. The state of the kernel side is the map \<^verbatim>\<open>exec_start\<close> and the
  list of submitted events; the map operations and what the kernel tells the handlers about the
  current task are arguments. A reserved ring-buffer record holds whatever was in that memory:
  the handlers start from an arbitrary \<open>stale\<close> record and overwrite fields of it.
\<close>

section \<open>Data\<close>

abbreviation TASK_COMM_LEN :: nat where "TASK_COMM_LEN \<equiv> 16"
abbreviation MAX_FILENAME_LEN :: nat where "MAX_FILENAME_LEN \<equiv> 127"
abbreviation exec_start_max_entries :: nat where "exec_start_max_entries \<equiv> 8192"

record event =
  e_pid :: s32
  e_ppid :: s32
  e_exit_code :: u32
  e_duration_ns :: u64
  e_comm :: string
  e_filename :: string
  e_exit_event :: bool

record 'm bootstrap_maps =
  exec_start :: 'm
  rb :: "event list" \<comment> \<open>the submitted records, oldest first\<close>

type_synonym 'm start_ops = "('m, s32, u64) map_ops"

text \<open>
  What a handler reads from the kernel: the current ids and time, the task's parent, exit status
  and name, the tracepoint record (the location word of the file name and the string at each
  offset of the record), and the ring buffer's answer to the reservation.
\<close>

record task_ctx =
  t_pid_tgid :: u64
  t_ktime_ns :: u64
  t_parent_tgid :: s32
  t_exit_code :: s32
  t_comm :: string
  t_data_loc_filename :: u32
  t_string_at :: "u32 \<Rightarrow> string"
  t_reserve :: "event option" \<comment> \<open>None: no room; otherwise the stale contents of the record\<close>

text \<open>Copying a string into a buffer of \<open>n\<close> bytes keeps \<open>n - 1\<close> characters.\<close>

definition copy_str :: "nat \<Rightarrow> string \<Rightarrow> string" where
  "copy_str n s = take (n - 1) s"

section \<open>The tracepoints\<close>

definition handle_exec ::
  "'m start_ops \<Rightarrow> u64 \<Rightarrow> task_ctx \<Rightarrow> 'm bootstrap_maps \<Rightarrow> 'm bootstrap_maps \<times> int" where
  "handle_exec sops min_duration_ns ctx s =
    (let pid = tgid_of (t_pid_tgid ctx);
         ts = t_ktime_ns ctx;
         s = s\<lparr>exec_start := fst (update_elem sops (exec_start s) pid ts)\<rparr>
     in if min_duration_ns \<noteq> 0 then (s, 0)
        else case t_reserve ctx of
          None \<Rightarrow> (s, 0)
        | Some stale \<Rightarrow>
            (let fname_off = t_data_loc_filename ctx AND 0xFFFF;
                 e = stale\<lparr>e_exit_event := False, e_pid := pid, e_ppid := t_parent_tgid ctx,
                       e_comm := copy_str TASK_COMM_LEN (t_comm ctx),
                       e_filename := copy_str MAX_FILENAME_LEN (t_string_at ctx fname_off)\<rparr>
             in (s\<lparr>rb := rb s @ [e]\<rparr>, 0)))"

definition handle_exit ::
  "'m start_ops \<Rightarrow> u64 \<Rightarrow> task_ctx \<Rightarrow> 'm bootstrap_maps \<Rightarrow> 'm bootstrap_maps \<times> int" where
  "handle_exit sops min_duration_ns ctx s =
    (let pid = tgid_of (t_pid_tgid ctx); tid = tid_of (t_pid_tgid ctx) in
     if pid \<noteq> tid then (s, 0)
     else let start_ts = lookup_elem sops (exec_start s) pid in
       if start_ts = None \<and> min_duration_ns \<noteq> 0 then (s, 0)
       else let duration_ns = (case start_ts of Some ts \<Rightarrow> t_ktime_ns ctx - ts | None \<Rightarrow> 0);
                s = s\<lparr>exec_start := fst (delete_elem sops (exec_start s) pid)\<rparr>
         in if min_duration_ns \<noteq> 0 \<and> duration_ns < min_duration_ns then (s, 0)
            else case t_reserve ctx of
              None \<Rightarrow> (s, 0)
            | Some stale \<Rightarrow>
                (let e = stale\<lparr>e_exit_event := True, e_duration_ns := duration_ns, e_pid := pid,
                           e_ppid := t_parent_tgid ctx,
                           e_exit_code := signed_drop_bit 8 (t_exit_code ctx) AND 0xff,
                           e_comm := copy_str TASK_COMM_LEN (t_comm ctx)\<rparr>
                 in (s\<lparr>rb := rb s @ [e]\<rparr>, 0)))"

datatype proc_event = Exec task_ctx | Exit_task task_ctx

fun proc_step :: "'m start_ops \<Rightarrow> u64 \<Rightarrow> proc_event \<Rightarrow> 'm bootstrap_maps \<Rightarrow> 'm bootstrap_maps" where
  "proc_step sops min_ns (Exec ctx) s = fst (handle_exec sops min_ns ctx s)"
| "proc_step sops min_ns (Exit_task ctx) s = fst (handle_exit sops min_ns ctx s)"

definition proc_run ::
  "'m start_ops \<Rightarrow> u64 \<Rightarrow> proc_event list \<Rightarrow> 'm bootstrap_maps \<Rightarrow> 'm bootstrap_maps" where
  "proc_run sops min_ns es s = fold (proc_step sops min_ns) es s"

declare handle_exec_def [handler_defs] handle_exit_def [handler_defs]

section \<open>Command line\<close>

record bootstrap_env =
  env_verbose :: bool
  env_min_duration_ms :: int \<comment> \<open>a \<^verbatim>\<open>long\<close>\<close>

definition bootstrap_parse_arg :: "arg_key \<Rightarrow> string \<Rightarrow> bootstrap_env \<Rightarrow> bootstrap_env arg_result" where
  "bootstrap_parse_arg key arg env =
    (case key of
       Key c \<Rightarrow>
         if c = CHR ''v'' then Arg_ok (env\<lparr>env_verbose := True\<rparr>)
         else if c = CHR ''d'' then
           (let (ms, erange) = strtol10 arg; env = env\<lparr>env_min_duration_ms := ms\<rparr> in
            if erange \<or> ms \<le> 0 then Arg_usage [Err (''Invalid duration: '' @ arg @ [newline])]
            else Arg_ok env)
         else Arg_unknown
     | Key_arg \<Rightarrow> Arg_usage []
     | Key_other \<Rightarrow> Arg_unknown)"

text \<open>\<^verbatim>\<open>skel->rodata->min_duration_ns = env.min_duration_ms * 1000000ULL\<close>.\<close>

definition min_duration_of :: "bootstrap_env \<Rightarrow> u64" where
  "min_duration_of env = word_of_int (env_min_duration_ms env) * 1000000"

text \<open>\<^verbatim>\<open>libbpf_print_fn\<close>: debug messages are dropped unless verbose.\<close>

datatype libbpf_print_level = LIBBPF_WARN | LIBBPF_INFO | LIBBPF_DEBUG

definition bootstrap_print_fn :: "bootstrap_env \<Rightarrow> libbpf_print_level \<Rightarrow> string \<Rightarrow> act list" where
  "bootstrap_print_fn env level msg =
     (if level = LIBBPF_DEBUG \<and> \<not> env_verbose env then [] else [Err msg])"

section \<open>Printing events\<close>

text \<open>\<^verbatim>\<open>%-ns\<close>: padded on the right to at least \<open>n\<close> characters.\<close>

definition ljust :: "nat \<Rightarrow> string \<Rightarrow> string" where
  "ljust n s = s @ replicate (n - length s) CHR '' ''"

definition dec_nat :: "nat \<Rightarrow> string" where
  "dec_nat n = to_base 10 n"

text \<open>\<open>ts\<close> is the current local time as \<^verbatim>\<open>strftime\<close> renders it.\<close>

definition bootstrap_handle_event :: "string \<Rightarrow> event \<Rightarrow> string" where
  "bootstrap_handle_event ts e =
    (if e_exit_event e
     then ljust 8 ts @ '' '' @ ljust 5 ''EXIT'' @ '' '' @ ljust 16 (e_comm e) @ '' ''
            @ ljust 7 (dec_int (sint (e_pid e))) @ '' '' @ ljust 7 (dec_int (sint (e_ppid e)))
            @ '' ['' @ dec_nat (unat (e_exit_code e)) @ '']''
            @ (if e_duration_ns e \<noteq> 0
               then '' ('' @ dec_nat (unat (e_duration_ns e div 1000000)) @ ''ms)'' else [])
            @ [newline]
     else ljust 8 ts @ '' '' @ ljust 5 ''EXEC'' @ '' '' @ ljust 16 (e_comm e) @ '' ''
            @ ljust 7 (dec_int (sint (e_pid e))) @ '' '' @ ljust 7 (dec_int (sint (e_ppid e)))
            @ '' '' @ e_filename e @ [newline])"

section \<open>The main program\<close>

text \<open>
  The answers of the environment. \<^verbatim>\<open>argp\<close> calls the parser for the options of the command line in
  order (\<open>bw_args\<close>) and may itself fail (\<open>bw_argp_err\<close>, 0 if not).
\<close>

record bootstrap_world =
  bw_args :: "(arg_key \<times> string) list"
  bw_argp_err :: int
  bw_open :: bool
  bw_load :: int
  bw_attach :: int
  bw_ring_buffer_new :: bool
  bw_polls :: "(string \<times> event) poll list" \<comment> \<open>records with the time at which they are printed\<close>

fun bootstrap_loop :: "(string \<times> event) poll list \<Rightarrow> int \<Rightarrow> (int \<Rightarrow> run) \<Rightarrow> run" where
  "bootstrap_loop [] err cleanup = ([], Running)"
| "bootstrap_loop (p # ps) err cleanup =
     (if p_exiting p then cleanup err
      else emit (Use Ring # map (\<lambda>(ts, e). Out (bootstrap_handle_event ts e)) (p_events p))
        (let err = p_result p in
         if err = - EINTR then cleanup 0
         else if err < 0
           then emit [Out (''Error polling perf buffer: '' @ dec_int err @ [newline])] (cleanup err)
           else bootstrap_loop ps err cleanup))"

definition bootstrap_main :: "bootstrap_world \<Rightarrow> run" where
  "bootstrap_main w =
    (case argp_run bootstrap_parse_arg (bw_args w) \<lparr>env_verbose = False, env_min_duration_ms = 0\<rparr> of
      Inl usage \<Rightarrow> (usage, Exit argp_err_exit_status)
    | Inr env \<Rightarrow>
     let err = bw_argp_err w in
     if err \<noteq> 0 then ([], Exit err)
     else if \<not> bw_open w then ([Err ''Failed to open and load BPF skeleton''], Exit 1)
     else emit [Acquire Skel, Poke Skel ''min_duration_ns'' (uint (min_duration_of env))]
       (let cleanup = (\<lambda>ring err. (release_if ring Ring @ [Release Skel],
                          Exit (if err < 0 then - err else 0)));
            err = bw_load w in
        if err \<noteq> 0 then emit [Err ''Failed to load and verify BPF skeleton''] (cleanup False err)
        else let err = bw_attach w in
          if err \<noteq> 0 then emit [Err ''Failed to attach BPF skeleton''] (cleanup False err)
          else if \<not> bw_ring_buffer_new w
            then emit [Err ''Failed to create ring buffer''] (cleanup False (- 1))
            else emit [Acquire Ring,
                       Out (ljust 8 ''TIME'' @ '' '' @ ljust 5 ''EVENT'' @ '' '' @ ljust 16 ''COMM''
                              @ '' '' @ ljust 7 ''PID'' @ '' '' @ ljust 7 ''PPID'' @ '' ''
                              @ ''FILENAME/EXIT CODE'' @ [newline])]
                   (bootstrap_loop (bw_polls w) err (cleanup True))))"

declare bootstrap_main_def [app_defs]

section \<open>The abstract process table\<close>

text \<open>
  The start time of each live process: set by an exec, removed when the main thread exits.
\<close>

fun started_step :: "proc_event \<Rightarrow> (s32 \<rightharpoonup> u64) \<Rightarrow> (s32 \<rightharpoonup> u64)" where
  "started_step (Exec ctx) M = M(tgid_of (t_pid_tgid ctx) \<mapsto> t_ktime_ns ctx)"
| "started_step (Exit_task ctx) M =
     (if tgid_of (t_pid_tgid ctx) = tid_of (t_pid_tgid ctx)
      then M(tgid_of (t_pid_tgid ctx) := None) else M)"

definition started :: "proc_event list \<Rightarrow> s32 \<rightharpoonup> u64" where
  "started es = fold started_step es Map.empty"

lemma started_snoc [simp]: "started (es @ [e]) = started_step e (started es)"
  and started_Nil [simp]: "started [] = Map.empty"
  by (simp_all add: started_def)

lemma proc_run_snoc [simp]:
    "proc_run sops min_ns (es @ [e]) s = proc_step sops min_ns e (proc_run sops min_ns es s)"
  and proc_run_Nil [simp]: "proc_run sops min_ns [] s = s"
  by (simp_all add: proc_run_def)

text \<open>At no time are more processes live than the map has entries.\<close>

definition table_fits :: "proc_event list \<Rightarrow> bool" where
  "table_fits es \<longleftrightarrow>
     (\<forall>n \<le> length es. card (dom (started (take n es))) \<le> exec_start_max_entries)"

lemma table_fits_snoc:
  "table_fits (es @ [e]) \<longleftrightarrow>
     table_fits es \<and> card (dom (started_step e (started es))) \<le> exec_start_max_entries"
  by (auto simp: table_fits_def le_Suc_eq all_conj_distrib)

text \<open>The record that the exit of the main thread submits.\<close>

definition exit_record :: "task_ctx \<Rightarrow> u64 \<Rightarrow> event \<Rightarrow> event" where
  "exit_record ctx duration stale =
     stale\<lparr>e_exit_event := True, e_duration_ns := duration, e_pid := tgid_of (t_pid_tgid ctx),
       e_ppid := t_parent_tgid ctx,
       e_exit_code := signed_drop_bit 8 (t_exit_code ctx) AND 0xff,
       e_comm := copy_str TASK_COMM_LEN (t_comm ctx)\<rparr>"

text \<open>The records that one event adds in minimum-duration mode, from the process table.\<close>

fun reports :: "u64 \<Rightarrow> (s32 \<rightharpoonup> u64) \<Rightarrow> proc_event \<Rightarrow> event list" where
  "reports min_ns M (Exec ctx) = []"
| "reports min_ns M (Exit_task ctx) =
     (case (M (tgid_of (t_pid_tgid ctx)), t_reserve ctx) of
        (Some ts, Some stale) \<Rightarrow>
          if tgid_of (t_pid_tgid ctx) = tid_of (t_pid_tgid ctx) \<and> min_ns \<le> t_ktime_ns ctx - ts
          then [exit_record ctx (t_ktime_ns ctx - ts) stale] else []
      | _ \<Rightarrow> [])"

locale process_tracker = bpf_hash_map sops sinv exec_start_max_entries
  for sops :: "('m, s32, u64) map_ops" and sinv
begin

lemma step_table:
  assumes "sinv (exec_start s)" and "lookup_elem sops (exec_start s) = M"
    and "card (dom (started_step e M)) \<le> exec_start_max_entries"
  shows "sinv (exec_start (proc_step sops min_ns e s)) \<and>
    lookup_elem sops (exec_start (proc_step sops min_ns e s)) = started_step e M"
proof (cases e)
  case (Exec ctx)
  let ?pid = "tgid_of (t_pid_tgid ctx)"
  have eq: "exec_start (proc_step sops min_ns e s)
      = fst (update_elem sops (exec_start s) ?pid (t_ktime_ns ctx))"
    by (simp add: Exec handler_defs Let_def split: option.split)
  have "card (insert ?pid (dom (lookup_elem sops (exec_start s)))) \<le> exec_start_max_entries"
    using assms(2,3) by (simp add: Exec)
  from lookup_update_fits [OF assms(1) assms(1) this] inv_update_fst [OF assms(1)] assms(2) show ?thesis
    by (simp add: eq) (simp add: Exec)
next
  case (Exit_task ctx)
  let ?pid = "tgid_of (t_pid_tgid ctx)"
  have "exec_start (proc_step sops min_ns e s) = exec_start s \<and> started_step e M = M
      \<or> exec_start (proc_step sops min_ns e s) = fst (delete_elem sops (exec_start s) ?pid)
        \<and> started_step e M = M(?pid := None)"
    using assms(2)
    by (auto simp: Exit_task handler_defs Let_def fun_eq_iff split: option.split if_splits)
  then show ?thesis
    using assms(1,2) lookup_delete [OF assms(1)] inv_delete [OF assms(1)] by auto
qed

lemma run_table:
  assumes "sinv (exec_start s)" and "lookup_elem sops (exec_start s) = Map.empty"
    and "table_fits es"
  shows "sinv (exec_start (proc_run sops min_ns es s)) \<and>
    lookup_elem sops (exec_start (proc_run sops min_ns es s)) = started es"
  using assms(3)
proof (induction es rule: rev_induct)
  case (snoc e es)
  then show ?case by (simp add: table_fits_snoc step_table)
qed (use assms in simp)

lemma step_reports:
  assumes "lookup_elem sops (exec_start s) = M" and "min_ns \<noteq> 0"
  shows "rb (proc_step sops min_ns e s) = rb s @ reports min_ns M e"
  using assms
  by (cases e) (auto simp: handler_defs Let_def exit_record_def
      split: option.split if_splits)

lemma run_reports:
  assumes "sinv (exec_start s)" and "lookup_elem sops (exec_start s) = Map.empty"
    and "table_fits es" and "min_ns \<noteq> 0"
  shows "rb (proc_run sops min_ns es s)
    = rb s @ concat (map (\<lambda>n. reports min_ns (started (take n es)) (es ! n)) [0..<length es])"
  using assms(3)
proof (induction es rule: rev_induct)
  case (snoc e es)
  have fits: "table_fits es" using snoc.prems by (simp add: table_fits_snoc)
  show ?case
    using snoc.IH [OF fits] run_table [OF assms(1,2) fits] assms(4)
    unfolding concat_map_prefixes_snoc [of "\<lambda>xs. reports min_ns (started xs)"]
    by (simp add: step_reports)
qed simp

end

text \<open>Only the fields that the handlers set are printed: stale record contents never are.\<close>

fun restale :: "(event \<Rightarrow> event) \<Rightarrow> proc_event \<Rightarrow> proc_event" where
  "restale f (Exec ctx) = Exec (ctx\<lparr>t_reserve := map_option f (t_reserve ctx)\<rparr>)"
| "restale f (Exit_task ctx) = Exit_task (ctx\<lparr>t_reserve := map_option f (t_reserve ctx)\<rparr>)"

lemma step_restale:
  assumes "exec_start s = exec_start s'"
    and "map (bootstrap_handle_event ts) (rb s) = map (bootstrap_handle_event ts) (rb s')"
  shows "exec_start (proc_step sops min_ns (restale f e) s) = exec_start (proc_step sops min_ns e s')
    \<and> map (bootstrap_handle_event ts) (rb (proc_step sops min_ns (restale f e) s))
      = map (bootstrap_handle_event ts) (rb (proc_step sops min_ns e s'))"
  using assms
  by (cases e) (simp_all add: handler_defs Let_def bootstrap_handle_event_def
      split: option.split)

lemma run_restale:
  "exec_start (proc_run sops min_ns (map (restale f) es) s) = exec_start (proc_run sops min_ns es s)
    \<and> map (bootstrap_handle_event ts) (rb (proc_run sops min_ns (map (restale f) es) s))
      = map (bootstrap_handle_event ts) (rb (proc_run sops min_ns es s))"
proof (induction es rule: rev_induct)
  case (snoc e es)
  from step_restale [OF conjunct1 [OF snoc.IH] conjunct2 [OF snoc.IH]] show ?case by simp
qed simp

section \<open>The map of the program\<close>

abbreviation start_ops :: "((s32 \<times> u64) list, s32, u64) map_ops" where
  "start_ops \<equiv> alist_ops exec_start_max_entries"

interpretation bootstrap: process_tracker start_ops "alist_inv exec_start_max_entries"
  by unfold_locales

section \<open>Properties of the kernel side\<close>

text \<open>
  C7. Over any sequence of exec and exit tracepoints in which the live processes fit the map,
  \<^verbatim>\<open>exec_start\<close> holds exactly the start times of the processes that have called exec and whose
  main thread has not exited since: thread exits, the minimum duration and a full ring buffer
  never make it differ. The map's operations are any that obey the laws of a kernel hash map.\<close>

theorem process_table_exact:
  assumes "bpf_hash_map sops sinv exec_start_max_entries"
    and "sinv m" and "lookup_elem sops m = Map.empty" and "table_fits es"
  shows "lookup_elem sops (exec_start (proc_run sops min_ns es \<lparr>exec_start = m, rb = []\<rparr>)) pid
    = started es pid"
proof -
  from assms(1) have "process_tracker sops sinv" by (simp add: process_tracker_def)
  from process_tracker.run_table [OF this, of "\<lparr>exec_start = m, rb = []\<rparr>"] assms(2-4)
  show ?thesis by simp
qed

definition demo_ctx :: "u64 \<Rightarrow> u64 \<Rightarrow> task_ctx" where
  "demo_ctx ids ts = \<lparr>t_pid_tgid = ids, t_ktime_ns = ts, t_parent_tgid = 1, t_exit_code = 0x200,
     t_comm = ''sh'', t_data_loc_filename = 0x70018, t_string_at = (\<lambda>off. ''/bin/sh''),
     t_reserve = Some \<lparr>e_pid = 9, e_ppid = 9, e_exit_code = 9, e_duration_ns = 9, e_comm = ''old'',
       e_filename = ''old'', e_exit_event = True\<rparr>\<rparr>"

definition demo_procs :: "proc_event list" where
  "demo_procs = [Exec (demo_ctx 0x700000007 100), Exec (demo_ctx 0x800000008 200),
     Exit_task (demo_ctx 0x700000009 250), Exit_task (demo_ctx 0x700000007 300),
     Exit_task (demo_ctx 0x800000008 210)]"

lemma card_started: "finite (dom (started es)) \<and> card (dom (started es)) \<le> length es"
proof (induction es rule: rev_induct)
  case (snoc e es)
  have "dom (started_step e (started es)) \<subseteq> dom (started es)
      \<or> (\<exists>p. dom (started_step e (started es)) = insert p (dom (started es)))"
    by (cases e) (auto split: if_splits)
  then show ?case using snoc
    by (auto intro: finite_subset simp: card_insert_if dest: card_mono [rotated])
qed simp

lemma few_events_fit: "length es \<le> exec_start_max_entries \<Longrightarrow> table_fits es"
  using card_started by (auto simp: table_fits_def intro!: order.trans [OF conjunct2 [OF card_started]])

lemma demo_procs_fit: "table_fits demo_procs"
  by (rule few_events_fit) (simp add: demo_procs_def)

theorem process_table_exact_witness:
  "lookup_elem start_ops (exec_start (proc_run start_ops 0 demo_procs \<lparr>exec_start = [], rb = []\<rparr>)) 7
   = started demo_procs 7"
  by (rule process_table_exact [OF alist_map_axioms _ _ demo_procs_fit]) simp_all

text \<open>
  C8. With a minimum duration, the ring buffer receives, in order, one record for each exit of a
  main thread whose process was started at least that long ago (and for which the buffer has
  room), with the lifetime, the parent, the exit status and the name; and nothing else.\<close>

theorem lifetimes_reported:
  assumes "bpf_hash_map sops sinv exec_start_max_entries"
    and "sinv m" and "lookup_elem sops m = Map.empty" and "table_fits es" and "min_ns \<noteq> 0"
  shows "rb (proc_run sops min_ns es \<lparr>exec_start = m, rb = []\<rparr>)
    = concat (map (\<lambda>n. reports min_ns (started (take n es)) (es ! n)) [0..<length es])"
proof -
  from assms(1) have "process_tracker sops sinv" by (simp add: process_tracker_def)
  from process_tracker.run_reports [OF this, of "\<lparr>exec_start = m, rb = []\<rparr>"] assms(2-5)
  show ?thesis by simp
qed

lemma upt_5: "[0..<5] = [0, 1, 2, 3, 4 :: nat]"
  by (simp add: upt_rec)

theorem lifetimes_reported_witness:
  "map (\<lambda>e. (e_pid e, e_duration_ns e, e_exit_code e, e_comm e))
     (rb (proc_run start_ops 50 demo_procs \<lparr>exec_start = [], rb = []\<rparr>)) = [(7, 200, 2, ''sh'')]"
  by (subst lifetimes_reported [OF alist_map_axioms alist_inv_Nil _ demo_procs_fit])
    (simp_all add: demo_procs_def demo_ctx_def upt_5 started_def tgid_of_def tid_of_def
      exit_record_def copy_str_def)

text \<open>
  C26. Whatever the reserved records held before, the lines printed for them are the same: no
  uninitialised ring-buffer byte reaches the output.\<close>

theorem printed_lines_ignore_stale_records:
  "map (bootstrap_handle_event ts) (rb (proc_run sops min_ns (map (restale f) es) s))
    = map (bootstrap_handle_event ts) (rb (proc_run sops min_ns es s))"
  using run_restale by blast

section \<open>Properties of the user-space side\<close>

lemma parse_duration:
  assumes "0 < n" "n \<le> LONG_MAX"
  shows "bootstrap_parse_arg (Key CHR ''d'') (dec_int n) env = Arg_ok (env\<lparr>env_min_duration_ms := n\<rparr>)"
  using assms by (simp add: bootstrap_parse_arg_def strtol10_dec_int)

lemma uint_min_duration_of: "uint (min_duration_of env) = env_min_duration_ms env * 1000000 mod 2 ^ 64"
  by (simp add: min_duration_of_def uint_word_ariths uint_word_of_int mod_mult_left_eq)

text \<open>
  C27. Every duration that \<^verbatim>\<open>-d\<close> accepts is positive, a decimal number from 1 to \<^verbatim>\<open>LONG_MAX\<close> is
  accepted as it is, and the threshold in nanoseconds handed to the kernel side is the exact
  product if and only if it fits 64 bits: larger durations wrap around.\<close>

theorem duration_option:
  assumes "0 < n" "n \<le> LONG_MAX"
  shows "bootstrap_parse_arg (Key CHR ''d'') (dec_int n) env = Arg_ok (env\<lparr>env_min_duration_ms := n\<rparr>)
    \<and> (uint (min_duration_of (env\<lparr>env_min_duration_ms := n\<rparr>)) = n * 1000000
       \<longleftrightarrow> n * 1000000 < 2 ^ 64)
    \<and> (bootstrap_parse_arg (Key CHR ''d'') arg env = Arg_ok env' \<longrightarrow>
        0 < env_min_duration_ms env' \<and> env_min_duration_ms env' \<le> LONG_MAX)"
proof (intro conjI)
  show "uint (min_duration_of (env\<lparr>env_min_duration_ms := n\<rparr>)) = n * 1000000 \<longleftrightarrow> n * 1000000 < 2 ^ 64"
    using assms(1) by (auto simp: uint_min_duration_of mod_pos_pos_trivial)
qed (rule parse_duration [OF assms], auto simp: bootstrap_parse_arg_def strtol10_def
      split: option.splits if_splits)

text \<open>The smallest threshold that wraps stands for 584 years and filters out half a millisecond.\<close>

theorem duration_option_witness:
  "bootstrap_parse_arg (Key CHR ''d'') (dec_int 18446744073710) \<lparr>env_verbose = True, env_min_duration_ms = 0\<rparr>
     = Arg_ok \<lparr>env_verbose = True, env_min_duration_ms = 18446744073710\<rparr>
   \<and> min_duration_of \<lparr>env_verbose = True, env_min_duration_ms = 18446744073710\<rparr> = 448384"
  using duration_option [of 18446744073710 "\<lparr>env_verbose = True, env_min_duration_ms = 0\<rparr>"]
  by (simp add: min_duration_of_def)

lemma bootstrap_loop_clean:
  assumes "\<And>err. clean H (cleanup err)" "Ring \<in> set H"
  shows "clean H (bootstrap_loop ps err cleanup)"
  using assms by (induction ps arbitrary: err) (auto simp: Let_def)

lemma bootstrap_args_quiet: "argp_run bootstrap_parse_arg args env = Inl usage \<Longrightarrow> owned H usage = Some H"
  by (rule argp_run_quiet) (auto simp: bootstrap_parse_arg_def split: arg_key.splits if_splits prod.splits)

lemma bootstrap_loop_stop:
  assumes "\<forall>p \<in> set ps. \<not> p_exiting p \<and> 0 \<le> p_result p" "p_exiting q"
  shows "snd (bootstrap_loop (ps @ [q]) err k) = snd (k (if ps = [] then err else p_result (last ps)))"
  using assms by (induction ps arbitrary: err) (auto simp: Let_def)

interpretation bootstrap_app: program bootstrap_main "\<lambda>_. True"
  by unfold_locales
    (simp add: app_defs Let_def bootstrap_loop_clean bootstrap_args_quiet split: sum.split)

end
