(* ===== verification/Packets.thy ===== *)
theory Packets
  imports C_Text
begin

text \<open>
  Ethernet and IPv4 as the packet programs see them: frames are byte lists, multi-byte fields are
  read into little-endian machine words, and \<open>encode\<close> lays out a frame from its header fields
  (the layout of \<^verbatim>\<open>struct ethhdr\<close> and \<^verbatim>\<open>struct iphdr\<close>). The kernel helper \<^verbatim>\<open>bpf_skb_load_bytes\<close> is
  an argument of the programs that call it; the locale \<open>skb_loader\<close> holds what they rely on.
\<close>

unbundle bit_operations_syntax

type_synonym bytes = "u8 list"

section \<open>Words in memory\<close>

fun le16 :: "bytes \<Rightarrow> u16" where
  "le16 [a, b] = ucast a OR push_bit 8 (ucast b)"
| "le16 _ = 0"

fun le32 :: "bytes \<Rightarrow> u32" where
  "le32 [a, b, c, d] =
     ucast a OR push_bit 8 (ucast b) OR push_bit 16 (ucast c) OR push_bit 24 (ucast d)"
| "le32 _ = 0"

text \<open>Network byte order.\<close>

definition be_bytes16 :: "u16 \<Rightarrow> bytes" where
  "be_bytes16 x = [ucast (drop_bit 8 x), ucast x]"

definition be_bytes32 :: "u32 \<Rightarrow> bytes" where
  "be_bytes32 x = [ucast (drop_bit 24 x), ucast (drop_bit 16 x), ucast (drop_bit 8 x), ucast x]"

lemma length_be_bytes [simp]: "length (be_bytes16 x) = 2" "length (be_bytes32 y) = 4"
  by (simp_all add: be_bytes16_def be_bytes32_def)

lemma le16_be_bytes16 [simp]: "le16 (be_bytes16 x) = bswap16 x"
  by (rule bit_word_eqI) (auto simp: be_bytes16_def bswap16_def bit_simps dest: bit_imp_le_length)

lemma byte_position:
  assumes "n < (32 :: nat)"
  obtains k where "k < 8" and "n = k \<or> n = 8 + k \<or> n = 16 + k \<or> n = 24 + k"
proof
  show "n mod 8 < 8" by simp
  show "n = n mod 8 \<or> n = 8 + n mod 8 \<or> n = 16 + n mod 8 \<or> n = 24 + n mod 8"
    using assms by presburger
qed

lemma le32_be_bytes32 [simp]: "le32 (be_bytes32 x) = bswap32 x"
proof (rule bit_word_eqI)
  fix n
  assume "n < LENGTH(32)"
  then have "n < 32" by simp
  then show "bit (le32 (be_bytes32 x)) n \<longleftrightarrow> bit (bswap32 x) n"
    by (rule byte_position, elim disjE)
      (auto simp: be_bytes32_def bswap32_def bit_simps dest: bit_imp_le_length)
qed

text \<open>Two 16-bit fields loaded together, as the two halves of a word.\<close>

lemma le32_halves:
  "ucast (le32 (be_bytes16 x @ be_bytes16 y)) = bswap16 x"
  "ucast (drop_bit 16 (le32 (be_bytes16 x @ be_bytes16 y))) = bswap16 y"
  by (rule bit_word_eqI, auto simp: be_bytes16_def bswap16_def bit_simps dest: bit_imp_le_length)
    (rule bit_word_eqI, auto simp: be_bytes16_def bswap16_def bit_simps dest: bit_imp_le_length)

text \<open>Conditions on a field that was loaded in machine order, byte by byte.\<close>

lemma be_bytes16_bswap16 [simp]: "be_bytes16 (bswap16 (le16 [a, b])) = [a, b]"
proof -
  have "ucast (drop_bit 8 (bswap16 (le16 [a, b]))) = a" "ucast (bswap16 (le16 [a, b])) = b"
    by (rule bit_word_eqI, auto simp: bswap16_def bit_simps dest: bit_imp_le_length)
      (rule bit_word_eqI, auto simp: bswap16_def bit_simps dest: bit_imp_le_length)
  then show ?thesis by (simp add: be_bytes16_def)
qed

lemma be_bytes16_inj: "be_bytes16 x = be_bytes16 y \<longleftrightarrow> x = y"
  by (metis bswap16_bswap16 le16_be_bytes16)

lemma be_bytes16_and: "be_bytes16 (x AND y) = map2 (AND) (be_bytes16 x) (be_bytes16 y)"
  by (auto simp: be_bytes16_def intro!: bit_word_eqI simp: bit_simps)

lemma swapped_eq: "bswap16 (le16 [a, b]) = x \<longleftrightarrow> [a, b] = be_bytes16 x"
  using be_bytes16_inj [of "bswap16 (le16 [a, b])" x] by (simp del: le16.simps)

lemma swapped_and_eq_0:
  "bswap16 (le16 [a, b]) AND x = 0 \<longleftrightarrow> map2 (AND) [a, b] (be_bytes16 x) = [0, 0]"
  using be_bytes16_inj [of "bswap16 (le16 [a, b]) AND x" 0]
  by (simp add: be_bytes16_and del: le16.simps) (simp add: be_bytes16_def)

lemma be_bytes16_consts: "be_bytes16 0x0800 = [0x08, 0x00]" "be_bytes16 0x3FFF = [0x3F, 0xFF]"
  by (simp_all add: be_bytes16_def word_eq_iff_unsigned [where 'a = int])

lemma and_byte_255: "x AND 0xFF = (x :: u8)"
proof -
  have "(0xFF :: u8) = - 1"
    by (simp add: word_eq_iff_unsigned [where 'a = int] unsigned_minus_1_eq_mask mask_eq_exp_minus_1)
  then show ?thesis by (simp only: and.right_neutral)
qed

lemma unat_less_256: "unat (b :: u8) < 256"
  using unsigned_less [of b, where 'a = nat] by simp

lemma unat_byte: "unat (ucast (b :: u8) :: u32) = unat b"
  using unat_less_256 [of b] by (simp add: unsigned_ucast_eq take_bit_nat_eq_self)

section \<open>Frames\<close>

abbreviation ETH_P_IP :: u16 where "ETH_P_IP \<equiv> 0x0800"
abbreviation ETH_HLEN :: u32 where "ETH_HLEN \<equiv> 14"

record frame =
  f_macs :: bytes \<comment> \<open>destination and source addresses\<close>
  f_ethertype :: u16
  f_tos :: u8
  f_tot_len :: u16
  f_id :: u16
  f_frag :: u16 \<comment> \<open>flags and fragment offset\<close>
  f_ttl :: u8
  f_protocol :: u8
  f_check :: u16
  f_saddr :: u32
  f_daddr :: u32
  f_options :: bytes
  f_payload :: bytes

definition wf_frame :: "frame \<Rightarrow> bool" where
  "wf_frame p \<longleftrightarrow> length (f_macs p) = 12 \<and> length (f_options p) mod 4 = 0 \<and> length (f_options p) \<le> 40"

definition f_verlen :: "frame \<Rightarrow> u8" where
  "f_verlen p = 0x40 OR word_of_nat (5 + length (f_options p) div 4)"

definition encode :: "frame \<Rightarrow> bytes" where
  "encode p = f_macs p @ be_bytes16 (f_ethertype p)
     @ [f_verlen p, f_tos p] @ be_bytes16 (f_tot_len p) @ be_bytes16 (f_id p)
     @ be_bytes16 (f_frag p) @ [f_ttl p, f_protocol p] @ be_bytes16 (f_check p)
     @ be_bytes32 (f_saddr p) @ be_bytes32 (f_daddr p) @ f_options p @ f_payload p"

lemma length_encode:
  "wf_frame p \<Longrightarrow> length (encode p) = 34 + length (f_options p) + length (f_payload p)"
  by (simp add: encode_def wf_frame_def)

text \<open>Where the fields are.\<close>

lemma encode_fields:
  assumes "wf_frame p"
  shows "take 2 (drop 12 (encode p)) = be_bytes16 (f_ethertype p)"
    and "take 1 (drop 14 (encode p)) = [f_verlen p]"
    and "take 2 (drop 16 (encode p)) = be_bytes16 (f_tot_len p)"
    and "take 2 (drop 20 (encode p)) = be_bytes16 (f_frag p)"
    and "take 1 (drop 22 (encode p)) = [f_ttl p]"
    and "take 1 (drop 23 (encode p)) = [f_protocol p]"
    and "take 4 (drop 26 (encode p)) = be_bytes32 (f_saddr p)"
    and "take 4 (drop 30 (encode p)) = be_bytes32 (f_daddr p)"
  using assms
  by (simp_all add: encode_def wf_frame_def be_bytes16_def be_bytes32_def numeral_2_eq_2 [symmetric])

lemma encode_payload:
  assumes "wf_frame p"
  shows "drop (34 + length (f_options p)) (encode p) = f_payload p"
proof -
  define h where "h = take 34 (encode p)"
  have "encode p = h @ f_options p @ f_payload p" and "length h = 34"
    using assms by (simp_all add: h_def encode_def wf_frame_def be_bytes16_def be_bytes32_def)
  then show ?thesis by simp
qed

text \<open>The header length that the version byte encodes.\<close>

lemma header_length:
  assumes "wf_frame p"
  shows "unat (push_bit 2 (ucast (f_verlen p) AND 0xF) :: u32) = 20 + length (f_options p)"
proof -
  obtain k where k: "length (f_options p) = 4 * k" "k \<le> 10"
    using assms by (auto simp: wf_frame_def elim!: dvdE simp flip: dvd_eq_mod_eq_0)
  from k(2) have "k = 0 \<or> k = 1 \<or> k = 2 \<or> k = 3 \<or> k = 4 \<or> k = 5 \<or> k = 6 \<or> k = 7 \<or> k = 8 \<or> k = 9 \<or> k = 10"
    by presburger
  with k(1) show ?thesis by (elim disjE) (simp_all add: f_verlen_def)
qed

section \<open>Reading a socket buffer\<close>

type_synonym loader = "bytes \<Rightarrow> u32 \<Rightarrow> nat \<Rightarrow> bytes"

text \<open>
  \<^verbatim>\<open>bpf_skb_load_bytes(skb, off, to, len)\<close> writes \<open>len\<close> bytes: those of the packet when they are all
  inside it. What it writes otherwise is left open.
\<close>

locale skb_loader =
  fixes load_bytes :: loader
  assumes load_inside: "unat off + n \<le> length data \<Longrightarrow>
      load_bytes data off n = take n (drop (unat off) data)"
    and length_load: "length (load_bytes data off n) = n"

text \<open>The kernel's helper clears the destination when the bytes are not all there.\<close>

definition clearing_load :: loader where
  "clearing_load data off n =
     (if unat off + n \<le> length data then take n (drop (unat off) data) else replicate n 0)"

interpretation clearing: skb_loader clearing_load
  by unfold_locales (auto simp: clearing_load_def)

end
