(* ===== verification/Socket_Filter.thy ===== *)
theory Socket_Filter
  imports Packets App_Lifecycle
begin

text \<open>
  The socket filter, \<^verbatim>\<open>examples/c/sockfilter.bpf.c\<close> and \<^verbatim>\<open>sockfilter.c\<close>: a BPF program on a raw socket
  sends one record per unfragmented IPv4 packet through a ring buffer; the user-space side prints
  source and destination. The program writes only one byte of the 32-bit field \<^verbatim>\<open>ip_proto\<close> and no
  addresses for GRE: what it leaves is the previous content of the record (\<open>stale\<close>).
\<close>

section \<open>The BPF program\<close>

abbreviation IP_MF :: u16 where "IP_MF \<equiv> 0x2000"
abbreviation IP_OFFSET :: u16 where "IP_OFFSET \<equiv> 0x1FFF"
abbreviation IPPROTO_GRE :: u32 where "IPPROTO_GRE \<equiv> 47"

text \<open>Offsets in \<^verbatim>\<open>struct iphdr\<close>.\<close>

abbreviation off_frag_off :: u32 where "off_frag_off \<equiv> 6"
abbreviation off_protocol :: u32 where "off_protocol \<equiv> 9"
abbreviation off_saddr :: u32 where "off_saddr \<equiv> 12"
abbreviation off_daddr :: u32 where "off_daddr \<equiv> 16"

record so_event =
  src_addr :: u32
  dst_addr :: u32
  ports :: u32
  ip_proto :: u32
  pkt_type :: u32
  ifindex :: u32

text \<open>The two halves of the union with \<^verbatim>\<open>ports\<close>.\<close>

definition port16 :: "so_event \<Rightarrow> nat \<Rightarrow> u16" where
  "port16 e i = (if i = 0 then ucast (ports e) else ucast (drop_bit 16 (ports e)))"

record sk_buff =
  skb_data :: bytes
  skb_pkt_type :: u32
  skb_ifindex :: u32
  skb_len :: u32

definition ip_is_fragment :: "loader \<Rightarrow> sk_buff \<Rightarrow> u32 \<Rightarrow> u16" where
  "ip_is_fragment load_bytes skb nhoff =
    (let frag_off = le16 (load_bytes (skb_data skb) (nhoff + off_frag_off) 2);
         frag_off = bswap16 frag_off
     in frag_off AND (IP_MF OR IP_OFFSET))"

text \<open>One byte stored at the address of a little-endian word.\<close>

definition set_low_byte :: "u8 \<Rightarrow> u32 \<Rightarrow> u32" where
  "set_low_byte b w = (w AND NOT 0xFF) OR ucast b"

text \<open>The records submitted so far and the verdict: how many bytes of the packet to keep.\<close>

definition socket_handler ::
  "loader \<Rightarrow> so_event option \<Rightarrow> sk_buff \<Rightarrow> so_event list \<Rightarrow> so_event list \<times> u32" where
  "socket_handler load_bytes reserve skb rb =
    (let load = load_bytes (skb_data skb);
         nhoff = ETH_HLEN;
         proto = bswap16 (le16 (load 12 2))
     in if proto \<noteq> ETH_P_IP then (rb, 0)
        else if ip_is_fragment load_bytes skb nhoff \<noteq> 0 then (rb, 0)
        else case reserve of
          None \<Rightarrow> (rb, 0)
        | Some e \<Rightarrow>
           (let e = e\<lparr>ip_proto := set_low_byte (hd (load (nhoff + off_protocol) 1)) (ip_proto e)\<rparr>;
                e = (if ip_proto e \<noteq> IPPROTO_GRE
                     then e\<lparr>src_addr := le32 (load (nhoff + off_saddr) 4),
                            dst_addr := le32 (load (nhoff + off_daddr) 4)\<rparr>
                     else e);
                verlen = hd (load (nhoff + 0) 1);
                e = e\<lparr>ports := le32 (load (nhoff + push_bit 2 (ucast verlen AND 0xF)) 4),
                      pkt_type := skb_pkt_type skb, ifindex := skb_ifindex skb\<rparr>
            in (rb @ [e], skb_len skb)))"

section \<open>Printing\<close>

definition ltoa :: "u32 \<Rightarrow> string" where
  "ltoa addr =
     snprintf 16 (dec_int (uint (drop_bit 24 addr AND 0xFF)) @ ''.''
       @ dec_int (uint (drop_bit 16 addr AND 0xFF)) @ ''.''
       @ dec_int (uint (drop_bit 8 addr AND 0xFF)) @ ''.'' @ dec_int (uint (addr AND 0xFF)))"

text \<open>The names; the other slots of the table are null pointers.\<close>

definition ipproto_mapping :: "nat \<Rightarrow> string option" where
  "ipproto_mapping = map_of
     [(0, ''IP''), (1, ''ICMP''), (2, ''IGMP''), (4, ''IPIP''), (6, ''TCP''), (8, ''EGP''), (12, ''PUP''),
      (17, ''UDP''), (22, ''IDP''), (29, ''TP''), (33, ''DCCP''), (41, ''IPV6''), (46, ''RSVP''),
      (47, ''GRE''), (50, ''ESP''), (51, ''AH''), (92, ''MTP''), (94, ''BEETPH''), (98, ''ENCAP''),
      (103, ''PIM''), (108, ''COMP''), (132, ''SCTP''), (136, ''UDPLITE''), (137, ''MPLS''), (255, ''RAW'')]"

abbreviation PACKET_HOST :: u32 where "PACKET_HOST \<equiv> 0"
abbreviation tab :: char where "tab \<equiv> CHR 0x09"

text \<open>Nothing, a line, or \<^verbatim>\<open>printf("%s", NULL)\<close>, whose behaviour is undefined.\<close>

datatype printed = Silent | Line string | Null_string

text \<open>
  \<open>ipproto_max\<close> is \<^verbatim>\<open>IPPROTO_MAX\<close>, which depends on the kernel headers (more than 255 in all of
  them); \<open>indextoname\<close> is \<^verbatim>\<open>if_indextoname\<close>.
\<close>

definition sockfilter_handle_event :: "u32 \<Rightarrow> (u32 \<Rightarrow> string option) \<Rightarrow> so_event \<Rightarrow> printed" where
  "sockfilter_handle_event ipproto_max indextoname e =
    (if pkt_type e \<noteq> PACKET_HOST then Silent
     else if ip_proto e \<ge> ipproto_max then Silent
     else case indextoname (ifindex e) of
       None \<Rightarrow> Silent
     | Some ifname \<Rightarrow>
        (let sstr = ltoa (bswap32 (src_addr e)); dstr = ltoa (bswap32 (dst_addr e)) in
         case ipproto_mapping (unat (ip_proto e)) of
           None \<Rightarrow> Null_string
         | Some proto \<Rightarrow>
            Line (''interface: '' @ ifname @ [tab] @ ''protocol: '' @ proto @ [tab]
                    @ sstr @ '':'' @ dec_int (uint (bswap16 (port16 e 0))) @ ''(src) -> ''
                    @ dstr @ '':'' @ dec_int (uint (bswap16 (port16 e 1))) @ ''(dst)'' @ [newline])))"

section \<open>The main program\<close>

text \<open>The only setting is the name of the interface.\<close>

definition sockfilter_parse_arg :: "arg_key \<Rightarrow> string \<Rightarrow> string \<Rightarrow> string arg_result" where
  "sockfilter_parse_arg key arg interface =
    (case key of
       Key c \<Rightarrow> if c = CHR ''i'' then Arg_ok arg else Arg_unknown
     | Key_arg \<Rightarrow> Arg_usage []
     | Key_other \<Rightarrow> Arg_unknown)"

record sockfilter_world =
  sw_args :: "(arg_key \<times> string) list"
  sw_argp_err :: int
  sw_open_and_load :: bool
  sw_ring_buffer_new :: bool
  sw_socket :: bool
  sw_bind :: bool
  sw_setsockopt :: bool
  sw_polls :: "printed poll list"

text \<open>The socket's descriptor, or nothing where the function returns \<open>-1\<close>.\<close>

definition open_raw_sock :: "sockfilter_world \<Rightarrow> string \<Rightarrow> act list \<times> bool" where
  "open_raw_sock w name =
    (if \<not> sw_socket w then ([Err ''Failed to create raw socket''], False)
     else if \<not> sw_bind w then ([Acquire Sock, Err (''Failed to bind to '' @ name), Release Sock], False)
     else ([Acquire Sock], True))"

fun print_act :: "printed \<Rightarrow> act list" where
  "print_act Silent = []"
| "print_act (Line s) = [Out s]"
| "print_act Null_string = [Out ''(null)'']"

fun sockfilter_loop :: "printed poll list \<Rightarrow> int \<Rightarrow> (int \<Rightarrow> run) \<Rightarrow> run" where
  "sockfilter_loop [] err cleanup = ([], Running)"
| "sockfilter_loop (p # ps) err cleanup =
     (if p_exiting p then cleanup err
      else emit (Use Ring # concat (map print_act (p_events p)))
        (let err = p_result p in
         if err = - EINTR then cleanup 0
         else if err < 0
           then emit [Err (''Error polling perf buffer: '' @ dec_int err @ [newline])] (cleanup err)
           else sockfilter_loop ps err cleanup))"

definition sockfilter_main :: "sockfilter_world \<Rightarrow> run" where
  "sockfilter_main w =
    (case argp_run sockfilter_parse_arg (sw_args w) ''lo'' of
      Inl usage \<Rightarrow> (usage, Exit argp_err_exit_status)
    | Inr interface \<Rightarrow>
     let err = sw_argp_err w in
     if err \<noteq> 0 then ([], Exit (- err))
     else if \<not> sw_open_and_load w then ([Err ''Failed to open and load BPF skeleton''], Exit 1)
     else emit [Acquire Skel]
       (let cleanup = (\<lambda>ring err. (release_if ring Ring @ [Release Skel], Exit (- err))) in
        if \<not> sw_ring_buffer_new w
        then emit [Err ''Failed to create ring buffer''] (cleanup False (- 1))
        else let (sock_acts, sock) = open_raw_sock w interface in
        emit (Acquire Ring # sock_acts)
          (if \<not> sock
           then emit [Err ''Failed to open raw socket''] (cleanup True (- 2))
           else if \<not> sw_setsockopt w
             then emit [Err ''Failed to attach to raw socket''] (cleanup True (- 3))
             else sockfilter_loop (sw_polls w) err (cleanup True))))"

declare socket_handler_def [handler_defs] sockfilter_main_def [app_defs]

section \<open>Lemmas\<close>

text \<open>Fields that end with the same separator can be split in one way only.\<close>

lemma sep_inj:
  assumes "c \<notin> set xs" "c \<notin> set xs'"
  shows "xs @ c # ys = xs' @ c # ys' \<longleftrightarrow> xs = xs' \<and> ys = ys'"
  using assms by (auto simp: append_eq_append_conv2 Cons_eq_append_conv append_eq_Cons_conv)

definition octet :: "u32 \<Rightarrow> nat \<Rightarrow> u32" where
  "octet a n = take_bit 8 (drop_bit (8 * n) a)"

lemma and_255: "x AND 0xFF = take_bit 8 (x :: u32)"
  by (simp add: take_bit_eq_mask mask_eq_exp_minus_1)

lemma uint_octet: "0 \<le> uint (octet a n)" "uint (octet a n) < 256"
  using take_bit_int_less_exp [of 8] by (simp_all add: octet_def unsigned_take_bit_eq)

lemma dec_octet: "length (dec_int (uint (octet a n))) \<le> 3" "CHR ''.'' \<notin> set (dec_int (uint (octet a n)))"
proof -
  have "\<not> isdigit (CHR ''.'')" by (simp add: isdigit_def)
  then show "CHR ''.'' \<notin> set (dec_int (uint (octet a n)))"
    using uint_octet(1) [of a n] to_base10_digits by (auto simp: dec_int_def)
  show "length (dec_int (uint (octet a n))) \<le> 3"
    using uint_octet [of a n] length_to_base [of 10 3 "nat (uint (octet a n))"]
    by (simp add: dec_int_def unat_eq_nat_uint del: nat_uint_eq)
qed

definition dotted :: "u32 \<Rightarrow> string" where
  "dotted a = dec_int (uint (octet a 3)) @ ''.'' @ dec_int (uint (octet a 2)) @ ''.''
     @ dec_int (uint (octet a 1)) @ ''.'' @ dec_int (uint (octet a 0))"

lemma length_dotted: "length (dotted a) < 16"
  using dec_octet(1) [of a 3] dec_octet(1) [of a 2] dec_octet(1) [of a 1] dec_octet(1) [of a 0]
  by (simp add: dotted_def)

lemma ltoa_dotted: "ltoa a = dotted a"
proof -
  have "ltoa a = snprintf 16 (dotted a)" by (simp add: ltoa_def dotted_def octet_def and_255)
  with length_dotted [of a] show ?thesis by simp
qed

lemma octets_eq:
  assumes "octet a 3 = octet b 3" "octet a 2 = octet b 2" "octet a 1 = octet b 1" "octet a 0 = octet b 0"
  shows "a = b"
proof (rule bit_word_eqI)
  fix n
  assume "n < LENGTH(32)"
  then have "n < 32" by simp
  have bits: "bit w (8 * j + k) \<longleftrightarrow> bit (octet w j) k" if "k < 8" for w j k
    using that by (simp add: octet_def bit_simps)
  from \<open>n < 32\<close> show "bit a n \<longleftrightarrow> bit b n"
  proof (rule byte_position)
    fix k
    assume "k < 8" and "n = k \<or> n = 8 + k \<or> n = 16 + k \<or> n = 24 + k"
    then show ?thesis
      using bits [of k a 0] bits [of k a 1] bits [of k a 2] bits [of k a 3] assms
        bits [of k b 0] bits [of k b 1] bits [of k b 2] bits [of k b 3] by auto
  qed
qed

lemma dotted_inj: "dotted a = dotted b \<longleftrightarrow> a = b"
  by (auto simp: dotted_def sep_inj dec_octet(2) dec_int_inj word_uint_eq_iff [symmetric]
      intro: octets_eq)

text \<open>The byte that the program stores does not touch the upper bytes of the word.\<close>

lemma set_low_byte_bits:
  "bit (set_low_byte b w) n \<longleftrightarrow> (if n < 8 then bit b n else bit w n)"
proof -
  have m: "(0xFF :: u32) = mask 8" by (simp add: mask_eq_exp_minus_1)
  show ?thesis
    by (auto simp: set_low_byte_def m bit_simps dest: bit_imp_le_length)
qed

lemma drop_bit_set_low_byte: "drop_bit 8 (set_low_byte b w) = drop_bit 8 w"
  by (rule bit_word_eqI) (simp add: bit_drop_bit_eq set_low_byte_bits)

lemma word_less_256: "w < 256 \<longleftrightarrow> drop_bit 8 (w :: u32) = 0"
  by (simp add: word_less_nat_alt word_unat_eq_iff unat_div drop_bit_eq_div div_eq_0_iff)

lemma set_low_byte_small:
  assumes "w < 256"
  shows "set_low_byte b w = ucast b"
proof (rule bit_word_eqI)
  fix n
  have "bit w n \<longleftrightarrow> bit (drop_bit 8 w) (n - 8)" if "8 \<le> n"
    using that by (simp add: bit_drop_bit_eq)
  with assms show "bit (set_low_byte b w) n \<longleftrightarrow> bit (ucast b :: u32) n"
    by (auto simp: word_less_256 set_low_byte_bits bit_simps dest: bit_imp_le_length)
qed

section \<open>The filter on well-formed frames\<close>

text \<open>What the program loads from a frame, for any loader that obeys its contract.\<close>

context skb_loader
begin

lemma load_frame:
  assumes "wf_frame p"
  shows "load_bytes (encode p) 12 2 = be_bytes16 (f_ethertype p)"
    and "load_bytes (encode p) 14 1 = [f_verlen p]"
    and "load_bytes (encode p) 20 2 = be_bytes16 (f_frag p)"
    and "load_bytes (encode p) 23 1 = [f_protocol p]"
    and "load_bytes (encode p) 26 4 = be_bytes32 (f_saddr p)"
    and "load_bytes (encode p) 30 4 = be_bytes32 (f_daddr p)"
  by (simp_all add: load_inside length_encode [OF assms] encode_fields [OF assms] del: One_nat_def)

lemma load_payload:
  assumes "wf_frame p" "4 \<le> length (f_payload p)"
  shows "load_bytes (encode p) (14 + push_bit 2 (ucast (f_verlen p) AND 0xF)) 4 = take 4 (f_payload p)"
proof -
  let ?h = "push_bit 2 (ucast (f_verlen p) AND 0xF) :: u32"
  have h: "unat ?h = 20 + length (f_options p)" by (rule header_length [OF assms(1)])
  moreover have "length (f_options p) \<le> 40" using assms(1) by (simp add: wf_frame_def)
  ultimately have "unat (14 + ?h) = 34 + length (f_options p)"
    by (subst unat_add_lem [THEN iffD1]) simp_all
  then show ?thesis
    using encode_payload [OF assms(1)] assms(2) length_encode [OF assms(1)]
    by (simp add: load_inside)
qed

lemma fragment_frame:
  assumes "wf_frame p" "skb_data skb = encode p"
  shows "ip_is_fragment load_bytes skb ETH_HLEN = f_frag p AND 0x3FFF"
  by (simp add: ip_is_fragment_def assms(2) load_frame [OF assms(1)])

text \<open>The whole program on a frame: which record it sends.\<close>

lemma handler_frame:
  assumes "wf_frame p" "skb_data skb = encode p" "4 \<le> length (f_payload p)"
  shows "socket_handler load_bytes reserve skb rb =
    (if f_ethertype p = ETH_P_IP \<and> f_frag p AND 0x3FFF = 0 \<and> reserve \<noteq> None
     then (rb @ [let stale = the reserve; proto = set_low_byte (f_protocol p) (ip_proto stale) in
             \<lparr>src_addr = if proto = IPPROTO_GRE then src_addr stale else bswap32 (f_saddr p),
              dst_addr = if proto = IPPROTO_GRE then dst_addr stale else bswap32 (f_daddr p),
              ports = le32 (take 4 (f_payload p)), ip_proto = proto,
              pkt_type = skb_pkt_type skb, ifindex = skb_ifindex skb\<rparr>], skb_len skb)
     else (rb, 0))"
proof (cases reserve)
  case (Some e)
  then show ?thesis
    using fragment_frame [OF assms(1,2)]
    by (cases e) (simp add: handler_defs Let_def assms(2) load_frame [OF assms(1), simplified]
        load_payload [OF assms(1,3), simplified])
qed (simp add: handler_defs Let_def)

lemma handler_selects:
  assumes "22 \<le> length (skb_data skb)"
  shows "fst (socket_handler load_bytes reserve skb rb) \<noteq> rb \<longleftrightarrow>
    skb_data skb ! 12 = 0x08 \<and> skb_data skb ! 13 = 0x00 \<and>
    skb_data skb ! 20 AND 0x3F = 0 \<and> skb_data skb ! 21 = 0 \<and> reserve \<noteq> None"
proof -
  have two: "load_bytes (skb_data skb) off 2 = [skb_data skb ! unat off, skb_data skb ! Suc (unat off)]"
    if "unat off \<le> 20" for off
    using that assms
    by (simp add: load_inside numeral_2_eq_2 Cons_nth_drop_Suc [symmetric])
  show ?thesis
    by (cases reserve)
      (auto simp: handler_defs ip_is_fragment_def Let_def two swapped_eq swapped_and_eq_0
        be_bytes16_consts and_byte_255 simp del: le16.simps)
qed

end

section \<open>Properties\<close>

text \<open>
  C11. From the wire to the terminal: for an unfragmented IPv4 frame (any options, any payload of
  at least four bytes) addressed to this host, whose protocol is in the table and is not GRE, the
  filter keeps the packet and sends one record, and the printed line shows the interface, the
  protocol and the addresses and ports of the frame, in the byte order people read. The record's
  memory must have held zeros in the upper bytes of \<^verbatim>\<open>ip_proto\<close>.\<close>

theorem packet_line:
  assumes "skb_loader load_bytes" and "wf_frame p" and "skb_data skb = encode p"
    and "f_ethertype p = ETH_P_IP" and "f_frag p AND 0x3FFF = 0" and "f_protocol p \<noteq> 47"
    and "f_payload p = be_bytes16 sport @ be_bytes16 dport @ rest"
    and "skb_pkt_type skb = PACKET_HOST" and "ip_proto stale < 256" and "255 < ipproto_max"
    and "indextoname (skb_ifindex skb) = Some ifname"
    and "ipproto_mapping (unat (f_protocol p)) = Some proto"
  shows "\<exists>e. socket_handler load_bytes (Some stale) skb rb = (rb @ [e], skb_len skb) \<and>
    sockfilter_handle_event ipproto_max indextoname e =
      Line (''interface: '' @ ifname @ [tab] @ ''protocol: '' @ proto @ [tab]
              @ dotted (f_saddr p) @ '':'' @ dec_int (uint sport) @ ''(src) -> ''
              @ dotted (f_daddr p) @ '':'' @ dec_int (uint dport) @ ''(dst)'' @ [newline])"
proof -
  have low: "set_low_byte (f_protocol p) (ip_proto stale) = ucast (f_protocol p)"
    using assms(9) by (rule set_low_byte_small)
  have gre: "(ucast (f_protocol p) :: u32) \<noteq> 47"
    using assms(6) by (simp add: word_unat_eq_iff unat_byte)
  have max: "\<not> ipproto_max \<le> ucast (f_protocol p)"
    using assms(10) unat_less_256 [of "f_protocol p"] by (simp add: word_le_nat_alt word_less_nat_alt unat_byte)
  have pay: "take 4 (f_payload p) = be_bytes16 sport @ be_bytes16 dport" "4 \<le> length (f_payload p)"
    by (simp_all add: assms(7))
  show ?thesis
    using assms(4,5,8,11,12) gre max
    by (simp add: skb_loader.handler_frame [OF assms(1-3) pay(2)] low unat_byte pay(1) Let_def
        sockfilter_handle_event_def ltoa_dotted port16_def le32_halves)
qed

definition demo_frame :: frame where
  "demo_frame = \<lparr>f_macs = replicate 12 0, f_ethertype = 0x0800, f_tos = 0, f_tot_len = 44, f_id = 7,
     f_frag = 0x4000, f_ttl = 64, f_protocol = 6, f_check = 0, f_saddr = 0x7F000001,
     f_daddr = 0x0A00000F, f_options = [1, 1, 1, 0], f_payload = [0xD4, 0x31, 0x1F, 0x90, 0]\<rparr>"

definition demo_skb :: sk_buff where
  "demo_skb = \<lparr>skb_data = encode demo_frame, skb_pkt_type = 0, skb_ifindex = 1, skb_len = 43\<rparr>"

definition demo_record :: so_event where
  "demo_record = \<lparr>src_addr = 0xFFFFFFFF, dst_addr = 0xFFFFFFFF, ports = 0, ip_proto = 17,
     pkt_type = 3, ifindex = 9\<rparr>"

lemma wf_demo_frame: "wf_frame demo_frame"
  by (simp add: wf_frame_def demo_frame_def)

theorem packet_line_witness:
  "\<exists>e. socket_handler clearing_load (Some demo_record) demo_skb [] = ([] @ [e], 43) \<and>
     sockfilter_handle_event 263 [1 \<mapsto> ''lo''] e =
      Line (''interface: '' @ ''lo'' @ [tab] @ ''protocol: '' @ ''TCP'' @ [tab]
              @ dotted 0x7F000001 @ '':'' @ dec_int 54321 @ ''(src) -> ''
              @ dotted 0x0A00000F @ '':'' @ dec_int 8080 @ ''(dst)'' @ [newline])"
  using packet_line [OF clearing.skb_loader_axioms wf_demo_frame, of demo_skb 54321 8080 "[0]" demo_record 263
      "[1 \<mapsto> ''lo'']" "''lo''" "''TCP''" "[]"]
  by (simp add: demo_skb_def demo_record_def demo_frame_def be_bytes16_def ipproto_mapping_def)

text \<open>
  C28. Which packets the filter reports, byte for byte: on any packet long enough to hold the
  fields it tests, a record is sent if and only if the type field is \<^verbatim>\<open>08 00\<close>, the packet is not a
  fragment (neither more-fragments flag nor offset) and the ring buffer has room.\<close>

theorem filter_selects:
  assumes "skb_loader load_bytes" and "22 \<le> length (skb_data skb)"
  shows "fst (socket_handler load_bytes reserve skb rb) \<noteq> rb \<longleftrightarrow>
    skb_data skb ! 12 = 0x08 \<and> skb_data skb ! 13 = 0x00 \<and>
    skb_data skb ! 20 AND 0x3F = 0 \<and> skb_data skb ! 21 = 0 \<and> reserve \<noteq> None"
  by (rule skb_loader.handler_selects [OF assms])

theorem filter_selects_witness:
  "fst (socket_handler clearing_load (Some demo_record) demo_skb []) \<noteq> []"
  by (subst filter_selects [OF clearing.skb_loader_axioms])
    (simp_all add: demo_skb_def demo_frame_def encode_def be_bytes16_consts be_bytes16_def nth_append)

text \<open>
  C29. The textual form of an address always fits its 16-byte buffer, so that it is the full
  dotted quad, and different addresses have different texts.\<close>

theorem ltoa_exact:
  "length (ltoa a) < 16 \<and> ltoa a = dotted a \<and> (ltoa a = ltoa b \<longleftrightarrow> a = b)"
  by (simp add: ltoa_dotted length_dotted dotted_inj)

text \<open>
  The upper bytes of \<^verbatim>\<open>ip_proto\<close> are whatever the record's memory held before. When they are not
  zero, the packet of a valid frame is reported with a protocol number above 255 and no line for
  it is ever printed.\<close>

theorem stale_protocol_hides_packet:
  assumes "skb_loader load_bytes" and "wf_frame p" and "skb_data skb = encode p"
    and "4 \<le> length (f_payload p)" and "256 \<le> ip_proto stale"
    and "socket_handler load_bytes (Some stale) skb rb = (rb @ [e], v)"
  shows "256 \<le> ip_proto e \<and> (\<forall>s. sockfilter_handle_event ipproto_max indextoname e \<noteq> Line s)"
proof -
  have e: "ip_proto e = set_low_byte (f_protocol p) (ip_proto stale)"
    using assms(6) skb_loader.handler_frame [OF assms(1-4), of "Some stale" rb]
    by (auto simp: Let_def split: if_splits)
  then have "\<not> ip_proto e < 256"
    using assms(5) by (simp add: word_less_256 [unfolded not_less [symmetric]] drop_bit_set_low_byte
        flip: not_less)
  then have big: "256 \<le> unat (ip_proto e)" by (simp add: word_less_nat_alt)
  then have "ipproto_mapping (unat (ip_proto e)) = None"
    by (auto simp: ipproto_mapping_def)
  with big show ?thesis
    by (simp add: sockfilter_handle_event_def Let_def word_le_nat_alt split: option.split)
qed

theorem stale_protocol_hides_packet_witness:
  "256 \<le> ip_proto (hd (fst (socket_handler clearing_load
     (Some (demo_record\<lparr>ip_proto := 0x12345678\<rparr>)) demo_skb [])))"
  using stale_protocol_hides_packet [OF clearing.skb_loader_axioms wf_demo_frame, of demo_skb
      "demo_record\<lparr>ip_proto := 0x12345678\<rparr>" "[]"]
    clearing.handler_frame [OF wf_demo_frame, of demo_skb "Some (demo_record\<lparr>ip_proto := 0x12345678\<rparr>)" "[]"]
  by (simp add: demo_skb_def demo_frame_def demo_record_def)

text \<open>For GRE the addresses of the record are those of whatever packet used the memory before.\<close>

lemma gre_keeps_stale_addresses:
  assumes "skb_loader load_bytes" and "wf_frame p" and "skb_data skb = encode p"
    and "4 \<le> length (f_payload p)" and "f_protocol p = 47" and "ip_proto stale < 256"
    and "socket_handler load_bytes (Some stale) skb rb = (rb @ [e], v)"
  shows "src_addr e = src_addr stale \<and> dst_addr e = dst_addr stale"
  using assms(7) skb_loader.handler_frame [OF assms(1-4), of "Some stale" rb]
  by (auto simp: Let_def assms(5) set_low_byte_small [OF assms(6)] split: if_splits)

section \<open>The life cycle\<close>

lemma owned_print_acts [simp]: "owned H (concat (map print_act ps)) = Some H"
proof -
  have "owned H (print_act p @ xs) = owned H xs" for p xs by (cases p) simp_all
  then show ?thesis by (induction ps) simp_all
qed

lemma sockfilter_loop_owned:
  assumes "Ring \<in> set H" and "\<And>err. snd (cleanup err) \<noteq> Running \<and> owned H (fst (cleanup err)) = Some H'"
    and "snd (sockfilter_loop ps err cleanup) \<noteq> Running"
  shows "owned H (fst (sockfilter_loop ps err cleanup)) = Some H'"
  using assms(3)
proof (induction ps arbitrary: err)
  case (Cons p ps)
  then show ?case using assms(1,2) by (auto simp: Let_def owned_append split: if_splits)
qed simp

lemma sockfilter_loop_stop:
  assumes "\<forall>p \<in> set ps. \<not> p_exiting p \<and> 0 \<le> p_result p" "p_exiting q"
  shows "snd (sockfilter_loop (ps @ [q]) err k) = snd (k (if ps = [] then err else p_result (last ps)))"
  using assms by (induction ps arbitrary: err) (auto simp: Let_def)

text \<open>
  C37. Whatever fails and however the polling ends, the program frees the ring buffer and the
  skeleton; the raw socket is the one thing it leaves open, in every run that got as far as
  binding it.\<close>

theorem sockfilter_leaves_socket_open:
  assumes "snd (sockfilter_main w) \<noteq> Running"
    and "argp_run sockfilter_parse_arg (sw_args w) ''lo'' = Inr interface"
  shows "owned [] (fst (sockfilter_main w)) =
    Some (if sw_argp_err w = 0 \<and> sw_open_and_load w \<and> sw_ring_buffer_new w \<and> sw_socket w \<and> sw_bind w
          then [Sock] else [])"
  using assms
  by (auto simp: app_defs open_raw_sock_def Let_def owned_append sockfilter_loop_owned [where H' = "[Sock]"]
      split: if_splits)

definition demo_sock_world :: sockfilter_world where
  "demo_sock_world = \<lparr>sw_args = [(Key CHR ''i'', ''eth0'')], sw_argp_err = 0, sw_open_and_load = True,
     sw_ring_buffer_new = True, sw_socket = True, sw_bind = True, sw_setsockopt = True,
     sw_polls = [\<lparr>p_exiting = False, p_events = [Line ''x''], p_result = 1\<rparr>]
       @ [\<lparr>p_exiting = True, p_events = [], p_result = 0\<rparr>]\<rparr>"

theorem sockfilter_leaves_socket_open_witness:
  "owned [] (fst (sockfilter_main demo_sock_world)) = Some [Sock]"
  by (subst sockfilter_leaves_socket_open [where interface = "''eth0''"])
    (simp_all add: demo_sock_world_def sockfilter_main_def sockfilter_parse_arg_def open_raw_sock_def)

end
