(* ===== verification/Tc_Filter.thy ===== *)
theory Tc_Filter
  imports Packets App_Lifecycle
begin

text \<open>
  The traffic-control classifier, \<^verbatim>\<open>examples/c/tc.bpf.c\<close> and \<^verbatim>\<open>tc.c\<close>, and the XDP program
  \<^verbatim>\<open>examples/rust/xdp/src/bpf/xdppass.bpf.c\<close>. Both read the packet through pointers: memory is a
  function from addresses to bytes that is defined on the packet only, and a read outside it is
  the value \<open>Fault\<close>, so that the bounds checks have something to be right about.
\<close>

section \<open>The classifier\<close>

abbreviation TC_ACT_OK :: int where "TC_ACT_OK \<equiv> 0"

record tc_ctx =
  c_data :: u32
  c_data_end :: u32
  c_protocol :: u32
  c_mem :: "u64 \<rightharpoonup> u8"

text \<open>A BPF program ends with a verdict, having printed to the trace pipe, or faults.\<close>

datatype bpf_result = Verdict "string list" int | Fault

definition read_byte :: "(u64 \<rightharpoonup> u8) \<Rightarrow> u64 \<Rightarrow> u8 option" where
  "read_byte mem a = mem a"

definition read_half :: "(u64 \<rightharpoonup> u8) \<Rightarrow> u64 \<Rightarrow> u16 option" where
  "read_half mem a =
    (case (mem a, mem (a + 1)) of (Some x, Some y) \<Rightarrow> Some (le16 [x, y]) | _ \<Rightarrow> None)"

abbreviation sizeof_ethhdr :: u64 where "sizeof_ethhdr \<equiv> 14"
abbreviation sizeof_iphdr :: u64 where "sizeof_iphdr \<equiv> 20"
abbreviation off_tot_len :: u64 where "off_tot_len \<equiv> 2"
abbreviation off_ttl :: u64 where "off_ttl \<equiv> 8"

definition tc_ingress :: "tc_ctx \<Rightarrow> bpf_result" where
  "tc_ingress ctx =
    (let data_end = ucast (c_data_end ctx) :: u64; data = ucast (c_data ctx) :: u64 in
     if c_protocol ctx \<noteq> ucast (bswap16 ETH_P_IP) then Verdict [] TC_ACT_OK
     else let l2 = data in
       if l2 + sizeof_ethhdr > data_end then Verdict [] TC_ACT_OK
       else let l3 = l2 + sizeof_ethhdr in
         if l3 + sizeof_iphdr > data_end then Verdict [] TC_ACT_OK
         else case (read_half (c_mem ctx) (l3 + off_tot_len), read_byte (c_mem ctx) (l3 + off_ttl)) of
           (Some tot_len, Some ttl) \<Rightarrow>
             Verdict [''Got IP packet: tot_len: '' @ dec_int (uint (bswap16 tot_len)) @ '', ttl: ''
                        @ dec_int (uint ttl)] TC_ACT_OK
         | _ \<Rightarrow> Fault)"

section \<open>The XDP program\<close>

abbreviation XDP_PASS :: int where "XDP_PASS \<equiv> 2"

definition xdp_pass :: "tc_ctx \<Rightarrow> bpf_result" where
  "xdp_pass ctx =
    (let data = ucast (c_data ctx) :: u64; data_end = ucast (c_data_end ctx) :: u64;
         pkt_sz = ucast (data_end - data) :: s32
     in Verdict [''packet size: '' @ dec_int (sint pkt_sz)] XDP_PASS)"

section \<open>The main program of the classifier\<close>

record tc_world =
  tw_open_and_load :: bool
  tw_hook_create :: int
  tw_attach :: int
  tw_signal_errno :: int \<comment> \<open>0: the handler was installed\<close>
  tw_exiting :: "bool list"
  tw_detach :: int

text \<open>
  The hook counts as acquired when this program created it. The hook is for ingress only, and so, as
  the comment in the source says, \<^verbatim>\<open>bpf_tc_hook_destroy\<close> does not remove it: it uses the hook to remove
  the filters on it, the one of this program included. A failed detach leaves the filter.
\<close>

definition tc_main :: "tc_world \<Rightarrow> run" where
  "tc_main w =
    (if \<not> tw_open_and_load w then ([Err ''Failed to open BPF skeleton''], Exit 1)
     else emit [Acquire Skel]
       (let err = tw_hook_create w; hook_created = (err = 0);
            cleanup = (\<lambda>filter err. ((if hook_created
                            then Use Tc_hook # release_if filter Tc_filter else [])
                         @ [Release Skel], Exit (- err))) in
        if err \<noteq> 0 \<and> err \<noteq> - EEXIST
        then emit [Err (''Failed to create TC hook: '' @ dec_int err)] (cleanup False err)
        else emit (if hook_created then [Acquire Tc_hook] else [])
          (let err = tw_attach w in
           if err \<noteq> 0
           then emit [Err (''Failed to attach TC: '' @ dec_int err)] (cleanup False err)
           else emit [Acquire Tc_filter]
             (if tw_signal_errno w \<noteq> 0
              then (let err = tw_signal_errno w in
                    emit [Err ''Can't set signal handler''] (cleanup True err))
              else emit [Out ''Successfully started!'']
                (wait_loop (tw_exiting w)
                  (let err = tw_detach w in
                   if err \<noteq> 0
                   then emit [Err (''Failed to detach TC: '' @ dec_int err)] (cleanup True err)
                   else emit [Release Tc_filter] (cleanup False err)))))))"

declare tc_ingress_def [handler_defs] xdp_pass_def [handler_defs] tc_main_def [app_defs]

section \<open>Lemmas\<close>

text \<open>A frame laid out in memory from an address on.\<close>

definition placed :: "bytes \<Rightarrow> u32 \<Rightarrow> (u64 \<rightharpoonup> u8)" where
  "placed bs base a =
    (let i = unat a - unat base in
     if unat base \<le> unat a \<and> i < length bs then Some (bs ! i) else None)"

lemma unat_ptr: "unat (ucast (b :: u32) :: u64) = unat b"
  using unsigned_less [of b, where 'a = nat] by (simp add: unsigned_ucast_eq take_bit_nat_eq_self)

text \<open>Pointers come from 32-bit words, so that small offsets do not wrap around.\<close>

lemma unat_ptr_add:
  assumes "unat k < 2 ^ 32"
  shows "unat (ucast (b :: u32) + k :: u64) = unat b + unat k"
  using assms unsigned_less [of b, where 'a = nat]
  by (subst unat_add_lem [THEN iffD1]) (simp_all add: unat_ptr)

text \<open>Memory that covers the packet.\<close>

definition covers :: "(u64 \<rightharpoonup> u8) \<Rightarrow> u32 \<Rightarrow> u32 \<Rightarrow> bool" where
  "covers mem b e \<longleftrightarrow> (\<forall>a. unat b \<le> unat a \<and> unat a < unat e \<longrightarrow> mem a \<noteq> None)"

lemma coversD: "covers mem b e \<Longrightarrow> unat b \<le> unat a \<Longrightarrow> unat a < unat e \<Longrightarrow> \<exists>x. mem a = Some x"
  by (auto simp: covers_def)

lemma tc_ingress_cases:
  assumes "covers (c_mem ctx) (c_data ctx) (c_data_end ctx)"
  obtains (skip) "tc_ingress ctx = Verdict [] TC_ACT_OK"
      "c_protocol ctx \<noteq> 0x0008 \<or> unat (c_data_end ctx) < unat (c_data ctx) + 34"
  | (show_it) x y ttl where "c_protocol ctx = 0x0008"
      "unat (c_data ctx) + 34 \<le> unat (c_data_end ctx)"
      "c_mem ctx (ucast (c_data ctx) + 16) = Some x" "c_mem ctx (ucast (c_data ctx) + 17) = Some y"
      "c_mem ctx (ucast (c_data ctx) + 22) = Some ttl"
      "tc_ingress ctx = Verdict [''Got IP packet: tot_len: '' @ dec_int (uint (bswap16 (le16 [x, y])))
         @ '', ttl: '' @ dec_int (uint ttl)] TC_ACT_OK"
proof -
  have proto: "(ucast (bswap16 ETH_P_IP) :: u32) = 0x0008"
    by (simp add: bswap16_def)
  show thesis
  proof (cases "c_protocol ctx = 0x0008 \<and> unat (c_data ctx) + 34 \<le> unat (c_data_end ctx)")
    case True
    have a: "\<exists>x. c_mem ctx (ucast (c_data ctx) + k) = Some x" if "unat k < 34" for k
      using True that by (intro coversD [OF assms]) (simp_all add: unat_ptr_add)
    obtain x y ttl where
      "c_mem ctx (ucast (c_data ctx) + 16) = Some x" "c_mem ctx (ucast (c_data ctx) + 17) = Some y"
      "c_mem ctx (ucast (c_data ctx) + 22) = Some ttl"
      using a [of 16] a [of 17] a [of 22] by auto
    with True show thesis
      by (intro show_it [of x y ttl])
        (simp_all add: handler_defs Let_def proto word_less_nat_alt unat_ptr_add unat_ptr add.assoc
          read_half_def read_byte_def del: le16.simps)
  next
    case False
    then show thesis
      by (intro skip)
        (auto simp: handler_defs Let_def proto word_less_nat_alt unat_ptr_add unat_ptr add.assoc)
  qed
qed

lemma placed_at:
  assumes "unat base + length bs < 2 ^ 32" and "unat k < length bs"
  shows "placed bs base (ucast base + k) = Some (bs ! unat k)"
  using assms by (simp add: placed_def unat_ptr_add Let_def)

lemma placed_covers:
  assumes "unat base + length bs < 2 ^ 32"
  shows "covers (placed bs base) base (base + word_of_nat (length bs))"
  using assms by (auto simp: covers_def placed_def Let_def unat_word_ariths unat_of_nat)

section \<open>Properties\<close>

text \<open>
  C12. The classifier never reads outside the packet, whatever the packet: its bounds checks are
  enough on every frame, it always lets the packet through, and it prints a line exactly when the
  protocol is IPv4 and both headers are inside.\<close>

theorem tc_ingress_safe:
  assumes "covers (c_mem ctx) (c_data ctx) (c_data_end ctx)"
  shows "\<exists>out. tc_ingress ctx = Verdict out TC_ACT_OK \<and>
    (out \<noteq> [] \<longleftrightarrow> c_protocol ctx = 0x0008 \<and> unat (c_data ctx) + 34 \<le> unat (c_data_end ctx))"
  using assms by (cases rule: tc_ingress_cases) auto

theorem tc_ingress_safe_witness:
  "\<exists>out. tc_ingress \<lparr>c_data = 64, c_data_end = 80, c_protocol = 8, c_mem = placed (replicate 16 0) 64\<rparr>
      = Verdict out TC_ACT_OK \<and> (out \<noteq> [] \<longleftrightarrow> (8 :: u32) = 0x0008 \<and> (64 :: nat) + 34 \<le> 80)"
  using tc_ingress_safe [of "\<lparr>c_data = 64, c_data_end = 80, c_protocol = 8, c_mem = placed (replicate 16 0) 64\<rparr>"]
    placed_covers [of 64 "replicate 16 0"] by simp

text \<open>
  On a well-formed IPv4 frame the line shows the frame's total length and time to live.\<close>

theorem tc_ingress_prints_header:
  assumes "wf_frame p" and "unat base + length (encode p) < 2 ^ 32"
  shows "tc_ingress \<lparr>c_data = base, c_data_end = base + word_of_nat (length (encode p)),
      c_protocol = 0x0008, c_mem = placed (encode p) base\<rparr>
    = Verdict [''Got IP packet: tot_len: '' @ dec_int (uint (f_tot_len p)) @ '', ttl: ''
        @ dec_int (uint (f_ttl p))] TC_ACT_OK"
    (is "tc_ingress ?ctx = _")
proof -
  have cov: "covers (c_mem ?ctx) (c_data ?ctx) (c_data_end ?ctx)"
    using placed_covers [OF assms(2)] by simp
  have len: "34 \<le> length (encode p)" by (simp add: length_encode [OF assms(1)])
  have end': "unat (c_data_end ?ctx) = unat base + length (encode p)"
    using assms(2) by (simp add: unat_word_ariths unat_of_nat)
  have "[encode p ! 16, encode p ! 17] = be_bytes16 (f_tot_len p)" and "encode p ! 22 = f_ttl p"
    using encode_fields(3,5) [OF assms(1)] len
    by (simp_all add: numeral_2_eq_2 Cons_nth_drop_Suc [symmetric])
  with cov show ?thesis
    by (cases rule: tc_ingress_cases)
      (use len end' placed_at [OF assms(2)] in \<open>auto simp del: le16.simps\<close>)
qed

definition demo_ip_frame :: frame where
  "demo_ip_frame = \<lparr>f_macs = replicate 12 0, f_ethertype = 0x0800, f_tos = 0, f_tot_len = 84, f_id = 7,
     f_frag = 0x4000, f_ttl = 64, f_protocol = 1, f_check = 0, f_saddr = 0x7F000001,
     f_daddr = 0x7F000001, f_options = [], f_payload = replicate 64 0\<rparr>"

theorem tc_ingress_prints_header_witness:
  "tc_ingress \<lparr>c_data = 4096, c_data_end = 4096 + word_of_nat (length (encode demo_ip_frame)),
      c_protocol = 0x0008, c_mem = placed (encode demo_ip_frame) 4096\<rparr>
    = Verdict [''Got IP packet: tot_len: '' @ dec_int 84 @ '', ttl: '' @ dec_int 64] TC_ACT_OK"
  using tc_ingress_prints_header [of demo_ip_frame 4096]
  by (simp add: length_encode wf_frame_def demo_ip_frame_def)

text \<open>The XDP program prints the packet's size, as long as it fits an \<^verbatim>\<open>int\<close>, and passes it on.\<close>

lemma xdp_pass_prints_size:
  assumes "unat (c_data_end ctx) = unat (c_data ctx) + n" and "n < 2 ^ 31"
  shows "xdp_pass ctx = Verdict [''packet size: '' @ dec_int (int n)] XDP_PASS"
proof -
  have "ucast (c_data_end ctx) = (ucast (c_data ctx) + word_of_nat n :: u64)"
    using assms by (intro word_unat_eq_iff [THEN iffD2])
      (simp add: unat_ptr unat_ptr_add unat_of_nat)
  then have "ucast (c_data_end ctx) - ucast (c_data ctx) = (word_of_nat n :: u64)"
    by (simp only: add_diff_cancel_left')
  moreover have "(ucast (word_of_nat n :: u64) :: s32) = word_of_nat n"
    using assms(2) by (simp add: unsigned_of_nat take_bit_nat_eq_self)
  moreover have "sint (word_of_nat n :: s32) = int n"
    using assms(2) by (simp add: signed_of_nat signed_take_bit_int_eq_self)
  ultimately show ?thesis by (simp add: handler_defs Let_def)
qed

section \<open>The life cycle\<close>

text \<open>Runs in which the filter is not left behind on a hook of somebody else.\<close>

definition tc_sound :: "tc_world \<Rightarrow> bool" where
  "tc_sound w \<longleftrightarrow> tw_hook_create w \<noteq> 0 \<and> (tw_hook_create w = - EEXIST \<and> tw_attach w = 0 \<longrightarrow>
     tw_signal_errno w = 0 \<and> tw_detach w = 0)"

interpretation tc_app: program tc_main tc_sound
  by unfold_locales (auto simp: app_defs tc_sound_def Let_def)



end
