(* ===== verification/Stack_Profiler.thy ===== *)
theory Stack_Profiler
  imports App_Lifecycle
begin

text \<open>
  The sampling profiler, \<^verbatim>\<open>examples/c/profile.bpf.c\<close> and \<^verbatim>\<open>profile.c\<close>: a perf event on every online
  CPU takes the kernel and user stacks into a ring-buffer record; the user-space side symbolizes
  and prints them. The symbolizer (blazesym) and the kernel's stack walker are arguments. Reads of
  the stack arrays are checked: a read past the end is \<open>None\<close>.
\<close>

section \<open>The BPF program\<close>

abbreviation MAX_STACK_DEPTH :: nat where "MAX_STACK_DEPTH \<equiv> 128"

record stacktrace_event =
  se_pid :: u32
  se_cpu_id :: u32
  se_comm :: string
  se_kstack_sz :: s32
  se_ustack_sz :: s32
  se_kstack :: "u64 list"
  se_ustack :: "u64 list"

text \<open>
  What the program reads: \<^verbatim>\<open>bpf_get_stack\<close> maps the old contents of the array to its return value
  and the new contents; \<^verbatim>\<open>bpf_get_current_comm\<close> may fail.
\<close>

record sample_ctx =
  sc_pid_tgid :: u64
  sc_cpu :: u32
  sc_comm :: "string option"
  sc_get_kstack :: "u64 list \<Rightarrow> s32 \<times> u64 list"
  sc_get_ustack :: "u64 list \<Rightarrow> s32 \<times> u64 list"
  sc_reserve :: "stacktrace_event option"

definition profile ::
  "sample_ctx \<Rightarrow> stacktrace_event list \<Rightarrow> stacktrace_event list \<times> int" where
  "profile ctx events =
    (let pid = tgid_of (sc_pid_tgid ctx); cpu_id = sc_cpu ctx in
     case sc_reserve ctx of
       None \<Rightarrow> (events, 1)
     | Some event \<Rightarrow>
        (let event = event\<lparr>se_pid := pid, se_cpu_id := cpu_id,
               se_comm := (case sc_comm ctx of Some c \<Rightarrow> take 15 c | None \<Rightarrow> [])\<rparr>;
             (ksz, kstack) = sc_get_kstack ctx (se_kstack event);
             event = event\<lparr>se_kstack_sz := ksz, se_kstack := kstack\<rparr>;
             (usz, ustack) = sc_get_ustack ctx (se_ustack event);
             event = event\<lparr>se_ustack_sz := usz, se_ustack := ustack\<rparr>
         in (events @ [event], 0)))"

section \<open>Printing stacks\<close>

record code_info =
  ci_dir :: "string option"
  ci_file :: "string option"
  ci_line :: u32

record inlined_fn =
  in_name :: string
  in_code_info :: code_info

record sym =
  sym_name :: "string option"
  sym_addr :: u64
  sym_offset :: u64
  sym_code_info :: code_info
  sym_inlined :: "inlined_fn list"

definition hex16 :: "u64 \<Rightarrow> string" where
  "hex16 a = (let h = to_base 16 (unat a) in replicate (16 - length h) CHR ''0'' @ h)"

definition hex :: "u64 \<Rightarrow> string" where
  "hex a = to_base 16 (unat a)"

definition print_frame :: "string \<Rightarrow> u64 \<Rightarrow> u64 \<Rightarrow> u64 \<Rightarrow> code_info option \<Rightarrow> string" where
  "print_frame name input_addr addr offset code_info =
    (let loc = (case code_info of
           None \<Rightarrow> None
         | Some ci \<Rightarrow>
            (case (ci_dir ci, ci_file ci) of
               (Some dir, Some file) \<Rightarrow> Some (dir @ ''/'' @ file @ '':'' @ dec_int (uint (ci_line ci)))
             | (None, Some file) \<Rightarrow> Some (file @ '':'' @ dec_int (uint (ci_line ci)))
             | _ \<Rightarrow> None))
     in if input_addr \<noteq> 0
        then hex16 input_addr @ '': '' @ name @ '' @ 0x'' @ hex addr @ ''+0x'' @ hex offset
               @ (case loc of Some l \<Rightarrow> '' '' @ l @ [newline] | None \<Rightarrow> [newline])
        else replicate 16 CHR '' '' @ ''  '' @ name
               @ (case loc of Some l \<Rightarrow> ''@ '' @ l @ '' [inlined]'' @ [newline]
                            | None \<Rightarrow> ''[inlined]'' @ [newline]))"

text \<open>
  \<open>symbolize pid addrs\<close> is the answer of the symbolizer for the addresses of a process (of the
  kernel, for 0), None where it fails with the message \<open>err_str\<close>.
\<close>

record symbolizer =
  symbolize :: "s32 \<Rightarrow> u64 list \<Rightarrow> sym list option"
  err_str :: string

definition frame_lines :: "sym list \<Rightarrow> nat \<Rightarrow> u64 \<Rightarrow> string list" where
  "frame_lines syms i addr =
    (if length syms \<le> i then [hex16 addr @ '': <no-symbol>'' @ [newline]]
     else case sym_name (syms ! i) of
       None \<Rightarrow> [hex16 addr @ '': <no-symbol>'' @ [newline]]
     | Some name \<Rightarrow>
        print_frame name addr (sym_addr (syms ! i)) (sym_offset (syms ! i)) (Some (sym_code_info (syms ! i)))
        # map (\<lambda>inlined. print_frame name 0 0 0 (Some (in_code_info inlined))) (sym_inlined (syms ! i)))"

fun show_frames :: "sym list \<Rightarrow> u64 list \<Rightarrow> nat \<Rightarrow> nat \<Rightarrow> string list option" where
  "show_frames syms stack i 0 = Some []"
| "show_frames syms stack i (Suc n) =
     (if i < length stack
      then map_option (\<lambda>rest. frame_lines syms i (stack ! i) @ rest) (show_frames syms stack (Suc i) n)
      else None)"

definition show_stack_trace :: "symbolizer \<Rightarrow> u64 list \<Rightarrow> nat \<Rightarrow> s32 \<Rightarrow> string list option" where
  "show_stack_trace sy stack stack_sz pid =
    (if stack_sz > length stack then None
     else case symbolize sy pid (take stack_sz stack) of
       None \<Rightarrow> Some [''  failed to symbolize addresses: '' @ err_str sy @ [newline]]
     | Some syms \<Rightarrow> show_frames syms stack 0 stack_sz)"

text \<open>The block for one of the two stacks.\<close>

definition show_half :: "string \<Rightarrow> string \<Rightarrow> symbolizer \<Rightarrow> u64 list \<Rightarrow> s32 \<Rightarrow> s32 \<Rightarrow> string list option" where
  "show_half title none sy stack sz pid =
    (if sint sz > 0
     then map_option (\<lambda>ls. (title @ [newline]) # ls) (show_stack_trace sy stack (unat sz div 8) pid)
     else Some [none @ [newline]])"

text \<open>The return value and the lines; None is a read outside a stack array.\<close>

definition event_handler :: "symbolizer \<Rightarrow> stacktrace_event \<Rightarrow> (int \<times> string list) option" where
  "event_handler sy event =
    (if sint (se_kstack_sz event) \<le> 0 \<and> sint (se_ustack_sz event) \<le> 0 then Some (1, [])
     else
      let head = ''COMM: '' @ se_comm event @ '' (pid='' @ dec_int (sint (se_pid event)) @ '') @ CPU ''
                   @ dec_int (sint (se_cpu_id event)) @ [newline];
          kernel = show_half ''Kernel:'' ''No Kernel Stack'' sy (se_kstack event) (se_kstack_sz event) 0;
          user = show_half ''Userspace:'' ''No Userspace Stack'' sy (se_ustack event) (se_ustack_sz event)
                   (se_pid event)
      in case (kernel, user) of
           (Some k, Some u) \<Rightarrow> Some (0, head # k @ u @ [[newline]])
         | _ \<Rightarrow> None)"

section \<open>Command line\<close>

text \<open>The options as \<^verbatim>\<open>getopt\<close> returns them; None is any other result than \<^verbatim>\<open>-f\<close>.\<close>

fun profile_freq :: "string option list \<Rightarrow> int \<Rightarrow> int option" where
  "profile_freq [] freq = Some freq"
| "profile_freq (Some optarg # opts) freq =
     (let freq = atoi optarg in profile_freq opts (if freq < 1 then 1 else freq))"
| "profile_freq (None # opts) freq = None"

section \<open>The main program\<close>

record profile_world =
  pw_opts :: "string option list"
  pw_parse_cpu_mask_file :: int
  pw_online_mask :: "bool list"
  pw_num_cpus :: int
  pw_open_and_load :: bool
  pw_symbolizer :: bool
  pw_ring_buffer :: bool
  pw_malloc_pefds :: bool
  pw_calloc_links :: bool
  pw_perf_event_open :: "nat \<Rightarrow> int"
  pw_attach :: "nat \<Rightarrow> bool"
  pw_polls :: "(string list \<times> int) list"

text \<open>
  What is set up so far, as the cleanup code tests it. \<^verbatim>\<open>free\<close> and the destructors accept null
  pointers; the CPUs are those whose array entry was assigned.
\<close>

record profile_state =
  ps_mask :: bool
  ps_skel :: bool
  ps_symbolizer :: bool
  ps_ring :: bool
  ps_pefds :: "nat list option"
  ps_links :: "nat list option"

definition profile_cleanup :: "nat \<Rightarrow> profile_state \<Rightarrow> int \<Rightarrow> run" where
  "profile_cleanup num_cpus s err =
    ((case ps_links s of
        None \<Rightarrow> []
      | Some links \<Rightarrow> concat (map (\<lambda>cpu. release_if (cpu \<in> set links) (Link cpu)) [0..<num_cpus])
          @ [Release (Memory ''links'')])
     @ (case ps_pefds s of
        None \<Rightarrow> []
      | Some pefds \<Rightarrow> concat (map (\<lambda>cpu. release_if (cpu \<in> set pefds) (Perf_fd cpu)) [0..<num_cpus])
          @ [Release (Memory ''pefds'')])
     @ release_if (ps_ring s) Ring @ release_if (ps_skel s) Skel
     @ release_if (ps_symbolizer s) Symbolizer @ release_if (ps_mask s) (Memory ''online_mask''),
     Exit (- err))"

text \<open>The attaching loop; \<open>links\<close> is None when its allocation failed, which nothing checks.\<close>

fun attach_cpus ::
  "profile_world \<Rightarrow> int \<Rightarrow> nat list \<Rightarrow> nat list \<Rightarrow> nat list option \<Rightarrow>
   (int \<Rightarrow> nat list \<Rightarrow> nat list option \<Rightarrow> run) \<Rightarrow> (nat list \<Rightarrow> nat list option \<Rightarrow> run) \<Rightarrow> run" where
  "attach_cpus w freq [] pefds links cleanup k = k pefds links"
| "attach_cpus w freq (cpu # cpus) pefds links cleanup k =
     (if cpu \<ge> length (pw_online_mask w) \<or> \<not> pw_online_mask w ! cpu
      then attach_cpus w freq cpus pefds links cleanup k
      else if pw_perf_event_open w cpu < 0
      then emit [Err ''Fail to set up performance monitor on a CPU/Core''] (cleanup (- 1) pefds links)
      else emit [Acquire (Perf_fd cpu), Poke (Perf_fd cpu) ''sample_freq'' freq]
        (case links of
           None \<Rightarrow> ([], Undefined)
         | Some ls \<Rightarrow>
            if \<not> pw_attach w cpu then cleanup (- 1) (pefds @ [cpu]) (Some ls)
            else emit [Acquire (Link cpu)]
              (attach_cpus w freq cpus (pefds @ [cpu]) (Some (ls @ [cpu])) cleanup k)))"

fun profile_poll :: "(string list \<times> int) list \<Rightarrow> run \<Rightarrow> run" where
  "profile_poll [] k = ([], Running)"
| "profile_poll ((out, res) # polls) k =
     emit (Use Ring # map Out out) (if res \<ge> 0 then profile_poll polls k else k)"

definition profile_main :: "profile_world \<Rightarrow> run" where
  "profile_main w =
    (case profile_freq (pw_opts w) 1 of
       None \<Rightarrow> ([Out ''Usage:''], Exit 1)
     | Some freq \<Rightarrow>
       let s = \<lparr>ps_mask = False, ps_skel = False, ps_symbolizer = False, ps_ring = False,
                ps_pefds = None, ps_links = None\<rparr>;
           num_cpus = nat (pw_num_cpus w);
           err = pw_parse_cpu_mask_file w in
       if err \<noteq> 0
       then emit [Err (''Fail to get online CPU numbers: '' @ dec_int err)] (profile_cleanup num_cpus s err)
       else emit [Acquire (Memory ''online_mask'')] (let s = s\<lparr>ps_mask := True\<rparr> in
       if pw_num_cpus w \<le> 0
       then emit [Err ''Fail to get the number of processors''] (profile_cleanup num_cpus s (- 1))
       else if \<not> pw_open_and_load w
       then emit [Err ''Fail to open and load BPF skeleton''] (profile_cleanup num_cpus s (- 1))
       else emit [Acquire Skel] (let s = s\<lparr>ps_skel := True\<rparr> in
       if \<not> pw_symbolizer w
       then emit [Err ''Fail to create a symbolizer''] (profile_cleanup num_cpus s (- 1))
       else emit [Acquire Symbolizer] (let s = s\<lparr>ps_symbolizer := True\<rparr> in
       if \<not> pw_ring_buffer w then profile_cleanup num_cpus s (- 1)
       else emit [Acquire Ring] (let s = s\<lparr>ps_ring := True\<rparr> in
       if \<not> pw_malloc_pefds w then ([], Undefined)
       else emit [Acquire (Memory ''pefds'')]
        (let alloc = pw_calloc_links w;
             cleanup = (\<lambda>err pefds links.
               profile_cleanup num_cpus (s\<lparr>ps_pefds := Some pefds, ps_links := links\<rparr>) err)
         in emit (if alloc then [Acquire (Memory ''links'')] else [])
              (attach_cpus w freq [0..<num_cpus] [] (if alloc then Some [] else None) cleanup
                (\<lambda>pefds links. profile_poll (pw_polls w) (cleanup 0 pefds links)))))))))"

declare profile_def [handler_defs] profile_main_def [app_defs]

section \<open>What is printed for a sample\<close>

text \<open>The answer of the kernel's stack walker: a trace that fits the array, or a failure.\<close>

fun answers :: "(u64 list \<Rightarrow> s32 \<times> u64 list) \<Rightarrow> u64 list option \<Rightarrow> bool" where
  "answers get_stack (Some trace) \<longleftrightarrow> length trace \<le> MAX_STACK_DEPTH \<and>
     (\<forall>buf. length buf = MAX_STACK_DEPTH \<longrightarrow>
        get_stack buf = (word_of_nat (8 * length trace), trace @ drop (length trace) buf))"
| "answers get_stack None \<longleftrightarrow>
     (\<forall>buf. length buf = MAX_STACK_DEPTH \<longrightarrow> sint (fst (get_stack buf)) < 0)"

text \<open>The lines for a trace, without arrays, sizes and indices into them.\<close>

definition trace_lines :: "symbolizer \<Rightarrow> s32 \<Rightarrow> u64 list \<Rightarrow> string list" where
  "trace_lines sy pid trace =
    (case symbolize sy pid trace of
       None \<Rightarrow> [''  failed to symbolize addresses: '' @ err_str sy @ [newline]]
     | Some syms \<Rightarrow> concat (map (\<lambda>i. frame_lines syms i (trace ! i)) [0..<length trace]))"

fun stack_section :: "string \<Rightarrow> string \<Rightarrow> symbolizer \<Rightarrow> s32 \<Rightarrow> u64 list option \<Rightarrow> string list" where
  "stack_section title none sy pid (Some (a # trace)) = (title @ [newline]) # trace_lines sy pid (a # trace)"
| "stack_section title none sy pid _ = [none @ [newline]]"

lemma show_frames_prefix:
  "i + n \<le> length stack \<Longrightarrow>
   show_frames syms stack i n = Some (concat (map (\<lambda>i. frame_lines syms i (stack ! i)) [i..<i + n]))"
  by (induction n arbitrary: i) (auto simp: upt_rec)

lemma show_stack_trace_prefix:
  assumes "length trace = n"
  shows "show_stack_trace sy (trace @ rest) n pid = Some (trace_lines sy pid trace)"
  using assms
  by (auto simp: show_stack_trace_def trace_lines_def show_frames_prefix [of 0] nth_append
      intro!: arg_cong [where f = concat] map_cong split: option.split)

text \<open>One half of a record: its size field and what is shown for it.\<close>

lemma answers_half:
  assumes "answers g ans" and "length buf = MAX_STACK_DEPTH" and "g buf = (sz, stack)"
  shows "0 < sint sz \<longleftrightarrow> (\<exists>a trace. ans = Some (a # trace))"
    and "show_half title none sy stack sz pid = Some (stack_section title none sy pid ans)"
proof (atomize (full), cases ans)
  case None
  then have "sint sz < 0" using assms by simp (metis fst_conv)
  with None show "(0 < sint sz \<longleftrightarrow> (\<exists>a trace. ans = Some (a # trace)))
      \<and> show_half title none sy stack sz pid = Some (stack_section title none sy pid ans)"
    by (simp add: show_half_def)
next
  case (Some trace)
  then have len: "length trace \<le> 128" and g: "sz = word_of_nat (8 * length trace)"
      "stack = trace @ drop (length trace) buf"
    using assms by auto
  have s: "sint sz = int (8 * length trace)" and u: "unat sz = 8 * length trace"
    using len unfolding g(1) by (intro s32_of_nat, simp)+
  have "show_stack_trace sy stack (unat sz div 8) pid = Some (trace_lines sy pid trace)"
    by (simp add: u g(2) show_stack_trace_prefix)
  then show "(0 < sint sz \<longleftrightarrow> (\<exists>a trace. ans = Some (a # trace)))
      \<and> show_half title none sy stack sz pid = Some (stack_section title none sy pid ans)"
    using s Some by (cases trace) (simp_all add: show_half_def)
qed

section \<open>Properties\<close>

text \<open>
  C13. From the sample to the terminal: for every answer of the stack walker, the record that the
  BPF program sends is printed without a read outside its arrays, and what is printed is the
  process, the CPU and, for each of the two stacks, one block per frame in the order of the trace;
  a sample without any frame is skipped. Stale contents of the record's memory play no part.\<close>

theorem sample_printed_exactly:
  assumes "answers (sc_get_kstack ctx) kans" and "answers (sc_get_ustack ctx) uans"
    and "sc_reserve ctx = Some stale"
    and "length (se_kstack stale) = MAX_STACK_DEPTH" and "length (se_ustack stale) = MAX_STACK_DEPTH"
    and "sc_comm ctx = Some comm"
  shows "\<exists>e. profile ctx events = (events @ [e], 0) \<and> event_handler sy e = Some
    (if kans \<in> {None, Some []} \<and> uans \<in> {None, Some []} then (1, [])
     else (0, (''COMM: '' @ take 15 comm @ '' (pid='' @ dec_int (sint (tgid_of (sc_pid_tgid ctx))) @ '') @ CPU ''
                 @ dec_int (sint (sc_cpu ctx)) @ [newline])
              # stack_section ''Kernel:'' ''No Kernel Stack'' sy 0 kans
              @ stack_section ''Userspace:'' ''No Userspace Stack'' sy (tgid_of (sc_pid_tgid ctx)) uans
              @ [[newline]]))"
proof -
  obtain ksz kstack usz ustack where
    g: "sc_get_kstack ctx (se_kstack stale) = (ksz, kstack)" "sc_get_ustack ctx (se_ustack stale) = (usz, ustack)"
    by fastforce
  have none: "kans \<in> {None, Some []} \<longleftrightarrow> \<not> (\<exists>a t. kans = Some (a # t))"
    "uans \<in> {None, Some []} \<longleftrightarrow> \<not> (\<exists>a t. uans = Some (a # t))"
    by (auto simp: neq_Nil_conv) (metis list.exhaust option.exhaust)+
  note k = answers_half [OF assms(1,4) g(1)]
  note u = answers_half [OF assms(2,5) g(2)]
  let ?e = "stale\<lparr>se_pid := tgid_of (sc_pid_tgid ctx), se_cpu_id := sc_cpu ctx, se_comm := take 15 comm,
      se_kstack_sz := ksz, se_kstack := kstack, se_ustack_sz := usz, se_ustack := ustack\<rparr>"
  have "profile ctx events = (events @ [?e], 0)"
    by (simp add: handler_defs assms(3,6) g Let_def)
  then show ?thesis
    unfolding none k(1) [symmetric] u(1) [symmetric]
    by (intro exI [of _ ?e]) (simp add: event_handler_def Let_def k(2) u(2) not_less)
qed

definition demo_symbolizer :: symbolizer where
  "demo_symbolizer = \<lparr>symbolize = (\<lambda>pid addrs. if pid = 0 then Some [\<lparr>sym_name = Some ''f'',
       sym_addr = 0xFF0, sym_offset = 0x10, sym_code_info = \<lparr>ci_dir = None, ci_file = None, ci_line = 0\<rparr>,
       sym_inlined = [\<lparr>in_name = ''g'', in_code_info = \<lparr>ci_dir = None, ci_file = Some ''f.c'', ci_line = 7\<rparr>\<rparr>]\<rparr>]
     else None), err_str = ''unknown''\<rparr>"

definition demo_stack_record :: stacktrace_event where
  "demo_stack_record = \<lparr>se_pid = 1, se_cpu_id = 1, se_comm = ''old'', se_kstack_sz = 8, se_ustack_sz = 8,
     se_kstack = replicate 128 7, se_ustack = replicate 128 7\<rparr>"

definition demo_sample :: sample_ctx where
  "demo_sample = \<lparr>sc_pid_tgid = 0x4D2000004D2, sc_cpu = 3, sc_comm = Some ''bench'',
     sc_get_kstack = (\<lambda>buf. (word_of_nat 16, [0x1000, 0x2000] @ drop 2 buf)), sc_get_ustack = (\<lambda>buf. (- 14, buf)),
     sc_reserve = Some demo_stack_record\<rparr>"

lemma demo_answers:
  "answers (sc_get_kstack demo_sample) (Some [0x1000, 0x2000])" "answers (sc_get_ustack demo_sample) None"
  by (simp_all add: demo_sample_def numeral_2_eq_2)

theorem sample_printed_exactly_witness:
  "\<exists>e. profile demo_sample [] = ([] @ [e], 0) \<and> event_handler demo_symbolizer e = Some
     (0, (''COMM: '' @ ''bench'' @ '' (pid='' @ dec_int (sint (tgid_of 0x4D2000004D2)) @ '') @ CPU ''
          @ dec_int 3 @ [newline])
         # stack_section ''Kernel:'' ''No Kernel Stack'' demo_symbolizer 0 (Some [0x1000, 0x2000])
         @ [''No Userspace Stack'' @ [newline]] @ [[newline]])"
  using sample_printed_exactly [OF demo_answers, of demo_stack_record "''bench''" "[]" demo_symbolizer]
  by (simp add: demo_sample_def demo_stack_record_def)

text \<open>Other names for the inlined functions.\<close>

definition rename_inlined :: "(string \<Rightarrow> string) \<Rightarrow> sym \<Rightarrow> sym" where
  "rename_inlined f sy = sy\<lparr>sym_inlined := map (\<lambda>i. i\<lparr>in_name := f (in_name i)\<rparr>) (sym_inlined sy)\<rparr>"

lemma frame_lines_rename: "frame_lines (map (rename_inlined f) syms) i a = frame_lines syms i a"
  by (simp add: frame_lines_def rename_inlined_def o_def split: option.split)

lemma show_frames_rename:
  "show_frames (map (rename_inlined f) syms) stack i n = show_frames syms stack i n"
  by (induction n arbitrary: i) (simp_all add: frame_lines_rename)

text \<open>
  A frame that the symbolizer resolves to inlined functions is printed with the name of the
  enclosing function on every line: the names of the inlined functions never reach the output.\<close>

theorem inlined_names_ignored:
  "event_handler (sy\<lparr>symbolize := \<lambda>pid addrs. map_option (map (rename_inlined f)) (symbolize sy pid addrs)\<rparr>) e
    = event_handler sy e"
proof -
  have "show_half title none (sy\<lparr>symbolize := \<lambda>pid addrs. map_option (map (rename_inlined f)) (symbolize sy pid addrs)\<rparr>)
      stack sz pid = show_half title none sy stack sz pid" for title none stack sz pid
    by (simp add: show_half_def show_stack_trace_def show_frames_rename option.case_eq_if option.map_sel)
  then show ?thesis by (simp add: event_handler_def)
qed

section \<open>The life cycle\<close>

definition set_up :: "res set \<Rightarrow> nat \<Rightarrow> nat list \<Rightarrow> nat list \<Rightarrow> res list \<Rightarrow> bool" where
  "set_up B n pefds links H \<longleftrightarrow> distinct H \<and> set H = B \<union> Perf_fd ` set pefds \<union> Link ` set links
     \<and> set pefds \<union> set links \<subseteq> {..<n}"

lemma clean_attach_cpus:
  assumes "\<And>err p l H. set_up B n p l H \<Longrightarrow> clean H (cleanup err p (Some l))"
    and "\<And>p l H. set_up B n p l H \<Longrightarrow> clean H (k p (Some l))"
    and "range Perf_fd \<inter> B = {}" "range Link \<inter> B = {}"
  shows "set_up B n pefds links H \<Longrightarrow> distinct cpus \<Longrightarrow> set cpus \<subseteq> {..<n} \<Longrightarrow>
    set cpus \<inter> (set pefds \<union> set links) = {} \<Longrightarrow>
    clean H (attach_cpus w freq cpus pefds (Some links) cleanup k)"
proof (induction cpus arbitrary: pefds links H)
  case (Cons cpu cpus)
  from Cons.prems have fresh: "Perf_fd cpu \<notin> set H" "Link cpu \<notin> set H"
    using assms(3,4) by (auto simp: set_up_def)
  from Cons.prems have 1: "set_up B n (pefds @ [cpu]) links (Perf_fd cpu # H)"
    and 2: "set_up B n (pefds @ [cpu]) (links @ [cpu]) (Link cpu # Perf_fd cpu # H)"
    using fresh by (auto simp: set_up_def)
  show ?case
    using Cons.prems Cons.IH [OF Cons.prems(1)] Cons.IH [OF 2] fresh assms(1) [OF 1]
      assms(1) [OF Cons.prems(1)]
    by auto
qed (use assms(2) in simp)

lemma concat_release_if:
  "concat (map (\<lambda>c. release_if (P c) (f c)) cs) = map Release (map f (filter P cs))"
  by (induction cs) (simp_all add: release_if_def)

lemma clean_profile_cleanup:
  assumes "set_up {Memory ''links'', Memory ''pefds'', Ring, Symbolizer, Skel, Memory ''online_mask''} n p l H"
  shows "clean H (profile_cleanup n \<lparr>ps_mask = True, ps_skel = True, ps_symbolizer = True, ps_ring = True,
    ps_pefds = Some p, ps_links = Some l\<rparr> err)"
proof -
  let ?rs = "map Link (filter (\<lambda>c. c \<in> set l) [0..<n]) @ Memory ''links'' #
     map Perf_fd (filter (\<lambda>c. c \<in> set p) [0..<n]) @ [Memory ''pefds'', Ring, Skel, Symbolizer, Memory ''online_mask'']"
  have "owned H (map Release ?rs) = Some []"
    using assms by (intro owned_release_all) (auto simp: set_up_def distinct_map inj_on_def)
  then show ?thesis by (simp add: profile_cleanup_def concat_release_if)
qed

lemma clean_profile_poll: "Ring \<in> set H \<Longrightarrow> clean H k \<Longrightarrow> clean H (profile_poll polls k)"
  by (induction polls k rule: profile_poll.induct) (auto simp: owned_quiet(2) [where f = id, simplified])

definition profile_sound :: "profile_world \<Rightarrow> bool" where
  "profile_sound w \<longleftrightarrow> pw_malloc_pefds w \<and> pw_calloc_links w"

interpretation profile_app: program profile_main profile_sound
proof
  fix w
  assume w: "profile_sound w"
  let ?B = "{Memory ''links'', Memory ''pefds'', Ring, Symbolizer, Skel, Memory ''online_mask''}"
  let ?n = "nat (pw_num_cpus w)"
  let ?c = "\<lambda>err p l. profile_cleanup ?n \<lparr>ps_mask = True, ps_skel = True, ps_symbolizer = True, ps_ring = True,
    ps_pefds = Some p, ps_links = l\<rparr> err"
  have "clean [Memory ''links'', Memory ''pefds'', Ring, Symbolizer, Skel, Memory ''online_mask'']
      (attach_cpus w freq [0..<?n] [] (Some []) ?c (\<lambda>p l. profile_poll (pw_polls w) (?c 0 p l)))" for freq
    by (rule clean_attach_cpus [where B = ?B])
      (auto intro!: clean_profile_cleanup clean_profile_poll simp: set_up_def)
  with w show "clean [] (profile_main w)"
    by (simp add: app_defs profile_sound_def Let_def profile_cleanup_def [of _ "\<lparr>ps_mask = _, ps_skel = _,
         ps_symbolizer = _, ps_ring = _, ps_pefds = None, ps_links = None\<rparr>"] split: option.split)
qed

text \<open>The CPUs that are both possible and online.\<close>

definition online :: "profile_world \<Rightarrow> nat \<Rightarrow> bool" where
  "online w cpu \<longleftrightarrow> cpu < length (pw_online_mask w) \<and> pw_online_mask w ! cpu"

lemma attach_cpus_all:
  assumes "\<forall>cpu \<in> set cpus. online w cpu \<longrightarrow> 0 \<le> pw_perf_event_open w cpu \<and> pw_attach w cpu"
  shows "\<exists>p l. attach_cpus w freq cpus pefds (Some links) cleanup k =
    emit (concat (map (\<lambda>cpu. if online w cpu then [Acquire (Perf_fd cpu),
        Poke (Perf_fd cpu) ''sample_freq'' freq, Acquire (Link cpu)] else []) cpus)) (k p (Some l))"
  using assms
proof (induction cpus arbitrary: pefds links)
  case (Cons cpu cpus)
  then have IH: "\<exists>p l. attach_cpus w freq cpus pefds (Some links) cleanup k =
    emit (concat (map (\<lambda>cpu. if online w cpu then [Acquire (Perf_fd cpu),
        Poke (Perf_fd cpu) ''sample_freq'' freq, Acquire (Link cpu)] else []) cpus)) (k p (Some l))"
    for pefds links by simp
  show ?case
  proof (cases "online w cpu")
    case True
    obtain p l where "attach_cpus w freq cpus (pefds @ [cpu]) (Some (links @ [cpu])) cleanup k =
        emit (concat (map (\<lambda>cpu. if online w cpu then [Acquire (Perf_fd cpu),
          Poke (Perf_fd cpu) ''sample_freq'' freq, Acquire (Link cpu)] else []) cpus)) (k p (Some l))"
      using IH by blast
    with True Cons.prems show ?thesis
      by (intro exI [of _ p] exI [of _ l]) (auto simp: online_def emit_def)
  next
    case False
    with IH [of pefds links] show ?thesis by (auto simp: online_def)
  qed
qed (auto simp: emit_def)

lemma count_list_releases [simp]: "count_list (map Release rs) (Acquire r) = 0"
  by (induction rs) auto

lemma count_list_Outs [simp]: "count_list (map Out ss) (Acquire r) = 0"
  by (induction ss) auto

lemma cleanup_acquires_nothing [simp]: "count_list (fst (profile_cleanup n s err)) (Acquire r) = 0"
  by (simp add: profile_cleanup_def concat_release_if release_if_def split: option.split)

lemma poll_acquires [simp]:
  "count_list (fst k) (Acquire r) = 0 \<Longrightarrow> count_list (fst (profile_poll polls k)) (Acquire r) = 0"
  by (induction polls k rule: profile_poll.induct) simp_all

lemma count_attached:
  "distinct cpus \<Longrightarrow> count_list (concat (map (\<lambda>cpu. if online w cpu then [Acquire (Perf_fd cpu),
      Poke (Perf_fd cpu) ''sample_freq'' freq, Acquire (Link cpu)] else []) cpus)) (Acquire (Link c))
   = (if c \<in> set cpus \<and> online w c then 1 else 0)"
  by (induction cpus) auto

text \<open>
  C30. When every call succeeds, the profiler attaches its program exactly once on each CPU that is
  possible and online, and on no other.\<close>

theorem profiles_online_cpus:
  assumes "profile_freq (pw_opts w) 1 \<noteq> None" and "pw_parse_cpu_mask_file w = 0"
    and "0 < pw_num_cpus w" and "pw_open_and_load w" and "pw_symbolizer w" and "pw_ring_buffer w"
    and "pw_malloc_pefds w" and "pw_calloc_links w"
    and "\<forall>cpu. online w cpu \<longrightarrow> 0 \<le> pw_perf_event_open w cpu \<and> pw_attach w cpu"
  shows "count_list (fst (profile_main w)) (Acquire (Link cpu)) =
    (if int cpu < pw_num_cpus w \<and> online w cpu then 1 else 0)"
proof -
  obtain freq where "profile_freq (pw_opts w) 1 = Some freq" using assms(1) by blast
  let ?c = "\<lambda>err p l. profile_cleanup (nat (pw_num_cpus w)) \<lparr>ps_mask = True, ps_skel = True,
    ps_symbolizer = True, ps_ring = True, ps_pefds = Some p, ps_links = l\<rparr> err"
  obtain p l where a: "attach_cpus w freq [0..<nat (pw_num_cpus w)] [] (Some []) ?c
      (\<lambda>p l. profile_poll (pw_polls w) (?c 0 p l)) =
      emit (concat (map (\<lambda>cpu. if online w cpu then [Acquire (Perf_fd cpu),
        Poke (Perf_fd cpu) ''sample_freq'' freq, Acquire (Link cpu)] else []) [0..<nat (pw_num_cpus w)]))
        (profile_poll (pw_polls w) (?c 0 p (Some l)))"
    using attach_cpus_all [where cleanup = ?c and k = "\<lambda>p l. profile_poll (pw_polls w) (?c 0 p l)"] assms(9)
    by blast
  show ?thesis
    using assms(2-8) \<open>profile_freq _ _ = _\<close> by (simp add: app_defs Let_def a count_attached) linarith
qed

definition demo_profile :: profile_world where
  "demo_profile = \<lparr>pw_opts = [Some ''99''], pw_parse_cpu_mask_file = 0, pw_online_mask = [True, False, True],
     pw_num_cpus = 4, pw_open_and_load = True, pw_symbolizer = True, pw_ring_buffer = True,
     pw_malloc_pefds = True, pw_calloc_links = True, pw_perf_event_open = (\<lambda>cpu. 3 + int cpu),
     pw_attach = (\<lambda>cpu. True), pw_polls = [([''x''], 1), ([], - 4)]\<rparr>"

theorem profiles_online_cpus_witness:
  "count_list (fst (profile_main demo_profile)) (Acquire (Link 2)) = 1 \<and>
   count_list (fst (profile_main demo_profile)) (Acquire (Link 1)) = 0"
  by (subst (1 2) profiles_online_cpus) (simp_all add: demo_profile_def online_def Let_def)

end
