(* ===== verification/Task_Iter.thy ===== *)
theory Task_Iter
  imports App_Lifecycle
begin

text \<open>
  The task iterator, \<^verbatim>\<open>examples/c/task_iter.bpf.c\<close> and \<^verbatim>\<open>task_iter.c\<close>: the kernel runs a BPF program
  once per task, which fills one per-CPU record and writes it to the iterator's file; the
  user-space side reads the records and prints a line for each. Each read delivers one record, as
  the two sides use the same structure.
\<close>

section \<open>The BPF program\<close>

abbreviation MAX_STACK_LEN :: nat where "MAX_STACK_LEN \<equiv> 127"

record task_info =
  ti_pid :: s32
  ti_tid :: s32
  ti_state :: u32
  ti_comm :: string
  ti_kstack_len :: s32
  ti_kstack :: "u64 list"

text \<open>
  A task as the program reads it. Kernels before 5.14 have a \<^verbatim>\<open>long state\<close>, later ones an
  \<^verbatim>\<open>unsigned __state\<close>. \<^verbatim>\<open>bpf_get_task_stack\<close> maps the old array to its result and the new array.
\<close>

record task =
  tk_tgid :: s32
  tk_pid :: s32
  tk_pre514_state :: "s64 option"
  tk_post514_state :: u32
  tk_comm :: string
  tk_get_stack :: "u64 list \<Rightarrow> int \<times> u64 list"

definition get_task_state :: "task \<Rightarrow> u32" where
  "get_task_state t =
    (case tk_pre514_state t of Some state \<Rightarrow> ucast state | None \<Rightarrow> tk_post514_state t)"

text \<open>The per-CPU record (None where the map lookup fails) and what was written to the file.\<close>

definition get_tasks ::
  "task option \<Rightarrow> task_info option \<times> task_info list \<Rightarrow> task_info option \<times> task_info list" where
  "get_tasks task s =
    (case (task, fst s) of
       (Some task, Some t) \<Rightarrow>
        (let t = t\<lparr>ti_pid := tk_tgid task, ti_tid := tk_pid task, ti_state := get_task_state task,
               ti_comm := take 15 (tk_comm task)\<rparr>;
             (res, kstack) = tk_get_stack task (ti_kstack t);
             t = t\<lparr>ti_kstack := kstack,
                   ti_kstack_len := word_of_int (if res \<le> 0 then res else res div 8)\<rparr>
         in (Some t, snd s @ [t]))
     | _ \<Rightarrow> s)"

section \<open>The main program\<close>

definition task_state_name :: "u32 \<Rightarrow> string" where
  "task_state_name state =
    (if state = 0x0000 then ''RUNNING''
     else if state = 0x0001 then ''INTERRUPTIBLE''
     else if state = 0x0002 then ''UNINTERRUPTIBLE''
     else if state = 0x0200 then ''WAKING''
     else if state = 0x0400 then ''NOLOAD''
     else if state = 0x0402 then ''IDLE''
     else if state = 0x0800 then ''NEW''
     else ''<unknown>'')"

definition task_line :: "task_info \<Rightarrow> string" where
  "task_line buf =
    (if sint (ti_kstack_len buf) \<le> 0
     then ''Error getting kernel stack for task. Task Info. Pid: '' @ dec_int (sint (ti_pid buf))
            @ ''. Process Name: '' @ ti_comm buf @ ''. Kernel Stack Error: ''
            @ dec_int (sint (ti_kstack_len buf)) @ ''. State: '' @ task_state_name (ti_state buf) @ [newline]
     else ''Task Info. Pid: '' @ dec_int (sint (ti_pid buf)) @ ''. Process Name: '' @ ti_comm buf
            @ ''. Kernel Stack Len: '' @ dec_int (sint (ti_kstack_len buf)) @ ''. State: ''
            @ task_state_name (ti_state buf) @ [newline])"

text \<open>What a read of the iterator gives: an error number, the end, or a record.\<close>

datatype iter_read = Read_error int | Read_eof | Read_info task_info

text \<open>The reading loop, with the value of \<^verbatim>\<open>err\<close> on leaving it.\<close>

fun read_loop :: "iter_read list \<Rightarrow> int \<Rightarrow> (int \<Rightarrow> run) \<Rightarrow> run" where
  "read_loop [] err k = ([], Running)"
| "read_loop (Read_error errno # rs) err k =
     emit [Use Iter_fd] (if errno = EAGAIN then read_loop rs err k else k (- errno))"
| "read_loop (Read_eof # rs) err k = emit [Use Iter_fd] (k err)"
| "read_loop (Read_info buf # rs) err k =
     emit [Use Iter_fd, Out (task_line buf)] (read_loop rs err k)"

record task_iter_world =
  iw_open_and_load :: bool
  iw_attach :: int
  iw_iter_create :: int
  iw_reads :: "iter_read list"

text \<open>
  The cleanup code closes \<^verbatim>\<open>iter_fd\<close> always: when opening or attaching failed, that variable has no
  value yet. Closing a negative descriptor has no effect.
\<close>

definition task_iter_main :: "task_iter_world \<Rightarrow> run" where
  "task_iter_main w =
    (if \<not> iw_open_and_load w then ([Err ''Failed to open and load BPF skeleton''], Undefined)
     else emit [Acquire Skel]
       (let err = iw_attach w; ret = (\<lambda>err. Exit (if err < 0 then - err else 0)) in
        if err \<noteq> 0 then ([Err ''Failed to attach BPF skeleton''], Undefined)
        else if iw_iter_create w < 0
        then ([Err ''Failed to create iter'', Release Skel], ret (- 1))
        else emit [Acquire Iter_fd]
          (read_loop (iw_reads w) err (\<lambda>err. ([Release Iter_fd, Release Skel], ret err)))))"

declare get_tasks_def [handler_defs] task_iter_main_def [app_defs]

section \<open>Properties of the two sides\<close>

definition walks :: "(u64 list \<Rightarrow> int \<times> u64 list) \<Rightarrow> int \<Rightarrow> bool" where
  "walks get_stack res \<longleftrightarrow> (\<forall>buf. fst (get_stack buf) = res) \<and> - (2 ^ 31) \<le> res \<and> res \<le> 8 * int MAX_STACK_LEN"

text \<open>
  What a task's line says: its number of frames, or the error of the stack walker; a name cut to
  fifteen characters; the name of its state.
\<close>

definition described :: "task \<Rightarrow> int \<Rightarrow> string" where
  "described t res =
    (if res < 8
     then ''Error getting kernel stack for task. Task Info. Pid: '' @ dec_int (sint (tk_tgid t))
            @ ''. Process Name: '' @ take 15 (tk_comm t) @ ''. Kernel Stack Error: ''
            @ dec_int (min res 0) @ ''. State: '' @ task_state_name (get_task_state t) @ [newline]
     else ''Task Info. Pid: '' @ dec_int (sint (tk_tgid t)) @ ''. Process Name: '' @ take 15 (tk_comm t)
            @ ''. Kernel Stack Len: '' @ dec_int (res div 8) @ ''. State: ''
            @ task_state_name (get_task_state t) @ [newline])"

lemma get_tasks_described:
  assumes "walks (tk_get_stack t) res"
  shows "\<exists>r. get_tasks (Some t) (Some buf, out) = (Some r, out @ [r]) \<and> task_line r = described t res"
proof -
  define len where "len = (if res \<le> 0 then res else res div 8)"
  obtain st where st: "tk_get_stack t (ti_kstack buf) = (res, st)"
    using assms by (cases "tk_get_stack t (ti_kstack buf)") (auto simp: walks_def dest: spec [of _ "ti_kstack buf"])
  let ?r = "buf\<lparr>ti_pid := tk_tgid t, ti_tid := tk_pid t, ti_state := get_task_state t,
    ti_comm := take 15 (tk_comm t), ti_kstack := st, ti_kstack_len := word_of_int len\<rparr>"
  have "sint (word_of_int len :: s32) = len"
    using assms by (intro s32_of_int) (auto simp: walks_def len_def)
  moreover have "len \<le> 0 \<longleftrightarrow> res < 8" "res < 8 \<Longrightarrow> len = min res 0" "\<not> res < 8 \<Longrightarrow> len = res div 8"
    by (auto simp: len_def)
  ultimately have "task_line ?r = described t res"
    unfolding task_line_def described_def by (cases "res < 8") (force, force)
  then show ?thesis
    by (intro exI [of _ ?r]) (simp add: handler_defs st len_def Let_def)
qed

lemma iterate_described:
  assumes "list_all2 (\<lambda>t res. walks (tk_get_stack t) res) ts ress"
  shows "map task_line (snd (fold get_tasks (map Some ts @ [None]) (Some buf, out)))
    = map task_line out @ map2 described ts ress"
  using assms
proof (induction ts ress arbitrary: buf out rule: list_all2_induct)
  case (Cons t ts res ress)
  obtain r where "get_tasks (Some t) (Some buf, out) = (Some r, out @ [r])" "task_line r = described t res"
    using get_tasks_described [OF Cons.hyps(1)] by blast
  with Cons.IH [of r "out @ [r]"] show ?case by simp
qed (simp add: handler_defs)

fun infos :: "iter_read list \<Rightarrow> task_info list" where
  "infos [] = []"
| "infos (Read_info buf # rs) = buf # infos rs"
| "infos (_ # rs) = infos rs"

fun retryable :: "iter_read \<Rightarrow> bool" where
  "retryable (Read_error errno) \<longleftrightarrow> errno = EAGAIN"
| "retryable Read_eof \<longleftrightarrow> False"
| "retryable (Read_info buf) \<longleftrightarrow> True"

definition outs :: "act list \<Rightarrow> string list" where
  "outs xs = concat (map (\<lambda>a. case a of Out s \<Rightarrow> [s] | _ \<Rightarrow> []) xs)"

lemma read_loop_end:
  assumes "\<forall>r \<in> set rs. retryable r"
  shows "outs (fst (read_loop (rs @ [Read_eof]) err k)) = map task_line (infos rs) @ outs (fst (k err))
    \<and> snd (read_loop (rs @ [Read_eof]) err k) = snd (k err)"
  using assms by (induction rs err k rule: read_loop.induct) (simp_all add: outs_def)

section \<open>Properties\<close>


definition demo_task :: "s32 \<Rightarrow> task" where
  "demo_task pid = \<lparr>tk_tgid = pid, tk_pid = pid, tk_pre514_state = None, tk_post514_state = 1, tk_comm = ''init'',
     tk_get_stack = (\<lambda>buf. (24, [1, 2, 3] @ drop 3 buf))\<rparr>"

definition demo_info :: task_info where
  "demo_info = \<lparr>ti_pid = 9, ti_tid = 9, ti_state = 9, ti_comm = ''old'', ti_kstack_len = 9, ti_kstack = replicate 127 0\<rparr>"


section \<open>The life cycle\<close>

lemma read_loop_clean:
  "Iter_fd \<in> set H \<Longrightarrow> (\<And>err. clean H (k err)) \<Longrightarrow> clean H (read_loop rs err k)"
  by (induction rs err k rule: read_loop.induct) auto

definition task_iter_sound :: "task_iter_world \<Rightarrow> bool" where
  "task_iter_sound w \<longleftrightarrow> iw_open_and_load w \<and> iw_attach w = 0"

interpretation task_iter_app: program task_iter_main task_iter_sound
  by unfold_locales (auto simp: app_defs task_iter_sound_def Let_def intro!: read_loop_clean)

lemma task_iter_uninitialised:
  "\<not> task_iter_sound w \<Longrightarrow> snd (task_iter_main w) = Undefined"
  by (auto simp: app_defs task_iter_sound_def Let_def)

end
