(* ===== verification/Connect_Tracer.thy ===== *)
theory Connect_Tracer
  imports Bpf_Maps C_Text
begin

text \<open>
  The connection tracer, \<^verbatim>\<open>examples/rust/tracecon/src/bpf/tracecon.bpf.c\<close>: probes on \<^verbatim>\<open>getaddrinfo\<close>
  remember which host name resolved to which IPv4 address, probes on \<^verbatim>\<open>tcp_v4_connect\<close> report each
  successful connection by that name, or by address where no name is known. The state is three
  hash maps and the events sent. The map operations are arguments; the memory that the probes read
  (of the traced process, and the address of a kernel socket) comes with each event.
\<close>

section \<open>Data\<close>

abbreviation HOSTNAME_LEN :: nat where "HOSTNAME_LEN \<equiv> 84"
abbreviation tracecon_max_entries :: nat where "tracecon_max_entries \<equiv> 10240"

record lookup =
  l_c :: string
  l_results :: u64

datatype con_event = IP u32 | HOSTNAME string

record ('l, 'h, 's) tracecon_maps =
  lookups :: 'l
  hostnames :: 'h
  sockets :: 's
  con_events :: "con_event list"

record ('l, 'h, 's) tracecon_ops =
  lops :: "('l, u32, lookup) map_ops"
  hops :: "('h, u32, lookup) map_ops"
  kops :: "('s, u32, u64) map_ops"

text \<open>
  User memory: what an eight-byte and a four-byte read give, None where the address cannot be read
  (the kernel then clears the destination).
\<close>

record user_mem =
  mem8 :: "u64 \<rightharpoonup> u64"
  mem4 :: "u64 \<rightharpoonup> u32"

definition probe_read8 :: "user_mem \<Rightarrow> u64 \<Rightarrow> u64" where
  "probe_read8 mem a = (case mem8 mem a of Some v \<Rightarrow> v | None \<Rightarrow> 0)"

definition probe_read4 :: "user_mem \<Rightarrow> u64 \<Rightarrow> u32" where
  "probe_read4 mem a = (case mem4 mem a of Some v \<Rightarrow> v | None \<Rightarrow> 0)"

text \<open>Offsets in \<^verbatim>\<open>struct addrinfo\<close> and \<^verbatim>\<open>struct sockaddr_in\<close>.\<close>

abbreviation off_ai_addr :: u64 where "off_ai_addr \<equiv> 24"
abbreviation off_sin_addr :: u64 where "off_sin_addr \<equiv> 4"

definition first_address :: "user_mem \<Rightarrow> u64 \<Rightarrow> u32" where
  "first_address mem results =
    (let result = probe_read8 mem results;
         addr = probe_read8 mem (result + off_ai_addr)
     in probe_read4 mem (addr + off_sin_addr))"

section \<open>The probes\<close>

definition get_tid :: "s32 \<Rightarrow> u64 \<Rightarrow> u32" where
  "get_tid target_pid tgid =
    (let pid = tgid_of tgid in
     if target_pid \<noteq> 0 \<and> target_pid \<noteq> pid then 0 else tid_of tgid)"

definition getaddrinfo_enter ::
  "('l, 'h, 's) tracecon_ops \<Rightarrow> s32 \<Rightarrow> u64 \<Rightarrow> string \<Rightarrow> u64 \<Rightarrow>
   ('l, 'h, 's) tracecon_maps \<Rightarrow> ('l, 'h, 's) tracecon_maps" where
  "getaddrinfo_enter ops target_pid tgid hostname res s =
    (let tid = get_tid target_pid tgid in
     if tid = 0 then s
     else let lookup = \<lparr>l_c = take (HOSTNAME_LEN - 1) hostname, l_results = res\<rparr>
       in s\<lparr>lookups := fst (update_elem (lops ops) (lookups s) tid lookup)\<rparr>)"

definition getaddrinfo_exit ::
  "('l, 'h, 's) tracecon_ops \<Rightarrow> s32 \<Rightarrow> u64 \<Rightarrow> s32 \<Rightarrow> user_mem \<Rightarrow>
   ('l, 'h, 's) tracecon_maps \<Rightarrow> ('l, 'h, 's) tracecon_maps" where
  "getaddrinfo_exit ops target_pid tgid ret mem s =
    (let tid = get_tid target_pid tgid;
         cleanup = (\<lambda>s. s\<lparr>lookups := fst (delete_elem (lops ops) (lookups s) tid)\<rparr>) in
     if tid = 0 then s
     else if ret \<noteq> 0 then cleanup s
     else case lookup_elem (lops ops) (lookups s) tid of
       None \<Rightarrow> s
     | Some lookup \<Rightarrow>
        (let ipv4_addr = first_address mem (l_results lookup)
         in cleanup (s\<lparr>hostnames := fst (update_elem (hops ops) (hostnames s) ipv4_addr lookup)\<rparr>)))"

definition tcp_v4_connect_enter ::
  "('l, 'h, 's) tracecon_ops \<Rightarrow> s32 \<Rightarrow> u64 \<Rightarrow> u64 \<Rightarrow>
   ('l, 'h, 's) tracecon_maps \<Rightarrow> ('l, 'h, 's) tracecon_maps" where
  "tcp_v4_connect_enter ops target_pid tgid sk s =
    (let tid = get_tid target_pid tgid in
     if tid = 0 then s
     else s\<lparr>sockets := fst (update_elem (kops ops) (sockets s) tid sk)\<rparr>)"

text \<open>\<open>skc_daddr\<close> reads the destination address of a kernel socket.\<close>

definition tcp_v4_connect_exit ::
  "('l, 'h, 's) tracecon_ops \<Rightarrow> s32 \<Rightarrow> u64 \<Rightarrow> s32 \<Rightarrow> (u64 \<Rightarrow> u32) \<Rightarrow>
   ('l, 'h, 's) tracecon_maps \<Rightarrow> ('l, 'h, 's) tracecon_maps" where
  "tcp_v4_connect_exit ops target_pid tgid ret skc_daddr s =
    (let tid = get_tid target_pid tgid;
         cleanup = (\<lambda>s. s\<lparr>sockets := fst (delete_elem (kops ops) (sockets s) tid)\<rparr>) in
     if tid = 0 then s
     else if ret \<noteq> 0 then cleanup s
     else case lookup_elem (kops ops) (sockets s) tid of
       None \<Rightarrow> s
     | Some sk \<Rightarrow>
        (let ip = skc_daddr sk;
             (event, s) = (case lookup_elem (hops ops) (hostnames s) ip of
                None \<Rightarrow> (IP ip, s)
              | Some lookup \<Rightarrow> (HOSTNAME (l_c lookup),
                  s\<lparr>hostnames := fst (delete_elem (hops ops) (hostnames s) ip)\<rparr>))
         in cleanup (s\<lparr>con_events := con_events s @ [event]\<rparr>)))"

datatype probe =
    Lookup_enter u64 string u64
  | Lookup_exit u64 s32 user_mem
  | Connect_enter u64 u64
  | Connect_exit u64 s32 "u64 \<Rightarrow> u32"

fun tracecon_step ::
  "('l, 'h, 's) tracecon_ops \<Rightarrow> s32 \<Rightarrow> probe \<Rightarrow> ('l, 'h, 's) tracecon_maps \<Rightarrow> ('l, 'h, 's) tracecon_maps" where
  "tracecon_step ops tp (Lookup_enter tgid host res) s = getaddrinfo_enter ops tp tgid host res s"
| "tracecon_step ops tp (Lookup_exit tgid ret mem) s = getaddrinfo_exit ops tp tgid ret mem s"
| "tracecon_step ops tp (Connect_enter tgid sk) s = tcp_v4_connect_enter ops tp tgid sk s"
| "tracecon_step ops tp (Connect_exit tgid ret daddr) s = tcp_v4_connect_exit ops tp tgid ret daddr s"

definition tracecon_run ::
  "('l, 'h, 's) tracecon_ops \<Rightarrow> s32 \<Rightarrow> probe list \<Rightarrow> ('l, 'h, 's) tracecon_maps \<Rightarrow> ('l, 'h, 's) tracecon_maps" where
  "tracecon_run ops tp ps s = fold (tracecon_step ops tp) ps s"

declare getaddrinfo_enter_def [handler_defs] getaddrinfo_exit_def [handler_defs]
  tcp_v4_connect_enter_def [handler_defs] tcp_v4_connect_exit_def [handler_defs]

lemma tracecon_run_snoc [simp]:
    "tracecon_run ops tp (ps @ [p]) s = tracecon_step ops tp p (tracecon_run ops tp ps s)"
  and tracecon_run_Nil [simp]: "tracecon_run ops tp [] s = s"
  by (simp_all add: tracecon_run_def)

section \<open>The abstract tracer\<close>

text \<open>
  What the tracer knows: the lookups and connects in progress, by thread, and the name under which
  each address was last resolved and not yet reported.
\<close>

record knowledge =
  pending :: "u32 \<rightharpoonup> lookup"
  named :: "u32 \<rightharpoonup> string"
  connecting :: "u32 \<rightharpoonup> u64"
  reported :: "con_event list"

fun learn :: "s32 \<Rightarrow> probe \<Rightarrow> knowledge \<Rightarrow> knowledge" where
  "learn tp (Lookup_enter tgid host res) K =
     (if get_tid tp tgid = 0 then K
      else K\<lparr>pending := (pending K)(get_tid tp tgid \<mapsto> \<lparr>l_c = take 83 host, l_results = res\<rparr>)\<rparr>)"
| "learn tp (Lookup_exit tgid ret mem) K =
     (case pending K (get_tid tp tgid) of
        Some l \<Rightarrow> if get_tid tp tgid = 0 then K
          else K\<lparr>pending := (pending K)(get_tid tp tgid := None),
                 named := (if ret = 0 then (named K)(first_address mem (l_results l) \<mapsto> l_c l) else named K)\<rparr>
      | None \<Rightarrow> K)"
| "learn tp (Connect_enter tgid sk) K =
     (if get_tid tp tgid = 0 then K else K\<lparr>connecting := (connecting K)(get_tid tp tgid \<mapsto> sk)\<rparr>)"
| "learn tp (Connect_exit tgid ret daddr) K =
     (case connecting K (get_tid tp tgid) of
        Some sk \<Rightarrow> if get_tid tp tgid = 0 then K
          else K\<lparr>connecting := (connecting K)(get_tid tp tgid := None),
                 named := (if ret = 0 then (named K)(daddr sk := None) else named K),
                 reported := reported K @ (if ret = 0 then
                   [case named K (daddr sk) of None \<Rightarrow> IP (daddr sk) | Some h \<Rightarrow> HOSTNAME h] else [])\<rparr>
      | None \<Rightarrow> K)"

definition knows_nothing :: knowledge where
  "knows_nothing = \<lparr>pending = Map.empty, named = Map.empty, connecting = Map.empty, reported = []\<rparr>"

definition learned :: "s32 \<Rightarrow> probe list \<Rightarrow> knowledge" where
  "learned tp ps = fold (learn tp) ps knows_nothing"

lemma learned_snoc [simp]: "learned tp (ps @ [p]) = learn tp p (learned tp ps)"
  and learned_Nil [simp]: "learned tp [] = knows_nothing"
  by (simp_all add: learned_def)

definition fits :: "knowledge \<Rightarrow> bool" where
  "fits K \<longleftrightarrow> card (dom (pending K)) \<le> tracecon_max_entries \<and> card (dom (named K)) \<le> tracecon_max_entries
     \<and> card (dom (connecting K)) \<le> tracecon_max_entries"

definition always_fits :: "s32 \<Rightarrow> probe list \<Rightarrow> bool" where
  "always_fits tp ps \<longleftrightarrow> (\<forall>n \<le> length ps. fits (learned tp (take n ps)))"

lemma always_fits_snoc:
  "always_fits tp (ps @ [p]) \<longleftrightarrow> always_fits tp ps \<and> fits (learn tp p (learned tp ps))"
  by (auto simp: always_fits_def le_Suc_eq all_conj_distrib)

section \<open>Refinement\<close>

definition knows :: "('l, 'h, 's) tracecon_ops \<Rightarrow> ('l, 'h, 's) tracecon_maps \<Rightarrow> knowledge \<Rightarrow> bool" where
  "knows ops s K \<longleftrightarrow> lookup_elem (lops ops) (lookups s) = pending K
     \<and> (\<lambda>ip. map_option l_c (lookup_elem (hops ops) (hostnames s) ip)) = named K
     \<and> lookup_elem (kops ops) (sockets s) = connecting K \<and> con_events s = reported K"

definition tracecon_ok ::
  "('l \<Rightarrow> bool) \<Rightarrow> ('h \<Rightarrow> bool) \<Rightarrow> ('s \<Rightarrow> bool) \<Rightarrow> ('l, 'h, 's) tracecon_maps \<Rightarrow> bool" where
  "tracecon_ok linv hinv kinv s \<longleftrightarrow> linv (lookups s) \<and> hinv (hostnames s) \<and> kinv (sockets s)"

lemma named_eq: "knows ops s K \<Longrightarrow> named K ip = map_option l_c (lookup_elem (hops ops) (hostnames s) ip)"
  by (auto simp: knows_def fun_eq_iff)

locale connect_tracer =
    lk: bpf_hash_map "lops ops" linv tracecon_max_entries
  + hn: bpf_hash_map "hops ops" hinv tracecon_max_entries
  + so: bpf_hash_map "kops ops" kinv tracecon_max_entries
  for ops :: "('l, 'h, 's) tracecon_ops" and linv hinv kinv
begin

lemma dom_named: "knows ops s K \<Longrightarrow> dom (named K) = dom (lookup_elem (hops ops) (hostnames s))"
  by (auto simp: named_eq dom_def)

lemma step_ok: "tracecon_ok linv hinv kinv s \<Longrightarrow> tracecon_ok linv hinv kinv (tracecon_step ops tp p s)"
  by (cases p) (auto simp: tracecon_ok_def handler_defs Let_def lk.inv_update_fst lk.inv_delete hn.inv_update_fst
      hn.inv_delete so.inv_update_fst so.inv_delete split: option.split)

lemma step_knows:
  assumes "tracecon_ok linv hinv kinv s" "knows ops s K" "fits (learn tp p K)"
  shows "knows ops (tracecon_step ops tp p s) (learn tp p K)"
proof -
  have i: "linv (lookups s)" "hinv (hostnames s)" "kinv (sockets s)" using assms(1) by (auto simp: tracecon_ok_def)
  note k = assms(2) [unfolded knows_def]
  note del = lk.lookup_delete [OF i(1)] hn.lookup_delete [OF i(2)] so.lookup_delete [OF i(3)]
  show ?thesis
  proof (cases p)
    case (Lookup_enter tgid host res)
    with assms(3) k show ?thesis
      by (auto simp: handler_defs knows_def fits_def Let_def lk.lookup_update_fits [OF i(1) i(1)]
          split: if_splits)
  next
    case (Lookup_exit tgid ret mem)
    show ?thesis
    proof (cases "pending K (get_tid tp tgid)")
      case None
      with Lookup_exit k show ?thesis
        by (auto simp: handler_defs knows_def Let_def del fun_eq_iff)
    next
      case (Some l)
      with Lookup_exit assms(3) k dom_named [OF assms(2)] show ?thesis
        by (auto simp: handler_defs knows_def fits_def Let_def del hn.lookup_update_fits [OF i(2) i(2)]
            fun_eq_iff split: if_splits)
    qed
  next
    case (Connect_enter tgid sk)
    with assms(3) k show ?thesis
      by (auto simp: handler_defs knows_def fits_def Let_def so.lookup_update_fits [OF i(3) i(3)]
          split: if_splits)
  next
    case (Connect_exit tgid ret daddr)
    show ?thesis
    proof (cases "connecting K (get_tid tp tgid)")
      case None
      with Connect_exit k show ?thesis
        by (auto simp: handler_defs knows_def Let_def del fun_eq_iff)
    next
      case (Some sk)
      with Connect_exit k named_eq [OF assms(2), of "daddr sk"] show ?thesis
        by (cases "lookup_elem (hops ops) (hostnames s) (daddr sk)")
          (auto simp: handler_defs knows_def Let_def del fun_eq_iff)
    qed
  qed
qed

lemma run_knows:
  assumes "tracecon_ok linv hinv kinv s" "knows ops s knows_nothing" "always_fits tp ps"
  shows "tracecon_ok linv hinv kinv (tracecon_run ops tp ps s) \<and> knows ops (tracecon_run ops tp ps s) (learned tp ps)"
  using assms(3)
  by (induction ps rule: rev_induct) (use assms(1,2) in \<open>simp_all add: always_fits_snoc step_ok step_knows\<close>)

end

section \<open>What threads do not disturb\<close>

fun probe_tgid :: "probe \<Rightarrow> u64" where
  "probe_tgid (Lookup_enter tgid host res) = tgid"
| "probe_tgid (Lookup_exit tgid ret mem) = tgid"
| "probe_tgid (Connect_enter tgid sk) = tgid"
| "probe_tgid (Connect_exit tgid ret daddr) = tgid"

text \<open>The event neither resolves to an address nor connects to it.\<close>

fun avoids :: "u32 \<Rightarrow> probe \<Rightarrow> bool" where
  "avoids ip (Lookup_exit tgid ret mem) \<longleftrightarrow> (\<forall>results. first_address mem results \<noteq> ip)"
| "avoids ip (Connect_exit tgid ret daddr) \<longleftrightarrow> (\<forall>sk. daddr sk \<noteq> ip)"
| "avoids ip _ \<longleftrightarrow> True"

lemma learn_frame:
  "get_tid tp (probe_tgid p) \<noteq> t \<Longrightarrow> pending (learn tp p K) t = pending K t"
  "get_tid tp (probe_tgid p) \<noteq> t \<Longrightarrow> connecting (learn tp p K) t = connecting K t"
  "avoids ip p \<Longrightarrow> named (learn tp p K) ip = named K ip"
  by (cases p; auto split: option.split)+

lemma fold_learn_frame:
  "\<forall>p \<in> set ps. get_tid tp (probe_tgid p) \<noteq> t \<Longrightarrow> pending (fold (learn tp) ps K) t = pending K t"
  "\<forall>p \<in> set ps. get_tid tp (probe_tgid p) \<noteq> t \<Longrightarrow> connecting (fold (learn tp) ps K) t = connecting K t"
  "\<forall>p \<in> set ps. avoids ip p \<Longrightarrow> named (fold (learn tp) ps K) ip = named K ip"
  by (induction ps arbitrary: K) (simp_all add: learn_frame)

lemma learned_name:
  assumes "get_tid tp tgid = t" "t \<noteq> 0" "first_address mem res = ip" "daddr sk = ip"
    and "\<forall>p \<in> set ma \<union> set mc. get_tid tp (probe_tgid p) \<noteq> t" "\<forall>p \<in> set mb \<union> set mc. avoids ip p"
  shows "reported (learned tp (pre @ [Lookup_enter tgid host res] @ ma @ [Lookup_exit tgid 0 mem] @ mb
      @ [Connect_enter tgid sk] @ mc @ [Connect_exit tgid 0 daddr]))
    = reported (learned tp (pre @ [Lookup_enter tgid host res] @ ma @ [Lookup_exit tgid 0 mem] @ mb
      @ [Connect_enter tgid sk] @ mc)) @ [HOSTNAME (take 83 host)]"
proof -
  define K1 where "K1 = fold (learn tp) ma (learn tp (Lookup_enter tgid host res) (learned tp pre))"
  define K2 where "K2 = fold (learn tp) mb (learn tp (Lookup_exit tgid 0 mem) K1)"
  define K3 where "K3 = fold (learn tp) mc (learn tp (Connect_enter tgid sk) K2)"
  have "pending K1 t = Some \<lparr>l_c = take 83 host, l_results = res\<rparr>"
    using assms by (simp add: K1_def fold_learn_frame(1))
  then have "named K2 ip = Some (take 83 host)"
    using assms by (simp add: K2_def fold_learn_frame(3))
  then have "named K3 ip = Some (take 83 host)" and "connecting K3 t = Some sk"
    using assms by (simp_all add: K3_def fold_learn_frame(2,3))
  moreover have "learned tp (pre @ [Lookup_enter tgid host res] @ ma @ [Lookup_exit tgid 0 mem] @ mb
      @ [Connect_enter tgid sk] @ mc) = K3"
    by (simp add: K1_def K2_def K3_def learned_def)
  moreover have "learned tp (pre @ [Lookup_enter tgid host res] @ ma @ [Lookup_exit tgid 0 mem] @ mb
      @ [Connect_enter tgid sk] @ mc @ [Connect_exit tgid 0 daddr]) = learn tp (Connect_exit tgid 0 daddr) K3"
    by (simp add: K1_def K2_def K3_def learned_def)
  ultimately show ?thesis using assms(1,2,4) by simp
qed

section \<open>Short runs fit the maps\<close>

lemma grow_by_one:
  assumes "finite (dom M)" "card (dom M) \<le> n" "dom M' \<subseteq> insert k (dom M)"
  shows "finite (dom M') \<and> card (dom M') \<le> Suc n"
proof -
  have "card (dom M') \<le> card (insert k (dom M))" using assms(1,3) by (intro card_mono) auto
  also have "\<dots> \<le> Suc n" using assms(1,2) by (simp add: card_insert_if)
  finally show ?thesis using assms(1,3) finite_subset by auto
qed

lemma learn_dom:
  "\<exists>k. dom (pending (learn tp p K)) \<subseteq> insert k (dom (pending K))"
  "\<exists>k. dom (named (learn tp p K)) \<subseteq> insert k (dom (named K))"
  "\<exists>k. dom (connecting (learn tp p K)) \<subseteq> insert k (dom (connecting K))"
  by (cases p; auto split: option.split)+

lemma card_learned_field:
  assumes "dom (f knows_nothing) = {}" "\<And>p K. \<exists>k. dom (f (learn tp p K)) \<subseteq> insert k (dom (f K))"
  shows "finite (dom (f (learned tp ps))) \<and> card (dom (f (learned tp ps))) \<le> length ps"
proof (induction ps rule: rev_induct)
  case (snoc p ps)
  obtain k where "dom (f (learn tp p (learned tp ps))) \<subseteq> insert k (dom (f (learned tp ps)))"
    using assms(2) by blast
  with snoc.IH show ?case using grow_by_one by (metis learned_snoc length_append_singleton)
qed (simp add: assms(1))

lemma card_learned:
  "card (dom (pending (learned tp ps))) \<le> length ps"
  "card (dom (named (learned tp ps))) \<le> length ps"
  "card (dom (connecting (learned tp ps))) \<le> length ps"
  using card_learned_field [where f = pending, OF _ learn_dom(1)]
    card_learned_field [where f = named, OF _ learn_dom(2)]
    card_learned_field [where f = connecting, OF _ learn_dom(3)]
  by (simp_all add: knows_nothing_def)

lemma few_probes_fit: "length ps \<le> tracecon_max_entries \<Longrightarrow> always_fits tp ps"
  by (auto simp: always_fits_def fits_def intro: order.trans [OF card_learned(1)]
      order.trans [OF card_learned(2)] order.trans [OF card_learned(3)])

section \<open>The maps of the program\<close>

abbreviation con_ops ::
  "((u32 \<times> lookup) list, (u32 \<times> lookup) list, (u32 \<times> u64) list) tracecon_ops" where
  "con_ops \<equiv> \<lparr>lops = alist_ops tracecon_max_entries, hops = alist_ops tracecon_max_entries,
     kops = alist_ops tracecon_max_entries\<rparr>"

interpretation tracecon: connect_tracer con_ops "alist_inv tracecon_max_entries"
    "alist_inv tracecon_max_entries" "alist_inv tracecon_max_entries"
  by (simp add: connect_tracer_def alist_map_axioms)

section \<open>Properties\<close>

text \<open>
  C9. Over any interleaving of the four probes in which the maps do not overflow, the three maps
  and the events sent are those of the abstract tracer: per thread the lookup and the connect in
  progress, per address the name under which it was last resolved and not yet reported.\<close>

theorem tracecon_refines:
  assumes "connect_tracer ops linv hinv kinv" and "tracecon_ok linv hinv kinv s"
    and "knows ops s knows_nothing" and "always_fits tp ps"
  shows "tracecon_ok linv hinv kinv (tracecon_run ops tp ps s) \<and>
    knows ops (tracecon_run ops tp ps s) (learned tp ps)"
  by (rule connect_tracer.run_knows [OF assms])

definition demo_mem :: user_mem where
  "demo_mem = \<lparr>mem8 = [0x7000 \<mapsto> 0x8000, 0x8018 \<mapsto> 0x9000], mem4 = [0x9004 \<mapsto> 0x22D8B85D]\<rparr>"

definition demo_probes :: "probe list" where
  "demo_probes = [] @ [Lookup_enter 0x500000006 ''example.org'' 0x7000]
     @ [Lookup_enter 0x500000007 ''localhost'' 0x7100] @ [Lookup_exit 0x500000006 0 demo_mem]
     @ [Lookup_exit 0x500000007 2 \<lparr>mem8 = Map.empty, mem4 = Map.empty\<rparr>] @ [Connect_enter 0x500000006 0xAA] @ []
     @ [Connect_exit 0x500000006 0 (\<lambda>sk. 0x22D8B85D)]"

definition no_cons :: "((u32 \<times> lookup) list, (u32 \<times> lookup) list, (u32 \<times> u64) list) tracecon_maps" where
  "no_cons = \<lparr>lookups = [], hostnames = [], sockets = [], con_events = []\<rparr>"

lemma no_cons_ok:
  "tracecon_ok (alist_inv tracecon_max_entries) (alist_inv tracecon_max_entries) (alist_inv tracecon_max_entries) no_cons"
  "knows con_ops no_cons knows_nothing"
  by (simp_all add: tracecon_ok_def knows_def no_cons_def knows_nothing_def)

lemma demo_probes_fit: "always_fits 5 demo_probes"
  by (rule few_probes_fit) (simp add: demo_probes_def)

theorem tracecon_refines_witness:
  "knows con_ops (tracecon_run con_ops 5 demo_probes no_cons) (learned 5 demo_probes)"
  using tracecon_refines [OF tracecon.connect_tracer_axioms no_cons_ok demo_probes_fit] by blast

text \<open>
  C10. A connection is reported by name: a thread resolves a host name and later connects to the address that came
  first in the result, while other threads go through the same probes in any interleaving. Then the event of
  the connection carries that name, cut to 83 characters. Three conditions: after the name was resolved and
  until the connection is made, no thread resolves a name to the same address or completes a connection to it
  (a second name would replace the first, and another connection would use the name up); the thread itself goes
  through no other probe during its call of \<^verbatim>\<open>getaddrinfo\<close> or of \<^verbatim>\<open>connect\<close>; and the maps never overflow.\<close>

theorem resolved_connection_named:
  assumes "connect_tracer ops linv hinv kinv" and "tracecon_ok linv hinv kinv s"
    and "knows ops s knows_nothing"
    and "get_tid tp tgid = t" "t \<noteq> 0" "first_address mem res = ip" "daddr sk = ip"
    and "\<forall>p \<in> set ma \<union> set mc. get_tid tp (probe_tgid p) \<noteq> t" and "\<forall>p \<in> set mb \<union> set mc. avoids ip p"
    and "ps = pre @ [Lookup_enter tgid host res] @ ma @ [Lookup_exit tgid 0 mem] @ mb
      @ [Connect_enter tgid sk] @ mc @ [Connect_exit tgid 0 daddr]"
    and "always_fits tp ps"
  shows "last (con_events (tracecon_run ops tp ps s)) = HOSTNAME (take 83 host)"
proof -
  have "con_events (tracecon_run ops tp ps s) = reported (learned tp ps)"
    using connect_tracer.run_knows [OF assms(1-3,11)] by (simp add: knows_def)
  then show ?thesis
    using learned_name [where pre = pre and host = host and daddr = daddr and sk = sk, OF assms(4-9)] by (simp add: assms(10))
qed

theorem resolved_connection_named_witness:
  "last (con_events (tracecon_run con_ops 5 demo_probes no_cons)) = HOSTNAME ''example.org''"
  using resolved_connection_named [OF tracecon.connect_tracer_axioms no_cons_ok,
      where tp = 5 and tgid = "0x500000006" and t = 6 and mem = demo_mem and res = "0x7000" and ip = "0x22D8B85D"
        and daddr = "\<lambda>sk. 0x22D8B85D" and sk = "0xAA" and ma = "[Lookup_enter 0x500000007 ''localhost'' 0x7100]"
        and mb = "[Lookup_exit 0x500000007 2 \<lparr>mem8 = Map.empty, mem4 = Map.empty\<rparr>]" and mc = "[]"
        and ps = demo_probes and pre = "[]" and host = "''example.org''"]
    demo_probes_fit
  by (simp add: get_tid_def tgid_of_def tid_of_def first_address_def probe_read8_def probe_read4_def
      demo_mem_def demo_probes_def)

end
