(* ===== verification/Probe_Examples.thy ===== *)
theory Probe_Examples
  imports Bpf_Maps App_Lifecycle "HOL-Library.Monad_Syntax"
begin

text \<open>
  The small probe programs of \<^verbatim>\<open>examples/c\<close>: \<^verbatim>\<open>minimal\<close>, \<^verbatim>\<open>minimal_ns\<close>, \<^verbatim>\<open>minimal_legacy\<close>, \<^verbatim>\<open>usdt\<close>,
  \<^verbatim>\<open>uprobe\<close>, \<^verbatim>\<open>fentry\<close>, \<^verbatim>\<open>ksyscall\<close> and \<^verbatim>\<open>lsm\<close>. Each BPF program is a function from what it reads to
  the lines it prints to the trace pipe and its return value; each \<^verbatim>\<open>main\<close> is a run over the answers
  of the environment. The programs that trace only their own process share the locale \<open>pid_filter\<close>.
\<close>

section \<open>The BPF programs\<close>

type_synonym traced = "string list \<times> int"

definition triggered :: "s32 \<Rightarrow> string" where
  "triggered pid = ''BPF triggered from PID '' @ dec_int (sint pid) @ ''.'' @ [newline]"

text \<open>\<^verbatim>\<open>minimal.bpf.c\<close>\<close>

definition minimal_handle_tp :: "s32 \<Rightarrow> u64 \<Rightarrow> traced" where
  "minimal_handle_tp my_pid ids =
    (let pid = tgid_of ids in
     if pid \<noteq> my_pid then ([], 0) else ([triggered pid], 0))"

text \<open>
  \<^verbatim>\<open>minimal_ns.bpf.c\<close>: \<open>get_ns dev ino\<close> is the process id in a namespace that
  \<^verbatim>\<open>bpf_get_ns_current_pid_tgid\<close> stores.
\<close>

definition minimal_ns_handle_tp :: "s32 \<Rightarrow> u64 \<Rightarrow> u64 \<Rightarrow> (u64 \<Rightarrow> u64 \<Rightarrow> s32) \<Rightarrow> traced" where
  "minimal_ns_handle_tp my_pid dev ino get_ns =
    (let ns_pid = get_ns dev ino in
     if ns_pid \<noteq> my_pid then ([], 0) else ([triggered ns_pid], 0))"

text \<open>\<^verbatim>\<open>minimal_legacy.bpf.c\<close>, with its array map of one entry.\<close>

definition minimal_legacy_handle_tp :: "('m, u32, s32) map_ops \<Rightarrow> 'm \<Rightarrow> u64 \<Rightarrow> traced" where
  "minimal_legacy_handle_tp mops my_pid_map ids =
    (let index = 0; pid = tgid_of ids in
     case lookup_elem mops my_pid_map index of
       None \<Rightarrow> ([], 1)
     | Some my_pid \<Rightarrow> if my_pid \<noteq> pid then ([], 1) else ([triggered pid], 0))"

definition lhex :: "u64 \<Rightarrow> string" where
  "lhex a = to_base 16 (unat a)"

text \<open>\<^verbatim>\<open>usdt.bpf.c\<close>\<close>

definition usdt_message :: "string \<Rightarrow> u64 \<Rightarrow> s32 \<Rightarrow> u64 \<Rightarrow> string" where
  "usdt_message how arg1 arg2 arg3 =
     ''USDT '' @ how @ '' attach to libc:setjmp: arg1 = '' @ lhex arg1 @ '', arg2 = '' @ dec_int (sint arg2)
       @ '', arg3 = '' @ lhex arg3"

definition usdt_auto_attach :: "s32 \<Rightarrow> u64 \<Rightarrow> u64 \<Rightarrow> s32 \<Rightarrow> u64 \<Rightarrow> traced" where
  "usdt_auto_attach my_pid ids arg1 arg2 arg3 =
    (let pid = tgid_of ids in
     if pid \<noteq> my_pid then ([], 0) else ([usdt_message ''auto'' arg1 arg2 arg3], 0))"

definition usdt_manual_attach :: "u64 \<Rightarrow> s32 \<Rightarrow> u64 \<Rightarrow> traced" where
  "usdt_manual_attach arg1 arg2 arg3 = ([usdt_message ''manual'' arg1 arg2 arg3], 0)"

text \<open>\<^verbatim>\<open>uprobe.bpf.c\<close>\<close>

definition uprobe_add :: "int \<Rightarrow> int \<Rightarrow> traced" where
  "uprobe_add a b = ([''uprobed_add ENTRY: a = '' @ dec_int a @ '', b = '' @ dec_int b], 0)"

definition uretprobe_add :: "int \<Rightarrow> traced" where
  "uretprobe_add ret = ([''uprobed_add EXIT: return = '' @ dec_int ret], 0)"

definition uprobe_sub :: "int \<Rightarrow> int \<Rightarrow> traced" where
  "uprobe_sub a b = ([''uprobed_sub ENTRY: a = '' @ dec_int a @ '', b = '' @ dec_int b], 0)"

definition uretprobe_sub :: "int \<Rightarrow> traced" where
  "uretprobe_sub ret = ([''uprobed_sub EXIT: return = '' @ dec_int ret], 0)"

text \<open>\<^verbatim>\<open>fentry.bpf.c\<close>\<close>

definition do_unlinkat :: "u64 \<Rightarrow> string \<Rightarrow> traced" where
  "do_unlinkat ids name =
     ([''fentry: pid = '' @ dec_int (sint (tgid_of ids)) @ '', filename = '' @ name @ [newline]], 0)"

definition do_unlinkat_exit :: "u64 \<Rightarrow> string \<Rightarrow> s64 \<Rightarrow> traced" where
  "do_unlinkat_exit ids name ret =
     ([''fexit: pid = '' @ dec_int (sint (tgid_of ids)) @ '', filename = '' @ name @ '', ret = ''
        @ dec_int (sint ret) @ [newline]], 0)"

text \<open>\<^verbatim>\<open>ksyscall.bpf.c\<close>\<close>

definition tgkill_entry :: "u64 \<Rightarrow> string \<Rightarrow> s32 \<Rightarrow> s32 \<Rightarrow> s32 \<Rightarrow> traced" where
  "tgkill_entry ids comm tgid tid sig =
    (let caller_pid = tgid_of ids in
     if sig = 0 then ([], 0)
     else ([''tgkill syscall called by PID '' @ dec_int (sint caller_pid) @ '' ('' @ take 15 comm
              @ '') for thread id '' @ dec_int (sint tid) @ '' with pid '' @ dec_int (sint tgid)
              @ '' and signal '' @ dec_int (sint sig) @ ''.''], 0))"

definition entry_probe :: "u64 \<Rightarrow> string \<Rightarrow> s32 \<Rightarrow> s32 \<Rightarrow> traced" where
  "entry_probe ids comm pid sig =
    (let caller_pid = tgid_of ids in
     if sig = 0 then ([], 0)
     else ([''KILL syscall called by PID '' @ dec_int (sint caller_pid) @ '' ('' @ take 15 comm
              @ '') for PID '' @ dec_int (sint pid) @ '' with signal '' @ dec_int (sint sig) @ ''.''], 0))"

text \<open>\<^verbatim>\<open>lsm.bpf.c\<close>\<close>

abbreviation (input) EPERM :: int where "EPERM \<equiv> 1"

definition lsm_bpf :: "int \<Rightarrow> traced" where
  "lsm_bpf ret = (if ret \<noteq> 0 then ([], ret) else ([''LSM: block bpf() worked''], - EPERM))"

section \<open>The main programs\<close>

text \<open>The answers of the environment; a zero \<open>errno\<close> stands for a call that succeeded.\<close>

record probe_world =
  ew_open :: bool
  ew_getpid :: int
  ew_stat :: "(int \<times> int) option"
  ew_load :: int
  ew_map_update :: int
  ew_link_errno :: "nat \<Rightarrow> int"
  ew_attach :: int
  ew_signal_errno :: int
  ew_stop :: "bool list"
  ew_turns :: nat

definition minimal_main :: "probe_world \<Rightarrow> run" where
  "minimal_main w =
    (if \<not> ew_open w then ([Err ''Failed to open BPF skeleton''], Exit 1)
     else emit [Acquire Skel, Poke Skel ''my_pid'' (ew_getpid w)]
       (let cleanup = (\<lambda>err. ([Release Skel], Exit (- err))); err = ew_load w in
        if err \<noteq> 0 then emit [Err ''Failed to load and verify BPF skeleton''] (cleanup err)
        else let err = ew_attach w in
          if err \<noteq> 0 then emit [Err ''Failed to attach BPF skeleton''] (cleanup err)
          else emit [Out ''Successfully started!''] (forever (ew_turns w))))"

definition minimal_ns_main :: "probe_world \<Rightarrow> run" where
  "minimal_ns_main w =
    (if \<not> ew_open w then ([Err ''Failed to open BPF skeleton''], Exit 1)
     else emit [Acquire Skel]
       (case ew_stat w of
          None \<Rightarrow> ([Err ''Failed to acquire namespace information''], Exit 1)
        | Some (st_dev, st_ino) \<Rightarrow>
           emit [Poke Skel ''dev'' st_dev, Poke Skel ''ino'' st_ino, Poke Skel ''my_pid'' (ew_getpid w)]
             (let cleanup = (\<lambda>err. ([Release Skel], Exit (- err))); err = ew_load w in
              if err \<noteq> 0 then emit [Err ''Failed to load and verify BPF skeleton''] (cleanup err)
              else let err = ew_attach w in
                if err \<noteq> 0 then emit [Err ''Failed to attach BPF skeleton''] (cleanup err)
                else emit [Out ''Successfully started!''] (forever (ew_turns w)))))"

definition minimal_legacy_main :: "probe_world \<Rightarrow> run" where
  "minimal_legacy_main w =
    (if \<not> ew_open w then ([Err ''Failed to open and load BPF skeleton''], Exit 1)
     else emit [Acquire Skel]
       (let cleanup = (\<lambda>err. ([Release Skel], Exit (- err))); err = ew_map_update w in
        if err < 0 then emit [Err ''Error updating map with pid''] (cleanup err)
        else emit [Poke Skel ''my_pid_map'' (ew_getpid w)]
          (let err = ew_attach w in
           if err \<noteq> 0 then emit [Err ''Failed to attach BPF skeleton''] (cleanup err)
           else emit [Out ''Successfully started!''] (forever (ew_turns w)))))"

text \<open>The result of \<^verbatim>\<open>usdt_bpf__load\<close> is stored but the test that follows is on \<^verbatim>\<open>skel\<close>.\<close>

definition usdt_main :: "probe_world \<Rightarrow> run" where
  "usdt_main w =
    (if \<not> ew_open w then ([Err ''Failed to open BPF skeleton''], Exit 1)
     else emit [Acquire Skel, Poke Skel ''my_pid'' (ew_getpid w)]
       (let cleanup = (\<lambda>err. ([Release Skel], Exit (- err))); err = ew_load w in
        if ew_link_errno w 0 \<noteq> 0
        then emit [Err ''Failed to attach BPF program `usdt_manual_attach`''] (cleanup (ew_link_errno w 0))
        else let err = ew_attach w in
          if err \<noteq> 0 then emit [Err ''Failed to attach BPF skeleton''] (cleanup err)
          else if ew_signal_errno w \<noteq> 0
          then emit [Err ''can't set signal handler''] (cleanup (ew_signal_errno w))
          else emit [Out ''Successfully started!''] (wait_loop (ew_stop w) (cleanup err))))"

definition fentry_main :: "probe_world \<Rightarrow> run" where
  "fentry_main w =
    (if \<not> ew_open w then ([Err ''Failed to open BPF skeleton''], Exit 1)
     else emit [Acquire Skel]
       (let cleanup = (\<lambda>err. ([Release Skel], Exit (- err))); err = ew_attach w in
        if err \<noteq> 0 then emit [Err ''Failed to attach BPF skeleton''] (cleanup err)
        else if ew_signal_errno w \<noteq> 0 then emit [Err ''can't set signal handler''] (cleanup err)
        else emit [Out ''Successfully started!''] (wait_loop (ew_stop w) (cleanup err))))"

definition ksyscall_main :: "probe_world \<Rightarrow> run" where
  "ksyscall_main w =
    (if \<not> ew_open w then ([Err ''Failed to open BPF skeleton''], Exit 1)
     else emit [Acquire Skel]
       (let cleanup = (\<lambda>err. ([Release Skel], Exit (- err))); err = ew_attach w in
        if err \<noteq> 0 then emit [Err ''Failed to attach BPF skeleton''] (cleanup err)
        else if ew_signal_errno w \<noteq> 0 then emit [Err ''can't set signal handler''] (cleanup err)
        else emit [Out ''Successfully started!''] (wait_loop (ew_stop w) (cleanup err))))"

text \<open>When opening fails, \<^verbatim>\<open>err\<close> has no value at the \<^verbatim>\<open>return\<close>.\<close>

definition lsm_main :: "probe_world \<Rightarrow> run" where
  "lsm_main w =
    (if \<not> ew_open w then ([Err ''Failed to open and load BPF skeleton''], Indeterminate)
     else emit [Acquire Skel]
       (let err = ew_attach w in
        if err \<noteq> 0 then ([Err ''Failed to attach BPF skeleton'', Release Skel], Exit (- err))
        else emit [Out ''Successfully started!''] (forever (ew_turns w))))"

definition uprobed_add :: "int \<Rightarrow> int \<Rightarrow> int option" where
  "uprobed_add a b = as_int (a + b)"

definition uprobed_sub :: "int \<Rightarrow> int \<Rightarrow> int option" where
  "uprobed_sub a b = as_int (a - b)"

text \<open>One turn of the loop, with what the four probes print.\<close>

definition uprobe_turn :: "int \<Rightarrow> string list option" where
  "uprobe_turn i =
    do { b \<leftarrow> as_int (i + 1);
         r \<leftarrow> uprobed_add i b;
         a \<leftarrow> as_int (i * i);
         d \<leftarrow> uprobed_sub a i;
         Some (fst (uprobe_add i b) @ fst (uretprobe_add r) @ fst (uprobe_sub a i) @ fst (uretprobe_sub d)) }"

fun uprobe_loop :: "nat \<Rightarrow> int \<Rightarrow> run" where
  "uprobe_loop 0 i = ([], Running)"
| "uprobe_loop (Suc n) i =
     emit [Err ''.''] (case uprobe_turn i of None \<Rightarrow> ([], Undefined) | Some lines \<Rightarrow> uprobe_loop n (i + 1))"

definition uprobe_main :: "probe_world \<Rightarrow> run" where
  "uprobe_main w =
    (if \<not> ew_open w then ([Err ''Failed to open and load BPF skeleton''], Exit 1)
     else emit [Acquire Skel]
       (let cleanup = (\<lambda>err. ([Release Skel], Exit (- err))) in
        if ew_link_errno w 0 \<noteq> 0
        then (let err = - ew_link_errno w 0 in
              emit [Err (''Failed to attach uprobe: '' @ dec_int err)] (cleanup err))
        else if ew_link_errno w 1 \<noteq> 0
        then (let err = - ew_link_errno w 1 in
              emit [Err (''Failed to attach uprobe: '' @ dec_int err)] (cleanup err))
        else let err = ew_attach w in
          if err \<noteq> 0
          then emit [Err (''Failed to auto-attach BPF skeleton: '' @ dec_int err)] (cleanup err)
          else emit [Out ''Successfully started!''] (uprobe_loop (ew_turns w) 0)))"

declare minimal_main_def [app_defs] minimal_ns_main_def [app_defs] minimal_legacy_main_def [app_defs]
  usdt_main_def [app_defs] fentry_main_def [app_defs] ksyscall_main_def [app_defs] lsm_main_def [app_defs]
  uprobe_main_def [app_defs]
declare minimal_handle_tp_def [handler_defs] minimal_ns_handle_tp_def [handler_defs]
  minimal_legacy_handle_tp_def [handler_defs] usdt_auto_attach_def [handler_defs]

section \<open>Tracing one process\<close>

text \<open>
  The run of a program and its probe together. A run tells what the variables of the skeleton hold (0
  unless set), what the array map of \<^verbatim>\<open>minimal_legacy\<close> holds, and how many \<^verbatim>\<open>write\<close> system calls the
  process makes: one for each message on the unbuffered standard error, and, when standard output is a
  terminal and so line-buffered, one for each line there; otherwise the line stays in the buffer.
\<close>

definition skel_var :: "string \<Rightarrow> act list \<Rightarrow> int" where
  "skel_var x acts = fold (\<lambda>a v. case a of Poke Skel y n \<Rightarrow> if y = x then n else v | _ \<Rightarrow> v) acts 0"

definition legacy_map :: "('m, u32, s32) map_ops \<Rightarrow> act list \<Rightarrow> 'm \<Rightarrow> 'm" where
  "legacy_map mops = fold (\<lambda>a m. case a of
     Poke Skel y n \<Rightarrow> if y = ''my_pid_map'' then fst (update_elem mops m 0 (word_of_int n)) else m | _ \<Rightarrow> m)"

definition writes :: "bool \<Rightarrow> act list \<Rightarrow> nat" where
  "writes tty acts = length (filter (\<lambda>a. case a of Err _ \<Rightarrow> True | Out _ \<Rightarrow> tty | _ \<Rightarrow> False) acts)"

definition trace_lines :: "('ctx \<Rightarrow> traced) \<Rightarrow> 'ctx list \<Rightarrow> string list" where
  "trace_lines handler calls = concat (map (\<lambda>ctx. fst (handler ctx)) calls)"

text \<open>
  The contract of the programs with a filter: a handler prints one line when the current process is
  the one that was configured, and none otherwise.
\<close>

locale pid_filter =
  fixes handler :: "'ctx \<Rightarrow> traced" and pid_of :: "'ctx \<Rightarrow> s32" and my_pid :: s32
    and message :: "'ctx \<Rightarrow> string"
  assumes filters: "fst (handler ctx) = (if pid_of ctx = my_pid then [message ctx] else [])"
begin

lemma trace_pipe: "trace_lines handler ctxs = map message (filter (\<lambda>ctx. pid_of ctx = my_pid) ctxs)"
  by (induction ctxs) (simp_all add: filters trace_lines_def)

end

interpretation minimal: pid_filter "minimal_handle_tp my" tgid_of my "\<lambda>ids. triggered my" for my
  by unfold_locales (simp add: handler_defs Let_def)

interpretation minimal_ns: pid_filter "minimal_ns_handle_tp my dev ino" "\<lambda>get_ns. get_ns dev ino" my
    "\<lambda>get_ns. triggered my" for my dev ino
  by unfold_locales (simp add: handler_defs Let_def)

interpretation minimal_legacy: pid_filter "minimal_legacy_handle_tp array_ops [my]" tgid_of my
    "\<lambda>ids. triggered my" for my
  by unfold_locales (auto simp: handler_defs Let_def)

lemma legacy_filter:
  "lookup_elem mops m 0 = Some my \<Longrightarrow> pid_filter (minimal_legacy_handle_tp mops m) tgid_of my (\<lambda>ids. triggered my)"
  by unfold_locales (auto simp: handler_defs Let_def)

interpretation usdt: pid_filter "\<lambda>(ids, a, b, c). usdt_auto_attach my ids a b c" "\<lambda>c. tgid_of (fst c)" my
    "\<lambda>(ids, a, b, c). usdt_message ''auto'' a b c" for my
  by unfold_locales (auto simp: handler_defs Let_def)

lemma funpow_same: "((\<lambda>x. x) ^^ k) v = v"
  by (induction k) simp_all

text \<open>What a run that has reached the loop has configured, and what it writes from then on.\<close>

lemma minimal_started:
  assumes "snd (minimal_main w) = Running"
  shows "skel_var ''my_pid'' (fst (minimal_main w)) = ew_getpid w"
    and "writes tty (fst (minimal_main w)) = ew_turns w + (if tty then 1 else 0)"
  using assms by (auto simp: app_defs Let_def forever_def skel_var_def writes_def funpow_same split: if_splits)

lemma minimal_ns_started:
  assumes "snd (minimal_ns_main w) = Running" "ew_stat w = Some (dev, ino)"
  shows "skel_var ''my_pid'' (fst (minimal_ns_main w)) = ew_getpid w"
    and "skel_var ''dev'' (fst (minimal_ns_main w)) = dev" "skel_var ''ino'' (fst (minimal_ns_main w)) = ino"
    and "writes tty (fst (minimal_ns_main w)) = ew_turns w + (if tty then 1 else 0)"
  using assms by (auto simp: app_defs Let_def forever_def skel_var_def writes_def funpow_same split: if_splits)

lemma minimal_legacy_started:
  assumes "snd (minimal_legacy_main w) = Running"
  shows "legacy_map mops (fst (minimal_legacy_main w)) m = fst (update_elem mops m 0 (word_of_int (ew_getpid w)))"
    and "0 \<le> ew_map_update w"
    and "writes tty (fst (minimal_legacy_main w)) = ew_turns w + (if tty then 1 else 0)"
  using assms by (auto simp: app_defs Let_def forever_def legacy_map_def writes_def funpow_same split: if_splits)


definition demo_probe_world :: probe_world where
  "demo_probe_world = \<lparr>ew_open = True, ew_getpid = 7, ew_stat = None, ew_load = 0, ew_map_update = 0,
     ew_link_errno = (\<lambda>n. 0), ew_attach = 0, ew_signal_errno = 22, ew_stop = [], ew_turns = 3\<rparr>"

definition demo_loop_world :: probe_world where
  "demo_loop_world = demo_probe_world\<lparr>ew_stat := Some (4, 5)\<rparr>"


section \<open>Integer overflow in the uprobe example\<close>

lemma square_bound: "0 \<le> i \<Longrightarrow> i * i < 2 ^ 31 \<longleftrightarrow> i \<le> (46340 :: int)"
proof
  assume "0 \<le> i" "i * i < 2 ^ 31"
  show "i \<le> 46340"
  proof (rule ccontr)
    assume "\<not> i \<le> 46340"
    then have "46341 * 46341 \<le> i * i" by (intro mult_mono) auto
    with \<open>i * i < 2 ^ 31\<close> show False by simp
  qed
next
  assume "0 \<le> i" "i \<le> 46340"
  then have "i * i \<le> 46340 * 46340" by (intro mult_mono) auto
  then show "i * i < 2 ^ 31" by simp
qed

lemma uprobe_turn_lines:
  assumes "0 \<le> i" "i \<le> 46340"
  shows "uprobe_turn i = Some [''uprobed_add ENTRY: a = '' @ dec_int i @ '', b = '' @ dec_int (i + 1),
    ''uprobed_add EXIT: return = '' @ dec_int (2 * i + 1),
    ''uprobed_sub ENTRY: a = '' @ dec_int (i * i) @ '', b = '' @ dec_int i,
    ''uprobed_sub EXIT: return = '' @ dec_int (i * i - i)]"
proof -
  define q where "q = i * i"
  have "q < 2 ^ 31" "0 \<le> q" using assms square_bound by (simp_all add: q_def)
  then have "as_int (i + 1) = Some (i + 1)" "as_int (i + (i + 1)) = Some (2 * i + 1)"
      "as_int q = Some q" "as_int (q - i) = Some (q - i)"
    using assms by (auto simp: as_int_def)
  then show ?thesis
    by (simp add: uprobe_turn_def q_def uprobed_add_def uprobed_sub_def uprobe_add_def uretprobe_add_def
        uprobe_sub_def uretprobe_sub_def)
qed

lemma uprobe_turn_overflow: "uprobe_turn 46341 = None"
  by (simp add: uprobe_turn_def uprobed_add_def as_int_def)

lemma uprobe_loop_outcome:
  "0 \<le> i \<Longrightarrow> i \<le> 46341 \<Longrightarrow> snd (uprobe_loop n i) = (if int n + i \<le> 46341 then Running else Undefined)"
proof (induction n arbitrary: i)
  case (Suc n)
  show ?case
  proof (cases "i = 46341")
    case False
    with Suc.prems have "i \<le> 46340" by simp
    with Suc.IH [of "i + 1"] Suc.prems uprobe_turn_lines [of i] show ?thesis by simp
  qed (simp add: uprobe_turn_overflow)
qed simp

text \<open>
  C39. The uprobe example's loop: in each of the first 46341 turns the four probes print the
  arguments and results of \<^verbatim>\<open>i + (i + 1)\<close> and \<^verbatim>\<open>i * i - i\<close>; the turn after that (about thirteen hours
  in, at one turn per second) computes \<^verbatim>\<open>46341 * 46341\<close>, which no longer fits an \<^verbatim>\<open>int\<close>.\<close>

theorem uprobe_runs_46341_turns:
  assumes "0 \<le> i" "i \<le> 46340"
  shows "uprobe_turn i = Some [''uprobed_add ENTRY: a = '' @ dec_int i @ '', b = '' @ dec_int (i + 1),
      ''uprobed_add EXIT: return = '' @ dec_int (2 * i + 1),
      ''uprobed_sub ENTRY: a = '' @ dec_int (i * i) @ '', b = '' @ dec_int i,
      ''uprobed_sub EXIT: return = '' @ dec_int (i * i - i)]
    \<and> snd (uprobe_loop n 0) = (if n \<le> 46341 then Running else Undefined)"
  using uprobe_turn_lines [OF assms] uprobe_loop_outcome [of 0 n] by simp

theorem uprobe_runs_46341_turns_witness:
  "snd (uprobe_loop 46342 0) = Undefined"
  using uprobe_runs_46341_turns [of 3 46342] by simp

section \<open>The life cycles\<close>

lemma owned_uprobe_loop: "owned H (fst (uprobe_loop n i)) = Some H"
  by (induction n arbitrary: i) (simp_all split: option.split)

lemma clean_uprobe_loop: "0 \<le> i \<Longrightarrow> int n + i \<le> 46341 \<Longrightarrow> clean H (uprobe_loop n i)"
  by (simp add: clean_def owned_uprobe_loop uprobe_loop_outcome)

interpretation minimal_app: endless_program minimal_main "\<lambda>_. True"
  by unfold_locales (auto simp: app_defs Let_def split: if_splits)

interpretation minimal_ns_app: endless_program minimal_ns_main "\<lambda>w. ew_stat w \<noteq> None"
  by unfold_locales (auto simp: app_defs Let_def split: if_splits)

interpretation minimal_legacy_app: endless_program minimal_legacy_main "\<lambda>_. True"
  by unfold_locales (auto simp: app_defs Let_def split: if_splits)

interpretation usdt_app: program usdt_main "\<lambda>_. True"
  by unfold_locales (auto simp: app_defs Let_def)

interpretation fentry_app: program fentry_main "\<lambda>_. True"
  by unfold_locales (auto simp: app_defs Let_def)

interpretation ksyscall_app: program ksyscall_main "\<lambda>_. True"
  by unfold_locales (auto simp: app_defs Let_def)

interpretation lsm_app: endless_program lsm_main "\<lambda>_. True"
  by unfold_locales (auto simp: app_defs Let_def split: if_splits)

interpretation uprobe_app: endless_program uprobe_main "\<lambda>w. ew_turns w \<le> 46341"
  by unfold_locales (auto simp: app_defs Let_def owned_uprobe_loop intro!: clean_uprobe_loop split: if_splits)

section \<open>Error paths\<close>

text \<open>A failed load goes unnoticed in the USDT example: its result decides nothing.\<close>

lemma usdt_ignores_load: "usdt_main (w\<lparr>ew_load := err\<rparr>) = usdt_main w"
  by (simp add: app_defs Let_def)

text \<open>
  When the handler for the interrupt cannot be set up, \<^verbatim>\<open>usdt\<close> exits with a non-zero status, but
  \<^verbatim>\<open>fentry\<close> and \<^verbatim>\<open>ksyscall\<close> exit with status 0 although they never waited. \<^verbatim>\<open>lsm\<close> returns a value that was
  never assigned when the skeleton cannot be opened. \<^verbatim>\<open>minimal_ns\<close> leaves the skeleton open when \<^verbatim>\<open>stat\<close>
  fails.
\<close>

lemma no_signal_handler:
  assumes "ew_open w" "ew_attach w = 0" "ew_signal_errno w \<noteq> 0" "ew_link_errno w 0 = 0"
  shows "snd (fentry_main w) = Exit 0" "snd (ksyscall_main w) = Exit 0"
    and "snd (usdt_main w) = Exit (- ew_signal_errno w)"
  using assms by (simp_all add: app_defs Let_def)

lemma lsm_not_opened: "\<not> ew_open w \<Longrightarrow> snd (lsm_main w) = Indeterminate"
  by (simp add: app_defs)

lemma minimal_ns_leaks: "ew_open w \<Longrightarrow> ew_stat w = None \<Longrightarrow> owned [] (fst (minimal_ns_main w)) = Some [Skel]"
  by (simp add: app_defs)

text \<open>The LSM hook never lets a \<^verbatim>\<open>bpf\<close> call through, and keeps an earlier refusal.\<close>

lemma lsm_denies: "snd (lsm_bpf ret) \<noteq> 0" "ret \<noteq> 0 \<Longrightarrow> snd (lsm_bpf ret) = ret"
  by (simp_all add: lsm_bpf_def)

end
