(* ===== verification/Doubles.thy ===== *)
theory Doubles
  imports C_Text "HOL-Library.Log_Nat"
begin

text \<open>
  The type \<^verbatim>\<open>double\<close> (IEEE 754 binary64) as the benchmarks use it. A finite \<^verbatim>\<open>double\<close> is the rational
  number it stands for; each operation is the exact one followed by the rounding \<open>fl\<close> to the nearest
  \<^verbatim>\<open>double\<close>, halves to the even one, as on the target (x86-64, no fused operations, no excess
  precision). Infinities and NaNs are left out: all values of the programs are below 2^64.
  The laws that the statistics rely on are the locale \<open>rounding\<close>; \<open>fl\<close> is its instance. The square
  root is the correctly rounded one of \<^verbatim>\<open>sqrt\<close>, and \<open>fixed\<close> is the format \<^verbatim>\<open>%.2f\<close>.
\<close>

section \<open>Rounding\<close>

text \<open>The integer part of the binary logarithm of a positive number.\<close>

definition ilog2 :: "rat \<Rightarrow> int" where
  "ilog2 x =
    (let (p, q) = quotient_of x; k = int (floorlog 2 (nat p)) - int (floorlog 2 (nat q))
     in if x < 2 powi k then k - 1 else k)"

text \<open>The distance of the doubles around \<open>x\<close>: 53 significant bits, no exponent below -1074.\<close>

definition ulp :: "rat \<Rightarrow> rat" where
  "ulp x = 2 powi (max (- 1074) (ilog2 \<bar>x\<bar> - 52))"

definition rne :: "rat \<Rightarrow> int" where
  "rne y = (if 2 * (y - of_int \<lfloor>y\<rfloor>) < 1 \<or> 2 * (y - of_int \<lfloor>y\<rfloor>) = 1 \<and> even \<lfloor>y\<rfloor> then \<lfloor>y\<rfloor> else \<lfloor>y\<rfloor> + 1)"

definition fl :: "rat \<Rightarrow> rat" where
  "fl x = (if x = 0 then 0 else of_int (rne (x / ulp x)) * ulp x)"

text \<open>Conversions to the integer types drop the fraction; a value out of range is undefined.\<close>

definition trunc :: "rat \<Rightarrow> int" where
  "trunc x = (if x < 0 then \<lceil>x\<rceil> else \<lfloor>x\<rfloor>)"

definition llong_of_double :: "rat \<Rightarrow> int option" where
  "llong_of_double x = as_llong (trunc x)"

definition int_of_double :: "rat \<Rightarrow> int option" where
  "int_of_double x = as_int (trunc x)"

section \<open>Square root\<close>

fun isqrt :: "nat \<Rightarrow> nat" where
  "isqrt n = (if n = 0 then 0 else let r = 2 * isqrt (n div 4) in if (r + 1) * (r + 1) \<le> n then r + 1 else r)"

declare isqrt.simps [simp del]

text \<open>\<^verbatim>\<open>sqrt(x)\<close> for \<open>x \<ge> 0\<close>: the exact root in units of the last place, rounded to the nearest integer.\<close>

definition fl_sqrt :: "rat \<Rightarrow> rat" where
  "fl_sqrt x =
    (if x = 0 then 0
     else let u = 2 powi (ilog2 x div 2 - 52); y = x / (u * u); m = int (isqrt (nat \<lfloor>y\<rfloor>));
              h = (of_int m + 1 / 2) * (of_int m + 1 / 2)
          in of_int (if y < h \<or> y = h \<and> even m then m else m + 1) * u)"

section \<open>Fixed-point text\<close>

text \<open>The format \<^verbatim>\<open>%.kf\<close>: the exact value rounded to \<open>k\<close> decimals.\<close>

definition fixed :: "nat \<Rightarrow> rat \<Rightarrow> string" where
  "fixed k x =
    (let m = nat (rne (\<bar>x\<bar> * 10 ^ k)); frac = to_base 10 (m mod 10 ^ k) in
     (if x < 0 then ''-'' else []) @ to_base 10 (m div 10 ^ k) @ ''.'' @ replicate (k - length frac) (CHR ''0'') @ frac)"

section \<open>The rounding is the nearest double\<close>

lemma powi_pos [simp]: "0 < (2 :: rat) powi k" by simp

lemma powi_2_mono: "j \<le> k \<Longrightarrow> (2 :: rat) powi j \<le> 2 powi k"
  by (rule power_int_increasing) auto

lemma powi_2_less: "(2 :: rat) powi j < 2 powi k \<longleftrightarrow> j < k"
  by (meson one_less_numeral_iff power_int_strict_increasing powi_2_mono not_less semiring_norm(76))

lemma powi_2_int:
  assumes "j \<le> k"
  shows "\<exists>i. (2 :: rat) powi k = of_int i * 2 powi j"
proof (intro exI)
  show "(2 :: rat) powi k = of_int (2 ^ nat (k - j)) * 2 powi j"
    using assms by (simp add: power_int_add [symmetric] flip: power_int_of_nat)
qed

lemma floorlog2_bounds:
  assumes "0 < (p :: int)"
  shows "2 powi (int (floorlog 2 (nat p)) - 1) \<le> rat_of_int p" "rat_of_int p < 2 powi int (floorlog 2 (nat p))"
proof -
  have f: "0 < floorlog 2 (nat p)" using assms by (simp add: floorlog_def)
  have b: "2 ^ (floorlog 2 (nat p) - 1) \<le> nat p" "nat p < 2 ^ floorlog 2 (nat p)"
    using floorlog_bounds [of "nat p" 2] assms by auto
  have "(2 :: rat) powi (int (floorlog 2 (nat p)) - 1) = 2 ^ (floorlog 2 (nat p) - 1)"
    using f by (simp add: of_nat_diff flip: power_int_of_nat)
  also have "\<dots> \<le> of_int p" using b(1) assms
    by (metis of_nat_le_iff of_nat_numeral of_nat_power of_nat_nat order_less_imp_le of_int_of_nat_eq)
  finally show "2 powi (int (floorlog 2 (nat p)) - 1) \<le> rat_of_int p" .
  have "rat_of_int p < 2 ^ floorlog 2 (nat p)" using b(2) assms
    by (metis of_nat_less_iff of_nat_numeral of_nat_power of_nat_nat order_less_imp_le of_int_of_nat_eq)
  then show "rat_of_int p < 2 powi int (floorlog 2 (nat p))" by (simp add: power_int_of_nat)
qed

lemma ilog2_bounds:
  assumes "0 < x"
  shows "2 powi ilog2 x \<le> x" "x < 2 powi (ilog2 x + 1)"
proof -
  obtain p q where pq: "quotient_of x = (p, q)" by force
  have q: "0 < q" by (rule quotient_of_denom_pos [OF pq])
  have x: "x = of_int p / of_int q" by (rule quotient_of_div [OF pq])
  have p: "0 < p" using assms q by (simp add: x zero_less_divide_iff)
  define a b where "a = int (floorlog 2 (nat p))" and "b = int (floorlog 2 (nat q))"
  have "2 powi (a - 1) / 2 powi b < x" "x < 2 powi a / 2 powi (b - 1)"
    unfolding x a_def b_def using floorlog2_bounds [OF p] floorlog2_bounds [OF q] p q
    by (simp_all only: frac_less2 frac_less powi_pos of_int_0_less_iff less_imp_le)
  then have "2 powi (a - b - 1) \<le> x" "x < 2 powi (a - b + 1)"
    by (simp_all add: power_int_diff [symmetric] algebra_simps)
  then show "2 powi ilog2 x \<le> x" "x < 2 powi (ilog2 x + 1)"
    by (auto simp: ilog2_def pq a_def b_def Let_def algebra_simps)
qed

lemma ilog2_eqI:
  assumes "2 powi k \<le> x" "x < 2 powi (k + 1)"
  shows "ilog2 x = k"
proof -
  have x: "0 < x" using assms(1) by (rule less_le_trans [rotated]) simp
  have "2 powi ilog2 x < (2 :: rat) powi (k + 1)" using ilog2_bounds(1) [OF x] assms(2) by (rule le_less_trans)
  moreover have "2 powi k < (2 :: rat) powi (ilog2 x + 1)" using assms(1) ilog2_bounds(2) [OF x] by (rule le_less_trans)
  ultimately show ?thesis by (simp add: powi_2_less)
qed

lemma rne_near: "\<bar>of_int (rne y) - y\<bar> \<le> 1 / 2"
  unfolding rne_def using of_int_floor_le [of y] floor_correct [of y] by (auto simp: abs_le_iff)

lemma rne_int [simp]: "rne (of_int i) = i"
  by (simp add: rne_def)

lemma rne_mono:
  assumes "x \<le> y"
  shows "rne x \<le> rne y"
proof (cases "\<lfloor>x\<rfloor> = \<lfloor>y\<rfloor>")
  case True
  then show ?thesis using assms by (auto simp: rne_def)
next
  case False
  then have "\<lfloor>x\<rfloor> < \<lfloor>y\<rfloor>" using floor_mono [OF assms] by simp
  moreover have "rne x \<le> \<lfloor>x\<rfloor> + 1" "\<lfloor>y\<rfloor> \<le> rne y" by (simp_all add: rne_def)
  ultimately show ?thesis by simp
qed

lemma rne_minus: "rne (- y) = - rne y"
proof (cases "y = of_int \<lfloor>y\<rfloor>")
  case True
  then show ?thesis by (metis rne_int of_int_minus)
next
  case False
  then have "\<lfloor>- y\<rfloor> = - \<lfloor>y\<rfloor> - 1"
    by (smt (verit) floor_minus ceiling_altdef of_int_floor_le)
  then show ?thesis by (auto simp: rne_def)
qed

lemma ulp_pos [simp]: "0 < ulp x" "ulp x \<noteq> 0"
  by (simp_all add: ulp_def)

lemma ulp_minus [simp]: "ulp (- x) = ulp x"
  by (simp add: ulp_def)

lemma fl_0 [simp]: "fl 0 = 0"
  by (simp add: fl_def)

lemma fl_minus [simp]: "fl (- x) = - fl x"
  by (simp add: fl_def rne_minus)

lemma fl_near: "\<bar>fl x - x\<bar> \<le> ulp x / 2"
proof (cases "x = 0")
  case False
  have "\<bar>fl x - x\<bar> = \<bar>of_int (rne (x / ulp x)) - x / ulp x\<bar> * ulp x"
    using False by (subst abs_mult_pos) (simp_all add: fl_def less_imp_le left_diff_distrib)
  also have "\<dots> \<le> 1 / 2 * ulp x" by (intro mult_right_mono rne_near) (simp add: less_imp_le)
  finally show ?thesis by simp
qed (simp add: less_imp_le)

text \<open>Rounding does not cross a multiple of the unit in the last place.\<close>

lemma fl_le_multiple:
  assumes "x \<le> of_int i * ulp x"
  shows "fl x \<le> of_int i * ulp x"
proof (cases "x = 0")
  case False
  have "x / ulp x \<le> of_int i" using assms by (simp add: pos_divide_le_eq)
  then have "rne (x / ulp x) \<le> i" using rne_mono by fastforce
  then show ?thesis using False by (simp add: fl_def)
qed (use assms in simp)

lemma fl_ge_multiple: "of_int i * ulp x \<le> x \<Longrightarrow> of_int i * ulp x \<le> fl x"
  using fl_le_multiple [of "- x" "- i"] by simp

lemma fl_multiple: "x = of_int i * ulp x \<Longrightarrow> fl x = x"
  by (metis fl_le_multiple fl_ge_multiple order.antisym order_refl)

lemma ulp_powi_multiple:
  assumes "ilog2 \<bar>x\<bar> \<le> k + 52" "- 1074 \<le> k"
  shows "\<exists>i. 2 powi k = of_int i * ulp x"
  unfolding ulp_def using assms by (intro powi_2_int) simp

definition is_double :: "rat \<Rightarrow> bool" where
  "is_double d \<longleftrightarrow> (\<exists>m e. d = of_int m * 2 powi e \<and> \<bar>m\<bar> \<le> 2 ^ 53 \<and> - 1074 \<le> e)"

lemma fl_double:
  assumes "is_double d"
  shows "fl d = d"
proof (cases "d = 0")
  case False
  obtain m e where d: "d = of_int m * 2 powi e" and m: "\<bar>m\<bar> \<le> 2 ^ 53" and e: "- 1074 \<le> e"
    using assms by (auto simp: is_double_def)
  have pos: "0 < \<bar>d\<bar>" using False by simp
  have "\<bar>d\<bar> \<le> 2 ^ 53 * 2 powi e"
    using m by (simp add: d abs_mult mult_right_mono flip: of_int_abs)
  also have "\<dots> = 2 powi (53 + e)" by (simp add: power_int_add)
  finally have le: "\<bar>d\<bar> \<le> 2 powi (53 + e)" .
  show ?thesis
  proof (cases "\<bar>d\<bar> = 2 powi (53 + e)")
    case True
    then have k: "ilog2 \<bar>d\<bar> = 53 + e" by (intro ilog2_eqI) (simp_all add: power_int_add)
    then obtain i where "2 powi (e + 1) = of_int i * ulp d" using ulp_powi_multiple [of d "e + 1"] e by auto
    moreover have "d = of_int (sgn m * 2 ^ 52) * 2 powi (e + 1)"
    proof -
      have "d = of_int (sgn m) * \<bar>d\<bar>" by (simp add: d abs_mult sgn_mult_abs flip: of_int_abs of_int_mult)
      also have "\<dots> = of_int (sgn m) * 2 powi (53 + e)" by (simp only: True)
      finally show ?thesis by (simp add: power_int_add)
    qed
    ultimately have "d = of_int (sgn m * 2 ^ 52 * i) * ulp d" by (simp add: mult.assoc)
    then show ?thesis by (rule fl_multiple)
  next
    case False
    then have "2 powi ilog2 \<bar>d\<bar> < (2 :: rat) powi (53 + e)" using ilog2_bounds(1) [OF pos] le by linarith
    then have "ilog2 \<bar>d\<bar> \<le> e + 52" by (simp add: powi_2_less)
    then obtain i where "2 powi e = of_int i * ulp d" using ulp_powi_multiple e by blast
    then have "d = of_int (m * i) * ulp d" by (simp add: d mult.assoc)
    then show ?thesis by (rule fl_multiple)
  qed
qed simp

lemma is_double_powi: "- 1074 \<le> k \<Longrightarrow> is_double (2 powi k)"
  unfolding is_double_def by (intro exI [of _ 1] exI [of _ k]) simp

lemma ulp_mono:
  assumes "0 < x" "x \<le> y"
  shows "ulp x \<le> ulp y"
proof -
  have "2 powi ilog2 x < (2 :: rat) powi (ilog2 y + 1)"
    using ilog2_bounds(1) [of x] ilog2_bounds(2) [of y] assms by linarith
  then show ?thesis using assms by (simp add: ulp_def powi_2_less powi_2_mono)
qed

lemma fl_mono_pos:
  assumes "0 < x" "x \<le> y"
  shows "fl x \<le> fl y"
proof (cases "ulp x = ulp y")
  case True
  have "x / ulp y \<le> y / ulp y" using assms(2) by (simp add: divide_right_mono less_imp_le)
  then show ?thesis using assms True by (simp add: fl_def rne_mono)
next
  case False
  let ?B = "2 powi ilog2 y :: rat"
  have lt: "2 powi max (- 1074) (ilog2 x - 52) < (2 :: rat) powi max (- 1074) (ilog2 y - 52)"
    using False ulp_mono [OF assms] assms by (simp add: ulp_def)
  then have k: "ilog2 x < ilog2 y" "- 1074 \<le> ilog2 y" by (auto simp: powi_2_less less_max_iff_disj)
  have "x < 2 powi (ilog2 x + 1)" using ilog2_bounds(2) assms by simp
  also have "\<dots> \<le> ?B" using k by (intro powi_2_mono) simp
  finally have B: "x \<le> ?B" "?B \<le> y" using ilog2_bounds(1) [of y] assms by simp_all
  obtain i where i: "?B = of_int i * ulp x" using ulp_powi_multiple [of x "ilog2 y"] k assms by auto
  obtain j where j: "?B = of_int j * ulp y" using ulp_powi_multiple [of y "ilog2 y"] k assms by auto
  have "fl x \<le> ?B" using fl_le_multiple [of x i] B(1) i by simp
  moreover have "?B \<le> fl y" using fl_ge_multiple [of j y] B(2) j by simp
  ultimately show ?thesis by (rule order.trans)
qed

lemma fl_nonneg: "0 \<le> x \<Longrightarrow> 0 \<le> fl x"
  using fl_ge_multiple [of 0 x] by simp

lemma fl_mono: "x \<le> y \<Longrightarrow> fl x \<le> fl y"
proof -
  assume le: "x \<le> y"
  consider "0 < x" | "x \<le> 0" "0 \<le> y" | "y < 0" by linarith
  then show ?thesis
  proof cases
    case 2
    then have "fl x \<le> 0" "0 \<le> fl y" using fl_nonneg [of "- x"] fl_nonneg [of y] by simp_all
    then show ?thesis by simp
  qed (use le fl_mono_pos [of x y] fl_mono_pos [of "- y" "- x"] in auto)
qed

lemma is_double_of_int: "\<bar>i\<bar> \<le> 2 ^ 53 \<Longrightarrow> is_double (of_int i)"
  unfolding is_double_def by (intro exI [of _ i] exI [of _ 0]) simp

lemma ilog2_geI: "2 powi k \<le> x \<Longrightarrow> k \<le> ilog2 x"
proof -
  assume x: "2 powi k \<le> x"
  then have "0 < x" by (rule less_le_trans [rotated]) simp
  then have "2 powi k < (2 :: rat) powi (ilog2 x + 1)" using x ilog2_bounds(2) by (blast intro: le_less_trans)
  then show ?thesis by (simp add: powi_2_less)
qed

lemma ulp_le:
  assumes "2 powi (- 100) \<le> \<bar>x\<bar>"
  shows "ulp x \<le> \<bar>x\<bar> / 2 ^ 52"
proof -
  have "0 < \<bar>x\<bar>" using assms by (rule less_le_trans [rotated]) simp
  moreover have "ulp x = 2 powi ilog2 \<bar>x\<bar> / 2 ^ 52"
    using ilog2_geI [OF assms] by (simp add: ulp_def power_int_diff)
  ultimately show ?thesis using ilog2_bounds(1) [of "\<bar>x\<bar>"] by (simp add: divide_right_mono)
qed

section \<open>The laws of rounding\<close>

locale rounding =
  fixes rnd :: "rat \<Rightarrow> rat"
  assumes rnd_mono: "x \<le> y \<Longrightarrow> rnd x \<le> rnd y"
    and rnd_double: "is_double d \<Longrightarrow> rnd d = d"
    and rnd_near: "\<bar>rnd x - x\<bar> \<le> ulp x / 2"
begin

lemma rnd_le: "x \<le> d \<Longrightarrow> is_double d \<Longrightarrow> rnd x \<le> d"
  and rnd_ge: "d \<le> x \<Longrightarrow> is_double d \<Longrightarrow> d \<le> rnd x"
  by (metis rnd_double rnd_mono)+

lemma rnd_of_int: "\<bar>i\<bar> \<le> 2 ^ 53 \<Longrightarrow> rnd (of_int i) = of_int i"
  by (simp add: rnd_double is_double_of_int)

text \<open>The absolute error below a power of two.\<close>

lemma rnd_error:
  assumes "\<bar>x\<bar> \<le> 2 powi k" "- 1000 \<le> k"
  shows "\<bar>rnd x - x\<bar> \<le> 2 powi (k - 53)"
proof (cases "x = 0")
  case True
  moreover have "rnd 0 = 0" using rnd_of_int [of 0] by simp
  ultimately show ?thesis by simp
next
  case False
  then have "2 powi ilog2 \<bar>x\<bar> < (2 :: rat) powi (k + 1)"
    using ilog2_bounds(1) [of "\<bar>x\<bar>"] assms(1) by (simp add: power_int_add_1')
  then have "ilog2 \<bar>x\<bar> \<le> k" by (simp add: powi_2_less)
  then have "ulp x \<le> 2 powi (k - 52)" using assms(2) unfolding ulp_def by (intro powi_2_mono) simp
  also have "\<dots> = 2 * 2 powi (k - 53)" using power_int_add_1' [of "2 :: rat" "k - 53"] by simp
  finally show ?thesis using rnd_near [of x] by simp
qed

end

interpretation fl: rounding fl
  by unfold_locales (fact fl_mono fl_double fl_near)+

text \<open>Values of \<open>fl\<close> on concrete numbers.\<close>

lemma fl_eqI:
  assumes "2 powi (k + 52) \<le> x" "x < 2 powi (k + 53)" "- 1074 \<le> k"
    and "\<bar>x - of_int m * 2 powi k\<bar> < 2 powi (k - 1)"
  shows "fl x = of_int m * 2 powi k"
proof -
  have x: "0 < x" using assms(1) by (rule less_le_trans [rotated]) simp
  have "ilog2 x = k + 52" using assms(1,2) by (intro ilog2_eqI) (simp_all add: add.commute)
  then have u: "ulp x = 2 powi k" using x assms(3) by (simp add: ulp_def)
  have "\<bar>x / 2 powi k - of_int m\<bar> = \<bar>x - of_int m * 2 powi k\<bar> / 2 powi k"
    by (subst abs_div_pos) (simp_all add: diff_divide_distrib)
  also have "\<dots> < 1 / 2" using assms(4) by (simp add: power_int_diff divide_less_eq)
  finally have d: "\<bar>x / 2 powi k - of_int m\<bar> < 1 / 2" .
  have "rne (x / 2 powi k) = m"
  proof -
    have "\<bar>of_int (rne (x / 2 powi k)) - rat_of_int m\<bar> < 1" using rne_near [of "x / 2 powi k"] d by linarith
    then show ?thesis by (simp flip: of_int_diff of_int_abs)
  qed
  then show ?thesis using x u by (simp add: fl_def)
qed

section \<open>The correctly rounded square root\<close>

lemma isqrt_bounds: "isqrt n * isqrt n \<le> n \<and> n < (isqrt n + 1) * (isqrt n + 1)"
proof (induction n rule: isqrt.induct)
  case (1 n)
  show ?case
  proof (cases "n = 0")
    case False
    define r where "r = isqrt (n div 4)"
    have IH: "r * r \<le> n div 4" "n div 4 < (r + 1) * (r + 1)" using "1.IH" False by (auto simp: r_def)
    then have "4 * (r * r) \<le> n" "n < 4 * ((r + 1) * (r + 1))" by linarith+
    then show ?thesis
      using False by (simp add: isqrt.simps [of n] Let_def algebra_simps flip: r_def)
  qed (simp add: isqrt.simps)
qed

lemma isqrt_floor:
  assumes "0 \<le> (y :: rat)"
  shows "of_nat (isqrt (nat \<lfloor>y\<rfloor>)) * of_nat (isqrt (nat \<lfloor>y\<rfloor>)) \<le> y"
    and "y < (of_nat (isqrt (nat \<lfloor>y\<rfloor>)) + 1) * (of_nat (isqrt (nat \<lfloor>y\<rfloor>)) + 1)"
proof -
  define n where "n = isqrt (nat \<lfloor>y\<rfloor>)"
  have f: "0 \<le> \<lfloor>y\<rfloor>" "of_int \<lfloor>y\<rfloor> \<le> y" "y < of_int \<lfloor>y\<rfloor> + 1" using assms floor_correct [of y] by simp_all
  have "n * n \<le> nat \<lfloor>y\<rfloor>" "nat \<lfloor>y\<rfloor> < (n + 1) * (n + 1)" using isqrt_bounds by (simp_all add: n_def)
  then have "int (n * n) \<le> \<lfloor>y\<rfloor>" "\<lfloor>y\<rfloor> + 1 \<le> int ((n + 1) * (n + 1))" using f(1) by linarith+
  then have "rat_of_int (int (n * n)) \<le> of_int \<lfloor>y\<rfloor>" "rat_of_int (\<lfloor>y\<rfloor> + 1) \<le> of_int (int ((n + 1) * (n + 1)))"
    unfolding of_int_le_iff .
  then show "of_nat n * of_nat n \<le> y" "y < (of_nat n + 1) * (of_nat n + 1)"
    using f(2,3) unfolding of_nat_mult of_nat_add of_nat_1 of_int_mult of_int_add of_int_1 of_int_of_nat_eq by linarith+
qed

lemma ilog2_scale:
  assumes "0 < x"
  shows "2 ^ 104 \<le> x / (2 powi (ilog2 x div 2 - 52) * 2 powi (ilog2 x div 2 - 52))"
    and "x / (2 powi (ilog2 x div 2 - 52) * 2 powi (ilog2 x div 2 - 52)) < 2 ^ 106"
proof -
  define k where "k = ilog2 x div 2"
  have u: "2 powi (k - 52) * 2 powi (k - 52) = (2 :: rat) powi (2 * k - 104)"
    by (simp flip: power_int_add)
  have "2 powi (2 * k) \<le> x"
    by (rule order.trans [OF powi_2_mono ilog2_bounds(1) [OF assms]]) (simp add: k_def)
  then show "2 ^ 104 \<le> x / (2 powi (ilog2 x div 2 - 52) * 2 powi (ilog2 x div 2 - 52))"
    unfolding k_def [symmetric] u by (simp add: power_int_diff field_simps)
  have "x < 2 powi (2 * k + 2)"
    by (rule less_le_trans [OF ilog2_bounds(2) [OF assms] powi_2_mono]) (simp add: k_def)
  then show "x / (2 powi (ilog2 x div 2 - 52) * 2 powi (ilog2 x div 2 - 52)) < 2 ^ 106"
    unfolding k_def [symmetric] u by (simp add: power_int_diff power_int_add field_simps)
qed

lemma fl_sqrt_near:
  assumes "0 < x"
  shows "\<exists>M. fl_sqrt x = of_int M * 2 powi (ilog2 x div 2 - 52) \<and> 2 ^ 52 \<le> M \<and> M \<le> 2 ^ 53 \<and>
    (fl_sqrt x - 2 powi (ilog2 x div 2 - 53)) ^ 2 \<le> x \<and> x \<le> (fl_sqrt x + 2 powi (ilog2 x div 2 - 53)) ^ 2"
proof -
  define u :: rat where "u = 2 powi (ilog2 x div 2 - 52)"
  define y where "y = x / (u * u)"
  define n where "n = isqrt (nat \<lfloor>y\<rfloor>)"
  define h where "h = (of_int (int n) + 1 / 2) * (of_int (int n) + 1 / 2 :: rat)"
  define M where "M = (if y < h \<or> y = h \<and> even (int n) then int n else int n + 1)"
  have u: "0 < u" by (simp add: u_def)
  have half: "2 powi (ilog2 x div 2 - 53) = u / 2"
    using power_int_add_1' [of "2 :: rat" "ilog2 x div 2 - 53"] by (simp add: u_def)
  have M: "fl_sqrt x = of_int M * u"
    using assms unfolding fl_sqrt_def M_def h_def n_def y_def u_def Let_def by simp
  have y: "2 ^ 104 \<le> y" "y < 2 ^ 106" using ilog2_scale [OF assms] by (simp_all add: y_def u_def)
  have n: "rat_of_nat n * of_nat n \<le> y" "y < (of_nat n + 1) * (of_nat n + 1)"
    using isqrt_floor [of y] y(1) by (simp_all add: n_def)
  have "2 ^ 52 < (rat_of_nat n + 1)"
  proof (rule ccontr)
    assume "\<not> ?thesis"
    then have "(rat_of_nat n + 1) * (of_nat n + 1) \<le> 2 ^ 52 * 2 ^ 52" by (intro mult_mono) simp_all
    then show False using n(2) y(1) by simp
  qed
  moreover have "rat_of_nat n < 2 ^ 53"
  proof (rule ccontr)
    assume "\<not> ?thesis"
    then have "2 ^ 53 * 2 ^ 53 \<le> rat_of_nat n * of_nat n" by (intro mult_mono) simp_all
    then show False using n(1) y(2) by simp
  qed
  ultimately have nb: "2 ^ 52 \<le> int n" "int n < 2 ^ 53" by simp_all
  have My: "(of_int M - 1 / 2) * (of_int M - 1 / 2) \<le> y" "y \<le> (of_int M + 1 / 2) * (of_int M + 1 / 2)"
    using n nb unfolding M_def h_def by (auto simp: field_simps)
  have xy: "x = y * (u * u)" using u by (simp add: y_def)
  have "(fl_sqrt x - u / 2) ^ 2 = (of_int M - 1 / 2) * (of_int M - 1 / 2) * (u * u)"
      "(fl_sqrt x + u / 2) ^ 2 = (of_int M + 1 / 2) * (of_int M + 1 / 2) * (u * u)"
    by (simp_all add: M power2_eq_square algebra_simps)
  then have "(fl_sqrt x - u / 2) ^ 2 \<le> x" "x \<le> (fl_sqrt x + u / 2) ^ 2"
    unfolding xy using My u by (simp_all add: mult_right_mono)
  moreover have "2 ^ 52 \<le> M" "M \<le> 2 ^ 53" using nb by (auto simp: M_def)
  ultimately show ?thesis unfolding half u_def [symmetric] using M by (intro exI [of _ M]) blast
qed

text \<open>Truncating the root of a number between 1 and 2^64 to an integer.\<close>

lemma trunc_fl_sqrt:
  assumes "1 \<le> x" "x < 2 powi 64" and "r = trunc (fl_sqrt x)"
  shows "0 \<le> r" "x < of_int ((r + 1) * (r + 1))" "of_int (r * r) \<le> x + 2 powi (2 * (ilog2 x div 2) - 51)"
proof -
  define e where "e = ilog2 x div 2"
  have x: "0 < x" using assms(1) by simp
  have "0 \<le> ilog2 x" using ilog2_geI [of 0 x] assms(1) by simp
  moreover have "ilog2 x < 64" using le_less_trans [OF ilog2_bounds(1) [OF x] assms(2)] unfolding powi_2_less .
  ultimately have e: "0 \<le> e" "e \<le> 31" by (simp_all add: e_def)
  define u :: rat where "u = 2 powi (e - 52)"
  obtain M where M: "fl_sqrt x = of_int M * u" "2 ^ 52 \<le> M" "M \<le> 2 ^ 53"
      "(fl_sqrt x - u / 2) ^ 2 \<le> x" "x \<le> (fl_sqrt x + u / 2) ^ 2"
    using fl_sqrt_near [OF x] power_int_add_1' [of "2 :: rat" "e - 53"] by (auto simp: u_def e_def)
  have u: "0 < u" "u \<le> 1" using e powi_2_mono [of "e - 52" 0] by (simp_all add: u_def)
  have "0 \<le> fl_sqrt x" unfolding M(1) using M(2) u by (intro mult_nonneg_nonneg) simp_all
  then have root: "0 \<le> fl_sqrt x" "r = \<lfloor>fl_sqrt x\<rfloor>" using assms(3) by (simp_all add: trunc_def)
  then show r: "0 \<le> r" by simp
  have rb: "of_int r \<le> fl_sqrt x" "fl_sqrt x < of_int r + 1" using root(2) floor_correct [of "fl_sqrt x"] by simp_all
  obtain i where i: "1 = of_int i * u" using powi_2_int [of "e - 52" 0] e by (auto simp: u_def)
  have ri: "of_int ((r + 1) * i) * u = of_int (r + 1)" by (metis i mult.assoc mult.right_neutral of_int_mult)
  have "of_int M * u < of_int ((r + 1) * i) * u" unfolding ri using rb(2) M(1) by simp
  then have "M + 1 \<le> (r + 1) * i" using u by (simp only: mult_less_cancel_right_pos of_int_less_iff)
  then have "of_int (M + 1) * u \<le> of_int ((r + 1) * i) * u" using u by (intro mult_right_mono) (simp_all only: of_int_le_iff less_imp_le)
  then have "fl_sqrt x + u \<le> of_int (r + 1)" unfolding ri using M(1) by (simp add: distrib_right)
  then have "(fl_sqrt x + u / 2) ^ 2 < of_int (r + 1) ^ 2" using root(1) u by (intro power_strict_mono) simp_all
  then show "x < of_int ((r + 1) * (r + 1))" using M(5) by (simp add: power2_eq_square)
  have "fl_sqrt x * fl_sqrt x + u * u / 4 \<le> x + u * fl_sqrt x" using M(4) by (simp add: power2_eq_square algebra_simps)
  moreover have "0 \<le> u * u / 4" by simp
  ultimately have "fl_sqrt x * fl_sqrt x \<le> x + fl_sqrt x * u" unfolding mult.commute [of "fl_sqrt x" u] by linarith
  also have "fl_sqrt x * u = of_int M * (u * u)" by (simp add: M(1))
  also have "\<dots> \<le> 2 ^ 53 * (u * u)" using M(3) u by (intro mult_right_mono) simp_all
  also have "u * u = 2 powi (2 * e - 104)" by (simp add: u_def flip: power_int_add)
  also have "2 ^ 53 * (2 :: rat) powi (2 * e - 104) = 2 powi (2 * e - 51)"
    using power_int_add [of "2 :: rat" 53 "2 * e - 104"] by simp
  finally have "fl_sqrt x * fl_sqrt x \<le> x + 2 powi (2 * (ilog2 x div 2) - 51)" by (simp add: e_def)
  moreover have "of_int r * of_int r \<le> fl_sqrt x * fl_sqrt x" using rb(1) r by (intro mult_mono) simp_all
  ultimately show "of_int (r * r) \<le> x + 2 powi (2 * (ilog2 x div 2) - 51)" by simp
qed

lemma trunc_root:
  assumes "0 \<le> v" "v < 2 ^ 63" and "r = trunc (fl_sqrt (fl (of_int v)))"
  shows "0 \<le> r \<and> (r - 1) * (r - 1) \<le> max 1 v \<and> v < (r + 2) * (r + 2) \<and>
    (v < 2 ^ 52 \<longrightarrow> r * r \<le> v \<and> v < (r + 1) * (r + 1))"
proof (cases "v = 0")
  case True
  then show ?thesis using assms(3) by (simp add: trunc_def fl_sqrt_def)
next
  case False
  define x where "x = fl (of_int v)"
  have x1: "1 \<le> x" using fl.rnd_ge [of 1 "of_int v"] is_double_of_int [of 1] False assms(1) by (simp add: x_def)
  have "\<bar>x - of_int v\<bar> \<le> 2 powi (63 - 53)" unfolding x_def using assms(1,2) by (intro fl.rnd_error) simp_all
  then have near: "\<bar>x - of_int v\<bar> \<le> 1024" by simp
  have "rat_of_int v < 2 ^ 63" using assms(2) by (metis of_int_less_iff of_int_numeral of_int_power)
  then have x64: "x < 2 powi 64" using near by (simp add: abs_le_iff)
  note r = trunc_fl_sqrt [OF x1 x64 assms(3) [folded x_def]]
  have exact: "x = of_int v" if "v < 2 ^ 52" using that assms(1) by (simp add: x_def fl.rnd_of_int)
  show ?thesis
  proof (cases "v < 2 ^ 52")
    case True
    have "2 powi ilog2 x \<le> x" using ilog2_bounds(1) [of x] x1 by simp
    also have "x < 2 powi 52" using True exact by (simp flip: of_int_less_iff)
    finally have "ilog2 x < 52" unfolding powi_2_less .
    then have "2 powi (2 * (ilog2 x div 2) - 51) \<le> (2 :: rat) powi (- 1)" by (intro powi_2_mono) simp
    then have "of_int (r * r) < rat_of_int (v + 1)" using r(3) exact [OF True] by simp
    then have rr: "r * r \<le> v" unfolding of_int_less_iff by simp
    have rv: "v < (r + 1) * (r + 1)" using r(2) unfolding exact [OF True] of_int_less_iff .
    have "(r + 1) * (r + 1) \<le> (r + 2) * (r + 2)" using r(1) by (intro mult_mono) simp_all
    moreover have "(r - 1) * (r - 1) \<le> max 1 (r * r)"
      using r(1) mult_mono [of "r - 1" r "r - 1" r] by (cases "r = 0") simp_all
    ultimately show ?thesis using r(1) rr rv True by (simp add: max_def split: if_splits)
  next
    case False
    have "2 powi ilog2 x < (2 :: rat) powi 64" using ilog2_bounds(1) [of x] x1 x64 by linarith
    then have "ilog2 x < 64" unfolding powi_2_less .
    then have "2 powi (2 * (ilog2 x div 2) - 51) \<le> (2 :: rat) powi 11" by (intro powi_2_mono) simp
    then have "of_int (r * r) \<le> rat_of_int (v + 3072)" "rat_of_int v < of_int ((r + 1) * (r + 1) + 1024)"
      using r(2,3) near by (simp_all add: abs_le_iff)
    then have rr: "r * r \<le> v + 3072" "v < (r + 1) * (r + 1) + 1024" unfolding of_int_le_iff of_int_less_iff .
    have "2 ^ 25 < r"
    proof (rule ccontr)
      assume "\<not> ?thesis"
      then have "(r + 1) * (r + 1) \<le> (2 ^ 25 + 1) * (2 ^ 25 + 1)" using r(1) by (intro mult_mono) simp_all
      then show False using rr(2) False by simp
    qed
    then show ?thesis using rr False by (simp add: algebra_simps)
  qed
qed

section \<open>Interpolation\<close>

lemma fl_is_multiple: "\<exists>i. fl x = of_int i * ulp x"
  by (cases "x = 0") (auto simp: fl_def intro: exI [of _ 0])

lemma rne_ge_even:
  assumes "of_int N - 1 / 2 \<le> y" "even N"
  shows "N \<le> rne y"
proof -
  have "rne (of_int N - 1 / 2) = N"
  proof -
    have f: "\<lfloor>rat_of_int N - 1 / 2\<rfloor> = N - 1" by (rule floor_unique) simp_all
    show ?thesis using assms(2) by (simp add: rne_def f)
  qed
  then show ?thesis using rne_mono [OF assms(1)] by simp
qed

lemma ulp_powi: "2 powi (- 100) \<le> x \<Longrightarrow> ulp x = 2 powi (ilog2 x - 52)"
  using ilog2_geI [of "- 100" x] order.strict_trans2 [OF powi_pos, of "- 100" x] by (simp add: ulp_def max_def)

lemma fl_ge_powi:
  assumes "2 powi (- 100) \<le> x"
  shows "2 powi ilog2 x \<le> fl x"
  using ilog2_bounds(1) less_le_trans [OF powi_pos assms] ilog2_geI [OF assms]
  by (intro fl.rnd_ge is_double_powi) simp_all

lemma fl_ge_even:
  assumes "of_int a - ulp x / 2 \<le> x" "2 powi (- 100) \<le> x" "ilog2 x < 52"
  shows "of_int a \<le> fl x"
proof -
  have x: "x \<noteq> 0" using less_le_trans [OF powi_pos assms(2)] by simp
  define q :: int where "q = 2 ^ nat (51 - ilog2 x)"
  have "of_int (2 * q) * ulp x = (2 :: rat) powi (52 - ilog2 x) * 2 powi (ilog2 x - 52)"
    using assms(3) power_int_add_1' [of "2 :: rat" "51 - ilog2 x"]
    by (simp add: q_def ulp_powi [OF assms(2)] power_int_of_nat [symmetric] algebra_simps)
  then have "of_int (2 * q) * ulp x = 1" by (simp flip: power_int_add)
  then have N: "of_int (a * (2 * q)) * ulp x = of_int a" by (metis mult.assoc mult.right_neutral of_int_mult)
  then have "of_int (a * (2 * q)) - 1 / 2 \<le> x / ulp x"
    using assms(1) by (simp only: pos_le_divide_eq ulp_pos left_diff_distrib N)
  then have "a * (2 * q) \<le> rne (x / ulp x)" by (rule rne_ge_even) simp
  then have "of_int (a * (2 * q)) * ulp x \<le> of_int (rne (x / ulp x)) * ulp x"
    by (intro mult_right_mono) (simp_all only: of_int_le_iff less_imp_le ulp_pos)
  then show ?thesis unfolding N using x by (simp add: fl_def)
qed

text \<open>The exponent of the sum of two rounded parts.\<close>

lemma split_exponents:
  assumes "2 powi (- 100) \<le> small" "small \<le> big" and "x = fl big + fl small"
  shows "2 powi (- 100) \<le> x" "ilog2 big \<le> ilog2 x" "ilog2 small \<le> ilog2 big" "ilog2 small < ilog2 x"
proof -
  have pos: "0 < small" by (rule less_le_trans [OF powi_pos assms(1)])
  note S = fl_ge_powi [OF order.trans [OF assms(1,2)]] and T = fl_ge_powi [OF assms(1)]
  have T0: "0 < fl small" by (rule less_le_trans [OF powi_pos T])
  show lb: "ilog2 big \<le> ilog2 x" by (rule ilog2_geI) (use S T0 assms(3) in simp)
  show le: "ilog2 small \<le> ilog2 big" by (rule ilog2_geI) (use ilog2_bounds(1) [OF pos] assms(2) in linarith)
  have "2 powi (- 100) \<le> fl big" by (rule fl.rnd_ge [OF order.trans [OF assms(1,2)] is_double_powi]) simp
  then show "2 powi (- 100) \<le> x" using T0 assms(3) by simp
  show "ilog2 small < ilog2 x"
  proof (cases "ilog2 small = ilog2 big")
    case True
    have "2 powi (ilog2 small + 1) \<le> x" using S T True assms(3) by (simp add: power_int_add_1')
    then show ?thesis using ilog2_geI by fastforce
  qed (use le lb in linarith)
qed

text \<open>
  An integer split into two parts that are rounded and added again does not shrink: the sum of the
  rounding errors is at most half a unit, and the integer is the even neighbour.
\<close>

lemma fl_split_ge:
  assumes "big + small = of_int a" "a < 2 ^ 52" "2 powi (- 100) \<le> small" "small \<le> big"
  shows "of_int a \<le> fl (fl big + fl small)"
proof (cases "of_int a \<le> fl big + fl small")
  case True
  have "0 < rat_of_int a" using less_le_trans [OF powi_pos assms(3)] assms(1,4) by linarith
  then show ?thesis using fl.rnd_ge [OF True] assms(2) by (simp add: is_double_of_int)
next
  case False
  define x where "x = fl big + fl small"
  define v :: rat where "v = 2 powi (ilog2 small - 52)"
  note ex = split_exponents [OF assms(3,4) x_def]
  note U = ulp_powi [OF ex(1)] and B = ulp_powi [OF order.trans [OF assms(3,4)]] and V = ulp_powi [OF assms(3), folded v_def]
  have v: "0 < v" by (simp add: v_def)
  have "2 powi ilog2 x < rat_of_int a"
    using ilog2_bounds(1) [of x] less_le_trans [OF powi_pos ex(1)] False by (simp add: x_def)
  also have "\<dots> < 2 powi 52" using assms(2) by (simp flip: of_int_less_iff)
  finally have x52: "ilog2 x < 52" unfolding powi_2_less .
  obtain i' where "fl big = of_int i' * ulp big" using fl_is_multiple by blast
  moreover obtain i where "ulp big = of_int i * v"
    using powi_2_int [of "ilog2 small - 52" "ilog2 big - 52"] ex(3) unfolding B v_def by auto
  ultimately have i: "fl big = of_int (i' * i) * v" by simp
  obtain j where j: "fl small = of_int j * v" using fl_is_multiple [of small] unfolding V by blast
  obtain h where "2 powi (ilog2 x - 53) = of_int h * v"
    using powi_2_int [of "ilog2 small - 52" "ilog2 x - 53"] ex(4) by (auto simp: v_def)
  then have h: "ulp x / 2 = of_int h * v" using power_int_add_1' [of "2 :: rat" "ilog2 x - 53"] by (simp add: U)
  obtain c where "1 = of_int c * v" using powi_2_int [of "ilog2 small - 52" 0] x52 ex(4) by (auto simp: v_def)
  then have c: "of_int a = of_int (a * c) * v" by (metis mult.assoc mult.right_neutral of_int_mult)
  have grid: "x - of_int a + ulp x / 2 = of_int (i' * i + j - a * c + h) * v"
    unfolding h by (subst c, simp only: x_def i j of_int_add of_int_diff distrib_right left_diff_distrib)
  have "ulp big \<le> ulp x" unfolding B U using ex(2) by (intro powi_2_mono) simp
  then have "- v < x - of_int a + ulp x / 2"
    using fl_near [of big] fl_near [of small] assms(1) v unfolding V x_def by linarith
  then have "of_int (- 1) * v < of_int (i' * i + j - a * c + h) * v" unfolding grid by simp
  then have "0 \<le> i' * i + j - a * c + h" using v by (simp only: mult_less_cancel_right_pos of_int_less_iff)
  then have "0 \<le> x - of_int a + ulp x / 2" unfolding grid using v by (simp only: of_int_0_le_iff zero_le_mult_iff less_imp_le simp_thms)
  then show ?thesis using fl_ge_even [OF _ ex(1) x52, of a] by (simp add: x_def)
qed

text \<open>
  The weighted mean of two integers, as \<^verbatim>\<open>calculate_percentile\<close> computes it: with a weight of 52 binary
  places the result stays between them.
\<close>

lemma is_double_weight:
  assumes "\<bar>m\<bar> \<le> 2 ^ 53"
  shows "is_double (of_int m / 2 ^ 52)"
  unfolding is_double_def using assms by (intro exI [of _ m] exI [of _ "- 52"]) simp

lemma lerp_upper:
  assumes "0 \<le> a" "a \<le> b" "b < 2 ^ 51" "0 \<le> w" "w \<le> 1"
  shows "fl (fl (of_int a * (1 - w)) + fl (of_int b * w)) \<le> of_int b + 1 / 2"
proof -
  have b: "rat_of_int b \<le> 2 powi 51" using assms(3) by (simp flip: of_int_less_iff)
  have "of_int a * (1 - w) \<le> rat_of_int b * (1 - w)" using assms by (intro mult_right_mono) simp_all
  then have sum: "of_int a * (1 - w) + of_int b * w \<le> rat_of_int b" by (simp add: algebra_simps)
  have parts: "0 \<le> rat_of_int a * (1 - w)" "0 \<le> rat_of_int b * w" using assms by simp_all
  have quarter: "(2 :: rat) powi (51 - 53) = 1 / 4" by simp
  have "\<bar>fl (of_int a * (1 - w)) - of_int a * (1 - w)\<bar> \<le> 2 powi (51 - 53)"
      "\<bar>fl (of_int b * w) - of_int b * w\<bar> \<le> 2 powi (51 - 53)"
    using parts sum b by (intro fl.rnd_error; simp)+
  then have "fl (of_int a * (1 - w)) + fl (of_int b * w) \<le> of_int b + 1 / 2"
    using sum quarter by linarith
  moreover have "is_double (of_int b + 1 / 2)"
    unfolding is_double_def using assms(1-3)
    by (intro exI [of _ "2 * b + 1"] exI [of _ "- 1"]) (simp add: add_divide_distrib)
  ultimately show ?thesis by (rule fl.rnd_le)
qed

lemma lerp_between:
  assumes "0 \<le> a" "a \<le> b" "b < 2 ^ 51" and w: "w = of_int m / 2 ^ 52" "0 \<le> m" "m < 2 ^ 52"
  shows "a \<le> trunc (fl (fl (of_int a * fl (1 - w)) + fl (of_int b * w)))"
    and "trunc (fl (fl (of_int a * fl (1 - w)) + fl (of_int b * w))) \<le> b"
proof -
  let ?r = "fl (fl (of_int a * fl (1 - w)) + fl (of_int b * w))"
  have w01: "0 \<le> w" "w \<le> 1" using w by (simp_all flip: of_int_less_iff)
  have "1 - w = of_int (2 ^ 52 - m) / 2 ^ 52" using w(1) by (simp add: diff_divide_distrib)
  then have exact: "fl (1 - w) = 1 - w" using w(2,3) by (simp only:) (intro fl_double is_double_weight, simp)
  have ge: "of_int a \<le> ?r"
  proof (cases "a = 0 \<or> m = 0")
    case True
    then show ?thesis
    proof
      assume "m = 0"
      then show ?thesis using assms(1-3) exact w(1) by (simp add: fl.rnd_of_int)
    qed (use fl_nonneg assms w01 in simp)
  next
    case False
    let ?s = "of_int a * (1 - w)" and ?t = "of_int a * w"
    have a1: "1 \<le> rat_of_int a" using False assms(1) by simp
    have w52: "1 / 2 ^ 52 \<le> w" "1 / 2 ^ 52 \<le> 1 - w" using w False by (simp_all add: field_simps flip: of_int_less_iff)
    have "2 powi (- 100) \<le> ?s" "2 powi (- 100) \<le> ?t"
      using mult_mono [OF a1 w52(1)] mult_mono [OF a1 w52(2)] a1 w01 by (simp_all add: power_int_minus)
    then have "of_int a \<le> fl (fl ?s + fl ?t)"
      using fl_split_ge [of ?s ?t a] fl_split_ge [of ?t ?s a] assms(2,3)
      by (cases "?t \<le> ?s") (simp_all add: algebra_simps)
    also have "\<dots> \<le> fl (fl ?s + fl (of_int b * w))"
      using assms(2) w01 by (intro fl_mono add_left_mono mult_right_mono) simp_all
    finally show ?thesis by (simp only: exact)
  qed
  then show "a \<le> trunc ?r" using assms(1) by (simp add: trunc_def le_floor_iff)
  have "?r \<le> of_int b + 1 / 2" using lerp_upper [OF assms(1-3) w01] by (simp only: exact)
  then have "?r < of_int (b + 1)" by simp
  then have "\<lfloor>?r\<rfloor> < b + 1" by (simp only: floor_less_iff)
  moreover have "0 \<le> ?r" using order.trans [OF _ ge, of 0] assms(1) by simp
  ultimately show "trunc ?r \<le> b" by (simp add: trunc_def)
qed

section \<open>Reading fixed-point text back\<close>

text \<open>The number that a text like \<^verbatim>\<open>12.34\<close> stands for, in units of its last decimal.\<close>

definition read_fixed :: "string \<Rightarrow> nat" where
  "read_fixed s = of_base 10 (filter (\<lambda>c. c \<noteq> CHR ''.'') s)"

lemma of_base_append: "of_base b (xs @ ys) = of_base b xs * b ^ length ys + of_base b ys"
  by (induction ys rule: rev_induct) (simp_all add: of_base_def algebra_simps)

lemma of_base_zeros: "of_base 10 (replicate m (CHR ''0'')) = 0"
  by (induction m) (simp_all add: of_base_append [of 10 "[CHR ''0'']", simplified] of_base_def digit_val_def)

lemma fixed_reads_back:
  assumes "0 \<le> x" "0 < k"
  shows "int (read_fixed (fixed k x)) = rne (x * 10 ^ k)"
proof -
  define m where "m = nat (rne (x * 10 ^ k))"
  define frac where "frac = to_base 10 (m mod 10 ^ k)"
  have "0 \<le> rne (x * 10 ^ k)" using rne_mono [of 0 "x * 10 ^ k"] rne_int [of 0] assms(1) by simp
  then have m: "int m = rne (x * 10 ^ k)" by (simp add: m_def)
  have len: "length frac \<le> k" unfolding frac_def using assms(2) by (intro length_to_base) simp_all
  have dot: "filter (\<lambda>c. c \<noteq> CHR ''.'') (to_base 10 n) = to_base 10 n" for n
  proof (rule filter_True)
    have "\<not> isdigit (CHR ''.'')" by (simp add: isdigit_def)
    then show "\<forall>c \<in> set (to_base 10 n). c \<noteq> CHR ''.''" using to_base10_digits by blast
  qed
  have "filter (\<lambda>c. c \<noteq> CHR ''.'') (fixed k x) = to_base 10 (m div 10 ^ k) @ replicate (k - length frac) (CHR ''0'') @ frac"
    using assms(1) by (simp add: fixed_def Let_def dot frac_def m_def)
  then have "read_fixed (fixed k x) = m div 10 ^ k * 10 ^ k + m mod 10 ^ k"
    using len by (simp add: read_fixed_def of_base_append of_base_zeros of_base_to_base frac_def)
  then have "read_fixed (fixed k x) = m" by (simp only: div_mult_mod_eq)
  then show ?thesis using m by simp
qed

end
