(* ===== verification/Bench_Stats.thy ===== *)
theory Bench_Stats
  imports Doubles "HOL-Library.Multiset" "HOL-Library.Monad_Syntax"
begin

text \<open>
  The statistics of the memory benchmark, \<^verbatim>\<open>examples/c/benchmark.c\<close> (and the average of
  \<^verbatim>\<open>benchmark_file.c\<close>): sorting the measured latencies with \<^verbatim>\<open>qsort\<close>, their average and median.
  Latencies are \<^verbatim>\<open>long long\<close> values; signed overflow is undefined and yields None. \<^verbatim>\<open>qsort\<close> is an
  argument, with the contract of the C library as the locale \<open>c_qsort\<close>.
\<close>

section \<open>Measuring\<close>

text \<open>\<^verbatim>\<open>ts.tv_sec\<close> and \<^verbatim>\<open>ts.tv_nsec\<close> of the monotonic clock.\<close>

definition get_time_in_ns :: "int \<Rightarrow> int \<Rightarrow> int option" where
  "get_time_in_ns tv_sec tv_nsec =
    Option.bind (as_llong (tv_sec * 1000000000)) (\<lambda>ns. as_llong (ns + tv_nsec))"

section \<open>Sorting\<close>

text \<open>The comparison function reads the elements through \<^verbatim>\<open>int\<close> pointers: their low halves.\<close>

definition compare :: "s64 \<Rightarrow> s64 \<Rightarrow> int option" where
  "compare a b = as_int (sint (ucast a :: s32) - sint (ucast b :: s32))"

text \<open>\<^verbatim>\<open>qsort(latencies, n, sizeof(long long), compare)\<close>, None if a comparison may overflow.\<close>

definition sort_latencies :: "((s64 \<Rightarrow> s64 \<Rightarrow> int) \<Rightarrow> s64 list \<Rightarrow> s64 list) \<Rightarrow> s64 list \<Rightarrow> s64 list option" where
  "sort_latencies qsort latencies =
    (if \<forall>a \<in> set latencies. \<forall>b \<in> set latencies. compare a b \<noteq> None
     then Some (qsort (\<lambda>a b. the (compare a b)) latencies) else None)"

text \<open>A comparison function that \<^verbatim>\<open>qsort\<close> may be called with.\<close>

definition consistent :: "('a \<Rightarrow> 'a \<Rightarrow> int) \<Rightarrow> 'a set \<Rightarrow> bool" where
  "consistent cmp A \<longleftrightarrow> (\<forall>a \<in> A. \<forall>b \<in> A. sgn (cmp a b) = - sgn (cmp b a)) \<and>
     (\<forall>a \<in> A. \<forall>b \<in> A. \<forall>c \<in> A. cmp a b \<le> 0 \<longrightarrow> cmp b c \<le> 0 \<longrightarrow> cmp a c \<le> 0)"

locale c_qsort =
  fixes qsort :: "('a \<Rightarrow> 'a \<Rightarrow> int) \<Rightarrow> 'a list \<Rightarrow> 'a list"
  assumes mset_qsort: "consistent cmp (set xs) \<Longrightarrow> mset (qsort cmp xs) = mset xs"
    and sorted_qsort: "consistent cmp (set xs) \<Longrightarrow> sorted_wrt (\<lambda>a b. cmp a b \<le> 0) (qsort cmp xs)"

section \<open>Average and median\<close>

fun sum_llong :: "s64 list \<Rightarrow> int \<Rightarrow> int option" where
  "sum_llong [] acc = Some acc"
| "sum_llong (x # xs) acc = Option.bind (as_llong (acc + sint x)) (sum_llong xs)"

definition calculate_average :: "s64 list \<Rightarrow> nat \<Rightarrow> int option" where
  "calculate_average arr n = map_option (\<lambda>total. cdiv total (int n)) (sum_llong (take n arr) 0)"

text \<open>
  \<^verbatim>\<open>(arr[n / 2 - 1] + arr[n / 2]) / 2.0\<close> is a \<^verbatim>\<open>double\<close>, and the conversion back to \<^verbatim>\<open>long long\<close> drops the
  fraction.
\<close>

definition calculate_median :: "s64 list \<Rightarrow> nat \<Rightarrow> int option" where
  "calculate_median arr n =
    (if n mod 2 = 0
     then do {
       s \<leftarrow> as_llong (sint (arr ! (n div 2 - 1)) + sint (arr ! (n div 2)));
       llong_of_double (fl (fl (of_int s) / 2))
     }
     else Some (sint (arr ! (n div 2))))"

section \<open>Standard deviation and percentiles\<close>

fun sum_squares :: "s64 list \<Rightarrow> int \<Rightarrow> int \<Rightarrow> int option" where
  "sum_squares [] mean acc = Some acc"
| "sum_squares (x # xs) mean acc =
     do {
       diff \<leftarrow> as_llong (sint x - mean);
       square \<leftarrow> as_llong (diff * diff);
       acc \<leftarrow> as_llong (acc + square);
       sum_squares xs mean acc
     }"

definition calculate_standard_deviation :: "s64 list \<Rightarrow> nat \<Rightarrow> int \<Rightarrow> int option" where
  "calculate_standard_deviation arr n mean =
     do {
       sum_squared_diff \<leftarrow> sum_squares (take n arr) mean 0;
       llong_of_double (fl_sqrt (fl (of_int (cdiv sum_squared_diff (int n)))))
     }"

text \<open>An array element, None outside the array.\<close>

definition arr_at :: "s64 list \<Rightarrow> int \<Rightarrow> int option" where
  "arr_at arr i = (if 0 \<le> i \<and> nat i < length arr then Some (sint (arr ! nat i)) else None)"

text \<open>The conversions of \<^verbatim>\<open>int\<close> values to \<^verbatim>\<open>double\<close> are exact; those of the elements are rounded.\<close>

definition percentile_rank :: "nat \<Rightarrow> int \<Rightarrow> rat" where
  "percentile_rank n percentile = fl (fl (of_int percentile / 100) * of_int (int n - 1))"

definition calculate_percentile :: "s64 list \<Rightarrow> nat \<Rightarrow> int \<Rightarrow> int option" where
  "calculate_percentile arr n percentile =
    (let rank = percentile_rank n percentile in
     do {
       lower_index \<leftarrow> int_of_double rank;
       upper_index \<leftarrow> as_int (lower_index + 1);
       if upper_index \<ge> int n then arr_at arr lower_index
       else do {
         a \<leftarrow> arr_at arr lower_index;
         b \<leftarrow> arr_at arr upper_index;
         let weight = fl (rank - of_int lower_index) in
         llong_of_double (fl (fl (fl (of_int a) * fl (1 - weight)) + fl (fl (of_int b) * weight)))
       }
     })"

section \<open>Lemmas\<close>

lemma low_half:
  assumes "0 \<le> sint a" "sint a < 2 ^ 31"
  shows "sint (ucast (a :: s64) :: s32) = sint a"
proof -
  have "uint a = sint a" using assms by (simp add: uint_sint take_bit_int_eq_self)
  then have "(ucast a :: s32) = word_of_int (sint a)" by (simp add: ucast_eq)
  then show ?thesis using assms s32_of_int [of "sint a"] by simp
qed

lemma compare_small:
  assumes "0 \<le> sint a" "sint a < 2 ^ 31" "0 \<le> sint b" "sint b < 2 ^ 31"
  shows "compare a b = Some (sint a - sint b)"
  using assms by (simp add: compare_def low_half as_int_def)

lemma sum_llong_exact:
  assumes "\<forall>x \<in> set xs. 0 \<le> sint x \<and> sint x \<le> M" "0 \<le> acc" "acc + int (length xs) * M < 2 ^ 63"
  shows "sum_llong xs acc = Some (acc + (\<Sum>x \<leftarrow> xs. sint x))"
  using assms
proof (induction xs arbitrary: acc)
  case (Cons x xs)
  have M: "0 \<le> M" "sint x \<le> M" "0 \<le> sint x" using Cons.prems(1) by auto
  have le: "acc + sint x + int (length xs) * M < 2 ^ 63"
    using Cons.prems(3) M(2) by (simp add: algebra_simps)
  moreover have "0 \<le> int (length xs) * M" using M(1) by simp
  ultimately have "as_llong (acc + sint x) = Some (acc + sint x)"
    using Cons.prems(2) M(3) by (simp add: as_llong_def)
  with Cons.IH [of "acc + sint x"] Cons.prems M(3) le show ?case by (simp add: add.assoc)
qed simp

lemma sum_list_bounds:
  assumes "\<forall>x \<in> set xs. lo \<le> sint x \<and> sint x \<le> hi"
  shows "int (length xs) * lo \<le> (\<Sum>x \<leftarrow> xs. sint x) \<and> (\<Sum>x \<leftarrow> xs. sint x) \<le> int (length xs) * hi"
  using assms by (induction xs) (auto simp: algebra_simps)

section \<open>A sorting function with the contract of qsort\<close>

fun insort_by :: "('a \<Rightarrow> 'a \<Rightarrow> int) \<Rightarrow> 'a \<Rightarrow> 'a list \<Rightarrow> 'a list" where
  "insort_by cmp x [] = [x]"
| "insort_by cmp x (y # ys) = (if cmp x y \<le> 0 then x # y # ys else y # insort_by cmp x ys)"

definition isort_by :: "('a \<Rightarrow> 'a \<Rightarrow> int) \<Rightarrow> 'a list \<Rightarrow> 'a list" where
  "isort_by cmp xs = foldr (insort_by cmp) xs []"

lemma mset_insort_by [simp]: "mset (insort_by cmp x ys) = add_mset x (mset ys)"
  by (induction ys) auto

lemma set_insort_by [simp]: "set (insort_by cmp x ys) = insert x (set ys)"
  using mset_eq_setD [of "insort_by cmp x ys" "x # ys"] by simp

lemma mset_isort_by: "mset (isort_by cmp xs) = mset xs"
  by (induction xs) (simp_all add: isort_by_def)

lemma consistent_subset: "consistent cmp A \<Longrightarrow> B \<subseteq> A \<Longrightarrow> consistent cmp B"
  unfolding consistent_def by (meson subsetD)

lemma consistent_trans:
  "consistent cmp A \<Longrightarrow> cmp a b \<le> 0 \<Longrightarrow> cmp b c \<le> 0 \<Longrightarrow> a \<in> A \<Longrightarrow> b \<in> A \<Longrightarrow> c \<in> A \<Longrightarrow> cmp a c \<le> 0"
  unfolding consistent_def by blast

lemma consistent_flip:
  assumes "consistent cmp A" "a \<in> A" "b \<in> A" "\<not> cmp a b \<le> 0"
  shows "cmp b a \<le> 0"
proof -
  have "sgn (cmp a b) = - sgn (cmp b a)" using assms(1-3) unfolding consistent_def by blast
  with assms(4) have "sgn (cmp b a) = - 1" by simp
  then show ?thesis by (simp add: sgn_if split: if_splits)
qed

lemma sorted_insort_by:
  assumes "consistent cmp (insert x (set ys))" "sorted_wrt (\<lambda>a b. cmp a b \<le> 0) ys"
  shows "sorted_wrt (\<lambda>a b. cmp a b \<le> 0) (insort_by cmp x ys)"
  using assms
proof (induction ys)
  case (Cons y ys)
  note c = Cons.prems(1)
  have ys: "\<forall>z \<in> set ys. cmp y z \<le> 0" using Cons.prems(2) by simp
  show ?case
  proof (cases "cmp x y \<le> 0")
    case True
    have "\<forall>z \<in> set ys. cmp x z \<le> 0"
      using ys consistent_trans [OF c True] by simp
    with True Cons.prems(2) show ?thesis by simp
  next
    case False
    have "cmp y x \<le> 0" using consistent_flip [OF c _ _ False] by simp
    moreover have "sorted_wrt (\<lambda>a b. cmp a b \<le> 0) (insort_by cmp x ys)"
      using Cons.prems(2) by (intro Cons.IH consistent_subset [OF c]) auto
    ultimately show ?thesis using False ys by simp
  qed
qed simp

interpretation isort: c_qsort isort_by
proof
  fix cmp :: "'a \<Rightarrow> 'a \<Rightarrow> int" and xs
  assume c: "consistent cmp (set xs)"
  show "mset (isort_by cmp xs) = mset xs" by (rule mset_isort_by)
  have "sorted_wrt (\<lambda>a b. cmp a b \<le> 0) (isort_by cmp ys)" if "set ys \<subseteq> set xs" for ys
    using that
  proof (induction ys)
    case (Cons y ys)
    have "set (isort_by cmp ys) = set ys" by (rule mset_eq_setD [OF mset_isort_by])
    then have "consistent cmp (insert y (set (isort_by cmp ys)))"
      using Cons.prems by (intro consistent_subset [OF c]) auto
    with Cons show ?case by (simp add: isort_by_def sorted_insort_by)
  qed (simp add: isort_by_def)
  then show "sorted_wrt (\<lambda>a b. cmp a b \<le> 0) (isort_by cmp xs)" by simp
qed

lemma mset_two:
  assumes "mset xs = {#a, b#}"
  shows "xs = [a, b] \<or> xs = [b, a]"
proof -
  have "length xs = 2" using arg_cong [OF assms, of size] by simp
  then obtain x y where "xs = [x, y]" by (auto simp: length_Suc_conv numeral_2_eq_2)
  with assms show ?thesis by (auto simp: add_eq_conv_ex)
qed

section \<open>Properties\<close>

lemma consistent_small:
  assumes "\<forall>x \<in> A. 0 \<le> sint x \<and> sint x < 2 ^ 31"
  shows "consistent (\<lambda>a b. the (compare a b)) A"
proof -
  have "the (compare a b) = sint a - sint b" if "a \<in> A" "b \<in> A" for a b
    using compare_small [of a b] assms that by simp
  then show ?thesis by (auto simp: consistent_def sgn_if)
qed

text \<open>
  Latencies below 2^31 ns (2.1 seconds) are sorted correctly, whichever sorting algorithm the C
  library uses: the comparison, though it looks only at the low halves, never overflows there and
  orders the values numerically.\<close>

lemma latencies_sorted:
  assumes "c_qsort qsort" and "\<forall>x \<in> set xs. 0 \<le> sint x \<and> sint x < 2 ^ 31"
  shows "\<exists>ys. sort_latencies qsort xs = Some ys \<and> mset ys = mset xs \<and> sorted (map sint ys)"
proof -
  let ?cmp = "\<lambda>a b. the (compare a b)"
  note c = consistent_small [OF assms(2)]
  have m: "mset (qsort ?cmp xs) = mset xs" by (rule c_qsort.mset_qsort [OF assms(1) c])
  then have "set (qsort ?cmp xs) = set xs" by (rule mset_eq_setD)
  then have le: "?cmp a b \<le> 0 \<longleftrightarrow> sint a \<le> sint b"
    if "a \<in> set (qsort ?cmp xs)" "b \<in> set (qsort ?cmp xs)" for a b
    using compare_small [of a b] assms(2) that by simp
  have "sorted_wrt (\<lambda>a b. ?cmp a b \<le> 0) (qsort ?cmp xs)" by (rule c_qsort.sorted_qsort [OF assms(1) c])
  then have "sorted (map sint (qsort ?cmp xs))"
    using le by (auto simp: sorted_map intro: sorted_wrt_mono_rel [rotated])
  moreover have "\<forall>a \<in> set xs. \<forall>b \<in> set xs. compare a b \<noteq> None"
    using compare_small assms(2) by simp
  ultimately show ?thesis using m by (simp add: sort_latencies_def)
qed

text \<open>
  Beyond that the comparison is wrong: a latency of 2^32 ns (4.3 seconds) is sorted before one of
  5 ns by every sorting function that obeys its contract.\<close>

theorem long_latency_missorted:
  assumes "c_qsort qsort"
  shows "sort_latencies qsort [5, 0x100000000] = Some [0x100000000, 5]"
proof -
  have cmp: "compare 5 0x100000000 = Some 5" "compare 0x100000000 5 = Some (- 5)"
      "compare 5 5 = Some 0" "compare 0x100000000 0x100000000 = Some 0"
    by (simp_all add: compare_def as_int_def)
  let ?cmp = "\<lambda>a b. the (compare a b)" and ?xs = "[5, 0x100000000 :: s64]"
  have c: "consistent ?cmp (set ?xs)" by (simp add: consistent_def cmp)
  have "mset (qsort ?cmp ?xs) = {#5, 0x100000000#}"
    using c_qsort.mset_qsort [OF assms c] by simp
  then have "qsort ?cmp ?xs = [5, 0x100000000] \<or> qsort ?cmp ?xs = [0x100000000, 5]"
    by (rule mset_two)
  moreover have "sorted_wrt (\<lambda>a b. ?cmp a b \<le> 0) (qsort ?cmp ?xs)"
    by (rule c_qsort.sorted_qsort [OF assms c])
  ultimately have "qsort ?cmp ?xs = [0x100000000, 5]" using cmp by auto
  then show ?thesis by (simp add: sort_latencies_def cmp)
qed

theorem long_latency_missorted_witness:
  "sort_latencies isort_by [5, 0x100000000] = Some [0x100000000, 5]"
  by (rule long_latency_missorted [OF isort.c_qsort_axioms])

lemma average_between:
  assumes "arr \<noteq> []" "\<forall>x \<in> set arr. lo \<le> sint x \<and> sint x \<le> hi" "0 \<le> lo"
  shows "let avg = cdiv (\<Sum>x \<leftarrow> arr. sint x) (int (length arr)) in lo \<le> avg \<and> avg \<le> hi"
proof -
  let ?s = "\<Sum>x \<leftarrow> arr. sint x" and ?n = "int (length arr)"
  have n: "0 < ?n" using assms(1) by simp
  have b: "?n * lo \<le> ?s" "?s \<le> ?n * hi" using sum_list_bounds [OF assms(2)] by auto
  have "0 \<le> ?s" using b(1) n assms(3) by (meson mult_nonneg_nonneg order.trans less_imp_le)
  then have "cdiv ?s ?n = ?s div ?n" using n by (rule cdiv_nonneg)
  moreover have "lo = (?n * lo) div ?n" "hi = (?n * hi) div ?n" using n by simp_all
  ultimately show ?thesis using b n zdiv_mono1 [OF b(1) n] zdiv_mono1 [OF b(2) n] by (simp add: Let_def)
qed

lemma fl_half:
  assumes "0 \<le> s" "s < 2 ^ 53"
  shows "llong_of_double (fl (fl (of_int s) / 2)) = Some (s div 2)"
proof -
  have "is_double (of_int s / 2)"
    unfolding is_double_def using assms by (intro exI [of _ s] exI [of _ "- 1"]) simp
  then have "fl (fl (of_int s) / 2) = of_int s / of_int 2" using assms by (simp add: fl.rnd_of_int fl_double)
  then have "trunc (fl (fl (of_int s) / 2)) = s div 2"
    using assms(1) by (simp only: trunc_def floor_divide_of_int_eq) simp
  moreover have "0 \<le> s div 2" "s div 2 \<le> s" using assms(1) by presburger+
  ultimately show ?thesis using assms(2) by (simp add: llong_of_double_def as_llong_def)
qed

lemma median_even:
  assumes "even n" "0 < n" and "\<And>i. i < n \<Longrightarrow> 0 \<le> sint (arr ! i) \<and> sint (arr ! i) < 2 ^ 52"
  shows "calculate_median arr n = Some ((sint (arr ! (n div 2 - 1)) + sint (arr ! (n div 2))) div 2)"
proof -
  let ?s = "sint (arr ! (n div 2 - 1)) + sint (arr ! (n div 2))"
  have "n div 2 - 1 < n" "n div 2 < n" using assms(2) by simp_all
  then have "0 \<le> ?s" "?s < 2 ^ 53" using assms(3) [of "n div 2 - 1"] assms(3) [of "n div 2"] by auto
  then have "as_llong ?s = Some ?s" "llong_of_double (fl (fl (of_int ?s) / 2)) = Some (?s div 2)"
    by (simp_all add: as_llong_def fl_half del: of_int_add)
  then show ?thesis using assms(1) by (simp add: calculate_median_def even_iff_mod_2_eq_zero del: of_int_add)
qed

lemma median_between:
  assumes "\<And>i. i < n \<Longrightarrow> 0 \<le> sint (arr ! i) \<and> sint (arr ! i) < 2 ^ 52"
    and "\<And>i j. i \<le> j \<Longrightarrow> j < n \<Longrightarrow> sint (arr ! i) \<le> sint (arr ! j)" and "0 < n"
  shows "\<exists>med. calculate_median arr n = Some med \<and>
    sint (arr ! ((n - 1) div 2)) \<le> med \<and> med \<le> sint (arr ! (n div 2))"
proof (cases "even n")
  case True
  define i where "i = n div 2 - 1"
  have i: "n div 2 = Suc i" "(n - 1) div 2 = i" "Suc i < n" using True assms(3) by (auto simp: i_def elim!: evenE)
  let ?a = "sint (arr ! i)" and ?b = "sint (arr ! Suc i)"
  have ab: "0 \<le> ?a" "?a \<le> ?b" "?b < 2 ^ 52" using assms(1) [of i] assms(1) [of "Suc i"] assms(2) [of i "Suc i"] i by auto
  have "calculate_median arr n = Some ((?a + ?b) div 2)"
    using median_even [of n arr] True assms(1,3) i by simp
  moreover have "?a \<le> (?a + ?b) div 2" "(?a + ?b) div 2 \<le> ?b" using ab(2) by linarith+
  ultimately show ?thesis unfolding i(1,2) by blast
next
  case False
  then show ?thesis by (auto simp: calculate_median_def elim!: oddE)
qed

text \<open>
  On sorted latencies (below 2^52 ns, and few enough that their sum fits 64 bits) nothing
  overflows and no precision is lost: the average is the truncated mean, between the smallest and
  the largest latency, and the median lies between the two middle ones.\<close>

lemma average_and_median:
  assumes "sorted (map sint arr)" and "length arr = n" and "0 < n"
    and "\<forall>x \<in> set arr. 0 \<le> sint x \<and> sint x \<le> M" and "int n * M < 2 ^ 63" and "M < 2 ^ 52"
  shows "\<exists>avg med. calculate_average arr n = Some avg \<and> avg = (\<Sum>x \<leftarrow> arr. sint x) div int n \<and>
    sint (hd arr) \<le> avg \<and> avg \<le> sint (last arr) \<and>
    calculate_median arr n = Some med \<and>
    sint (arr ! ((n - 1) div 2)) \<le> med \<and> med \<le> sint (arr ! (n div 2))"
proof -
  have ne: "arr \<noteq> []" using assms(2,3) by auto
  have nth: "sint (arr ! i) \<le> sint (arr ! j)" if "i \<le> j" "j < n" for i j
    using sorted_nth_mono [OF assms(1)] that assms(2) by simp
  have lohi: "\<forall>x \<in> set arr. sint (hd arr) \<le> sint x \<and> sint x \<le> sint (last arr)"
    using nth [of 0] nth [of _ "n - 1"] assms(2,3) ne by (auto simp: in_set_conv_nth hd_conv_nth last_conv_nth)
  have pos: "0 \<le> (\<Sum>x \<leftarrow> arr. sint x)" using assms(4) by (intro sum_list_nonneg) auto
  have avg: "calculate_average arr n = Some (cdiv (\<Sum>x \<leftarrow> arr. sint x) (int n))"
    using sum_llong_exact [of arr M 0] assms(2,4,5) by (simp add: calculate_average_def)
  have avg': "cdiv (\<Sum>x \<leftarrow> arr. sint x) (int n) = (\<Sum>x \<leftarrow> arr. sint x) div int n"
    using pos assms(3) by (simp add: cdiv_nonneg)
  have bnd: "sint (hd arr) \<le> cdiv (\<Sum>x \<leftarrow> arr. sint x) (int n) \<and> cdiv (\<Sum>x \<leftarrow> arr. sint x) (int n) \<le> sint (last arr)"
    using average_between [OF ne lohi] assms(2,4) ne by (simp add: Let_def)
  have el: "0 \<le> sint (arr ! i) \<and> sint (arr ! i) < 2 ^ 52" if "i < n" for i
    using that assms(2,4,6) nth_mem [of i arr] by fastforce
  obtain med where "calculate_median arr n = Some med"
      "sint (arr ! ((n - 1) div 2)) \<le> med" "med \<le> sint (arr ! (n div 2))"
    using median_between [of n arr] el nth assms(3) by blast
  with avg avg' bnd show ?thesis by auto
qed

section \<open>Percentiles\<close>

lemma percentile_product:
  assumes "p \<le> 100" "0 < n" "n < 2 ^ 31"
  defines "x \<equiv> fl (of_int (int p) / 100) * of_int (int n - 1)"
  shows "\<bar>x - of_nat (p * (n - 1)) / 100\<bar> \<le> 1 / 2 ^ 22" "0 \<le> x" "x \<le> 2 powi 31"
proof -
  define f g N :: rat where "f = fl (of_int (int p) / 100)" and "g = of_int (int p) / 100" and "N = of_nat (n - 1)"
  have x: "x = f * N" using assms(2) by (simp add: x_def f_def N_def of_nat_diff)
  have N: "0 \<le> N" "N \<le> 2 powi 31" using assms(2,3) by (simp_all add: N_def of_nat_diff)
  have g: "0 \<le> g" "g \<le> 1" using assms(1) by (simp_all add: g_def)
  then have "\<bar>f - g\<bar> \<le> 2 powi (0 - 53)" unfolding f_def g_def by (intro fl.rnd_error) simp_all
  then have f: "\<bar>f - g\<bar> \<le> 2 powi (- 53)" by simp
  have "is_double 0" "is_double 1" using is_double_of_int [of 0] is_double_of_int [of 1] by simp_all
  then have f01: "0 \<le> f" "f \<le> 1" using fl.rnd_ge [of 0 g] fl.rnd_le [of g 1] g by (simp_all add: f_def g_def)
  show "0 \<le> x" unfolding x using f01 N by (intro mult_nonneg_nonneg)
  show "x \<le> 2 powi 31" unfolding x using mult_mono [OF f01(2) N(2)] N f01 by (simp only: mult_1)
  have "x - of_nat (p * (n - 1)) / 100 = (f - g) * N" by (simp add: x g_def N_def left_diff_distrib)
  then have "\<bar>x - of_nat (p * (n - 1)) / 100\<bar> = \<bar>f - g\<bar> * N" using N(1) by (simp only: abs_mult abs_of_nonneg)
  also have "\<dots> \<le> 2 powi (- 53) * 2 powi 31" using f N by (intro mult_mono) (simp_all only: abs_ge_zero less_imp_le powi_pos)
  also have "\<dots> = 1 / 2 ^ 22" by simp
  finally show "\<bar>x - of_nat (p * (n - 1)) / 100\<bar> \<le> 1 / 2 ^ 22" .
qed

lemma percentile_rank_near:
  assumes "p \<le> 100" "0 < n" "n < 2 ^ 31"
  shows "\<bar>percentile_rank n (int p) - of_nat (p * (n - 1)) / 100\<bar> < 1 / 100" "0 \<le> percentile_rank n (int p)"
proof -
  define x where "x = fl (of_int (int p) / 100) * of_int (int n - 1)"
  note x = percentile_product [OF assms, folded x_def]
  have "\<bar>fl x - x\<bar> \<le> 2 powi (31 - 53)" using x(2,3) by (intro fl.rnd_error) simp_all
  also have "(2 :: rat) powi (31 - 53) = 1 / 2 ^ 22" by simp
  finally have "\<bar>fl x - of_nat (p * (n - 1)) / 100\<bar> \<le> 1 / 2 ^ 22 + 1 / 2 ^ 22" using x(1) by linarith
  then show "\<bar>percentile_rank n (int p) - of_nat (p * (n - 1)) / 100\<bar> < 1 / 100"
    unfolding percentile_rank_def x_def [symmetric] by (rule le_less_trans) simp
  show "0 \<le> percentile_rank n (int p)" unfolding percentile_rank_def x_def [symmetric] by (rule fl_nonneg [OF x(2)])
qed

text \<open>The lower index is the exact one, or one less if the exact rank is a whole number.\<close>

lemma percentile_index:
  assumes "p \<le> 100" "0 < n" "n < 2 ^ 31"
  defines "k \<equiv> p * (n - 1) div 100"
  shows "\<exists>i. int_of_double (percentile_rank n (int p)) = Some (int i) \<and> i < n \<and>
    (i = k \<or> 100 dvd p * (n - 1) \<and> Suc i = k) \<and> \<lfloor>percentile_rank n (int p)\<rfloor> = int i"
proof -
  let ?r = "percentile_rank n (int p)"
  note near = percentile_rank_near [OF assms(1-3)]
  define i where "i = nat \<lfloor>?r\<rfloor>"
  have i: "\<lfloor>?r\<rfloor> = int i" using near(2) by (simp add: i_def)
  have ir: "of_nat i \<le> ?r" "?r < of_nat i + 1" using floor_correct [of ?r] by (simp_all add: i)
  have "rat_of_nat (100 * i) < of_nat (p * (n - 1) + 1)" "rat_of_nat (p * (n - 1)) < of_nat (100 * i + 101)"
    using near(1) ir unfolding of_nat_add [of "100 * i"] of_nat_add [of "p * (n - 1)"] of_nat_mult [of 100] by linarith+
  then have b: "100 * i < p * (n - 1) + 1" "p * (n - 1) < 100 * i + 101" unfolding of_nat_less_iff .
  have "i = q div 100 \<or> 100 dvd q \<and> Suc i = q div 100" if "100 * i < q + 1" "q < 100 * i + 101" for q
  proof (cases "q = 100 * Suc i")
    case False
    then show ?thesis using that by (intro disjI1 div_nat_eqI [symmetric]) simp_all
  qed simp
  from this [OF b] have ik: "i = k \<or> 100 dvd p * (n - 1) \<and> Suc i = k" unfolding k_def .
  have "k \<le> 100 * (n - 1) div 100" unfolding k_def using assms(1) by (intro div_le_mono mult_le_mono1)
  then have "k \<le> n - 1" by (simp only: nonzero_mult_div_cancel_left)
  then have "i < n" using ik assms(2) by auto
  moreover have "int_of_double ?r = Some (int i)"
    using \<open>i < n\<close> assms(3) near(2) by (simp add: int_of_double_def trunc_def i as_int_def)
  ultimately show ?thesis using ik i by blast
qed

lemma percentile_weight:
  assumes "p \<le> 100" "0 < n" "n < 2 ^ 31" "100 < p * (n - 1)" "\<lfloor>percentile_rank n (int p)\<rfloor> = i"
  shows "\<exists>m. fl (percentile_rank n (int p) - of_int i) = of_int m / 2 ^ 52 \<and> 0 \<le> m \<and> m < 2 ^ 52"
proof -
  let ?x = "fl (of_int (int p) / 100) * of_int (int n - 1)" and ?r = "percentile_rank n (int p)"
  have "rat_of_nat 101 \<le> of_nat (p * (n - 1))" using assms(4) by (simp only: of_nat_le_iff)
  then have "(101 :: rat) \<le> of_nat (p * (n - 1))" by (simp only: of_nat_numeral)
  moreover have "(1 :: rat) / 2 ^ 22 \<le> 1 / 100" by simp
  ultimately have x: "1 \<le> ?x" using percentile_product(1) [OF assms(1-3)] by linarith
  then have "0 \<le> ilog2 ?x" using ilog2_geI [of 0 ?x] by simp
  moreover have "ulp ?x = 2 powi (ilog2 ?x - 52)" using x by (intro ulp_powi) simp
  ultimately obtain c where c: "ulp ?x = of_int c * 2 powi (- 52)" using powi_2_int [of "- 52" "ilog2 ?x - 52"] by auto
  obtain j where "?r = of_int j * ulp ?x" using fl_is_multiple by (auto simp: percentile_rank_def)
  then have r: "?r = of_int (j * c) / 2 ^ 52" using c by simp
  define m where "m = j * c - i * 2 ^ 52"
  have m: "?r - of_int i = of_int m / 2 ^ 52" by (simp add: r m_def diff_divide_distrib)
  have "0 \<le> ?r - of_int i" "?r - of_int i < 1" using floor_correct [of ?r] assms(5) by simp_all
  then have "0 \<le> m" "m < 2 ^ 52" unfolding m by (simp_all flip: of_int_less_iff)
  moreover from this have "fl (of_int m / 2 ^ 52) = of_int m / 2 ^ 52" by (intro fl_double is_double_weight) simp
  ultimately show ?thesis unfolding m by blast
qed

text \<open>
  Every percentile of sorted latencies (below 2^51 ns) lies between two neighbouring ones, whatever
  the rounding of the floating-point weights does, as long as the rank is above the first element:
  the lower of the two is the one at the exact rank, or the one before it when the rank is a whole
  number (where the rounded rank may fall just below it). Nothing is read outside the array.\<close>

theorem percentile_between:
  assumes "sorted (map sint arr)" and "length arr = n" and "n < 2 ^ 31"
    and "\<forall>x \<in> set arr. 0 \<le> sint x \<and> sint x < 2 ^ 51" and "p \<le> 100" and "100 < p * (n - 1)"
  shows "\<exists>r i. calculate_percentile arr n (int p) = Some r \<and> i < n \<and>
    (i = p * (n - 1) div 100 \<or> 100 dvd p * (n - 1) \<and> Suc i = p * (n - 1) div 100) \<and>
    sint (arr ! i) \<le> r \<and> r \<le> sint (arr ! min (Suc i) (n - 1))"
proof -
  have n: "0 < n" using assms(6) by (cases n) simp_all
  obtain i where i: "int_of_double (percentile_rank n (int p)) = Some (int i)" "i < n"
      "i = p * (n - 1) div 100 \<or> 100 dvd p * (n - 1) \<and> Suc i = p * (n - 1) div 100"
      "\<lfloor>percentile_rank n (int p)\<rfloor> = int i"
    using percentile_index [OF assms(5) n assms(3)] by blast
  define w where "w = fl (percentile_rank n (int p) - of_int (int i))"
  obtain m where m: "w = of_int m / 2 ^ 52" "0 \<le> m" "m < 2 ^ 52"
    using percentile_weight [OF assms(5) n assms(3,6) i(4)] by (auto simp: w_def)
  have ii: "as_int (int i + 1) = Some (int i + 1)" using i(2) assms(3) by (simp add: as_int_def)
  show ?thesis
  proof (cases "Suc i < n")
    case True
    let ?a = "sint (arr ! i)" and ?b = "sint (arr ! Suc i)"
    have ab: "0 \<le> ?a" "?a \<le> ?b" "?b < 2 ^ 51"
      using sorted_nth_mono [OF assms(1), of i "Suc i"] assms(2,4) True by simp_all
    note l = lerp_between [OF ab m]
    have e: "fl (of_int ?a) = of_int ?a" "fl (of_int ?b) = of_int ?b" using ab by (intro fl.rnd_of_int; simp)+
    let ?r = "trunc (fl (fl (of_int ?a * fl (1 - w)) + fl (of_int ?b * w)))"
    have "calculate_percentile arr n (int p) = as_llong ?r"
      using True i(1,2) ii assms(2) e
      by (simp add: calculate_percentile_def arr_at_def llong_of_double_def nat_add_distrib Let_def w_def)
    also have "\<dots> = Some ?r" using l ab by (simp add: as_llong_def)
    finally have "calculate_percentile arr n (int p) = Some ?r" .
    moreover have "min (Suc i) (n - 1) = Suc i" using True by auto
    ultimately show ?thesis using l i(2,3) by metis
  next
    case False
    then have "calculate_percentile arr n (int p) = Some (sint (arr ! i))"
      using i(1,2) ii assms(2) by (simp add: calculate_percentile_def arr_at_def)
    moreover have "min (Suc i) (n - 1) = i" using False i(2) by simp
    ultimately show ?thesis using i by auto
  qed
qed

theorem percentile_between_witness:
  "\<exists>r i. calculate_percentile [5, 7, 9] 3 (int 75) = Some r \<and> i < 3 \<and>
    (i = 75 * (3 - 1) div 100 \<or> 100 dvd 75 * (3 - 1 :: nat) \<and> Suc i = 75 * (3 - 1) div 100) \<and>
    sint ([5, 7, 9 :: s64] ! i) \<le> r \<and> r \<le> sint ([5, 7, 9 :: s64] ! min (Suc i) (3 - 1))"
  by (rule percentile_between) simp_all

lemma percentile_call:
  assumes "length arr = n" "Suc i < n" "n < 2 ^ 31" "percentile_rank n p = of_nat i + w" "0 \<le> w" "w < 1" "fl w = w"
    and "0 \<le> sint (arr ! i)" "sint (arr ! i) < 2 ^ 53" "0 \<le> sint (arr ! Suc i)" "sint (arr ! Suc i) < 2 ^ 53"
  shows "calculate_percentile arr n p =
    llong_of_double (fl (fl (of_int (sint (arr ! i)) * fl (1 - w)) + fl (of_int (sint (arr ! Suc i)) * w)))"
proof -
  have "\<lfloor>rat_of_nat i + w\<rfloor> = int i" using assms(5,6) by (intro floor_unique) simp_all
  then have "int_of_double (percentile_rank n p) = Some (int i)" "as_int (int i + 1) = Some (int i + 1)"
    using assms(2-5) by (simp_all add: int_of_double_def trunc_def as_int_def)
  moreover have "fl (of_int (sint (arr ! i))) = of_int (sint (arr ! i))"
      "fl (of_int (sint (arr ! Suc i))) = of_int (sint (arr ! Suc i))"
    using assms(8-11) by (intro fl.rnd_of_int; simp)+
  ultimately show ?thesis using assms(1,2,4,7)
    by (simp add: calculate_percentile_def arr_at_def nat_add_distrib Let_def)
qed

lemma p75_rank: "percentile_rank 100 75 = of_nat 74 + 1 / 4"
proof -
  have "is_double (3 / 4)" "is_double (297 / 4)"
    unfolding is_double_def by (intro exI [of _ 3] exI [of _ "- 2"], simp) (intro exI [of _ 297] exI [of _ "- 2"], simp)
  then show ?thesis by (simp add: percentile_rank_def fl_double)
qed

lemma fl_quarter: "fl (1 / 4) = 1 / 4"
proof (rule fl_double)
  show "is_double (1 / 4)" unfolding is_double_def by (intro exI [of _ 1] exI [of _ "- 2"]) simp
qed

lemma p99_rank: "percentile_rank 100 99 = of_nat 98 + 703687441777 / 2 ^ 46"
proof -
  have "percentile_rank 100 99 = fl (fl (99 / 100) * 99)" by (simp add: percentile_rank_def)
  also have "fl (99 / 100) = of_int 8917127262193582 * 2 powi (- 53)" by (rule fl_eqI) simp_all
  also have "fl (of_int 8917127262193582 * 2 powi (- 53) * 99) = of_int 6896840616852849 * 2 powi (- 46)"
    by (rule fl_eqI) simp_all
  also have "\<dots> = of_nat 98 + 703687441777 / 2 ^ 46" by simp
  finally show ?thesis .
qed

lemma p75_value:
  assumes "0 \<le> a" "a < 2 ^ 51" "0 \<le> b" "b < 2 ^ 51"
  shows "llong_of_double (fl (fl (of_int a * fl (1 - 1 / 4)) + fl (of_int b * (1 / 4)))) = Some ((3 * a + b) div 4)"
proof -
  have q: "is_double (of_int i / 4)" if "0 \<le> i" "i \<le> 2 ^ 53" for i
    unfolding is_double_def using that by (intro exI [of _ i] exI [of _ "- 2"]) simp
  have "fl (of_int 3 / 4) = of_int 3 / 4" by (intro fl_double q) simp_all
  then have w: "fl (1 - 1 / 4) = of_int 3 / 4" by (simp only: of_int_numeral) simp
  have parts: "of_int a * (of_int 3 / 4) = rat_of_int (3 * a) / 4" "of_int b * (1 / 4) = rat_of_int b / 4"
      "rat_of_int (3 * a) / 4 + of_int b / 4 = of_int (3 * a + b) / 4"
    by (simp_all add: add_divide_distrib)
  have exact: "fl (of_int (3 * a) / 4) = of_int (3 * a) / 4" "fl (of_int b / 4) = of_int b / 4"
      "fl (of_int (3 * a + b) / 4) = of_int (3 * a + b) / 4"
    using assms by (intro fl_double q; simp)+
  have "fl (fl (of_int a * fl (1 - 1 / 4)) + fl (of_int b * (1 / 4))) = of_int (3 * a + b) / of_int 4"
    unfolding w parts(1,2) exact(1,2) parts(3) exact(3) by simp
  moreover have "\<lfloor>rat_of_int (3 * a + b) / of_int 4\<rfloor> = (3 * a + b) div 4" by (rule floor_divide_of_int_eq)
  moreover have "\<not> rat_of_int (3 * a + b) / of_int 4 < 0" using assms by simp
  ultimately have "llong_of_double (fl (fl (of_int a * fl (1 - 1 / 4)) + fl (of_int b * (1 / 4)))) = as_llong ((3 * a + b) div 4)"
    by (simp only: llong_of_double_def trunc_def if_False)
  moreover have "0 \<le> (3 * a + b) div 4" "(3 * a + b) div 4 \<le> 3 * a + b" using assms by presburger+
  ultimately show ?thesis using assms by (simp add: as_llong_def)
qed

lemma lerp_error:
  assumes "0 \<le> a" "a \<le> b" "b < 2 ^ 40" "0 \<le> w" "w \<le> 1"
  shows "\<bar>fl (fl (of_int a * (1 - w)) + fl (of_int b * w)) - (of_int a * (1 - w) + of_int b * w)\<bar> \<le> 1 / 2 ^ 10"
proof -
  define s t where "s = of_int a * (1 - w)" and "t = of_int b * w"
  have b: "rat_of_int b \<le> 2 powi 40" using assms(3) by (simp flip: of_int_less_iff)
  have "s \<le> rat_of_int b * (1 - w)" unfolding s_def using assms by (intro mult_right_mono) simp_all
  then have sum: "s + t \<le> 2 powi 40" using b by (simp add: t_def algebra_simps)
  have pos: "0 \<le> s" "0 \<le> t" using assms by (simp_all add: s_def t_def)
  then have "\<bar>fl s - s\<bar> \<le> 2 powi (40 - 53)" "\<bar>fl t - t\<bar> \<le> 2 powi (40 - 53)"
    using sum by (intro fl.rnd_error; simp)+
  then have st: "\<bar>fl s - s\<bar> \<le> 1 / 2 ^ 13" "\<bar>fl t - t\<bar> \<le> 1 / 2 ^ 13" by simp_all
  have e: "(1 :: rat) / 2 ^ 13 + 1 / 2 ^ 13 + 1 / 2 ^ 12 \<le> 1 / 2 ^ 10" "(1 :: rat) / 2 ^ 13 \<le> 1" "(2 :: rat) powi 40 + 2 \<le> 2 powi 41" by simp_all
  have "\<bar>fl s + fl t\<bar> \<le> 2 powi 41" using st e(2,3) pos sum by linarith
  then have "\<bar>fl (fl s + fl t) - (fl s + fl t)\<bar> \<le> 2 powi (41 - 53)" by (rule fl.rnd_error) simp
  then have "\<bar>fl (fl s + fl t) - (fl s + fl t)\<bar> \<le> 1 / 2 ^ 12" by simp
  then show ?thesis unfolding s_def [symmetric] t_def [symmetric] using st e(1) by linarith
qed

lemma p99_value:
  assumes "0 \<le> a" "a \<le> b" "b < 2 ^ 40"
  defines "w \<equiv> 703687441777 / 2 ^ 46"
  shows "\<exists>r. llong_of_double (fl (fl (of_int a * fl (1 - w)) + fl (of_int b * w))) = Some r \<and>
    99 * a + b - 100 \<le> 100 * r \<and> 100 * r \<le> 99 * a + b"
proof -
  define v where "v = fl (fl (of_int a * (1 - w)) + fl (of_int b * w))"
  have w: "w = of_int (703687441777 * 2 ^ 6) / 2 ^ 52" by (simp add: w_def)
  have "1 - w = of_int (2 ^ 52 - 703687441777 * 2 ^ 6) / 2 ^ 52" by (simp add: w_def)
  then have ex: "fl (1 - w) = 1 - w" by (simp only:) (intro fl_double is_double_weight, simp)
  have b51: "b < 2 ^ 51" and m: "0 \<le> (703687441777 * 2 ^ 6 :: int)" "703687441777 * 2 ^ 6 < (2 ^ 52 :: int)" using assms(3) by simp_all
  note l = lerp_between [OF assms(1,2) b51 w m, unfolded ex, folded v_def]
  have "\<bar>v - (of_int a * (1 - w) + of_int b * w)\<bar> \<le> 1 / 2 ^ 10" unfolding v_def
    using assms(1-3) by (intro lerp_error) (simp_all add: w_def)
  moreover have "of_int a * (1 - w) + of_int b * w = of_int (99 * a + b) / 100 + of_int (b - a) * (w - 1 / 100)"
    by (simp add: field_simps)
  moreover have "0 \<le> of_int (b - a) * (w - 1 / 100)" using assms(2) by (simp add: w_def)
  moreover have "of_int (b - a) * (w - 1 / 100) \<le> 2 ^ 40 * (w - 1 / 100)"
    using assms(1,3) by (intro mult_right_mono) (simp_all add: w_def flip: of_int_less_iff)
  moreover have "2 ^ 40 * (w - 1 / 100) \<le> 6 / 1000" "(1 :: rat) / 2 ^ 10 \<le> 1 / 1000" by (simp_all add: w_def)
  ultimately have near: "\<bar>v - of_int (99 * a + b) / 100\<bar> < 1 / 100" by linarith
  have "0 \<le> v" unfolding v_def using assms(1,2) by (intro fl_nonneg add_nonneg_nonneg) (simp_all add: fl_nonneg w_def)
  then have t: "of_int (trunc v) \<le> v" "v < of_int (trunc v) + 1" using floor_correct [of v] by (simp_all add: trunc_def)
  define X where "X = 99 * a + b"
  have "rat_of_int (100 * trunc v) < of_int (X + 1)" "rat_of_int X < of_int (100 * trunc v + 101)"
    using near [folded X_def] t unfolding of_int_add of_int_mult of_int_1 of_int_numeral by linarith+
  then have "100 * trunc v < 99 * a + b + 1" "99 * a + b < 100 * trunc v + 101" unfolding of_int_less_iff X_def .
  then show ?thesis unfolding ex v_def [symmetric] llong_of_double_def
    using l assms(1,3) by (intro exI [of _ "trunc v"]) (simp add: as_llong_def)
qed

text \<open>
  The two percentiles that the benchmark prints, for its hundred sorted latencies below 2^40 ns (18
  minutes): the 75th is exactly a quarter of the way from the 75th latency to the 76th, rounded
  down; the 99th is a hundredth of the way from the 99th to the 100th, rounded down, or one less
  when that is a whole number.\<close>

lemma p75_and_p99:
  assumes "sorted (map sint arr)" and "length arr = 100" and "\<forall>x \<in> set arr. 0 \<le> sint x \<and> sint x < 2 ^ 40"
  shows "calculate_percentile arr 100 75 = Some ((3 * sint (arr ! 74) + sint (arr ! 75)) div 4) \<and>
    (\<exists>r. calculate_percentile arr 100 99 = Some r \<and>
       99 * sint (arr ! 98) + sint (arr ! 99) - 100 \<le> 100 * r \<and> 100 * r \<le> 99 * sint (arr ! 98) + sint (arr ! 99))"
proof
  have el: "0 \<le> sint (arr ! i)" "sint (arr ! i) < 2 ^ 40" if "i < 100" for i using assms(2,3) that by simp_all
  have le: "sint (arr ! 98) \<le> sint (arr ! 99)" using sorted_nth_mono [OF assms(1), of 98 99] assms(2) by simp
  have "calculate_percentile arr 100 75 =
      llong_of_double (fl (fl (of_int (sint (arr ! 74)) * fl (1 - 1 / 4)) + fl (of_int (sint (arr ! Suc 74)) * (1 / 4))))"
    using el [of 74] el [of 75] by (intro percentile_call [OF assms(2) _ _ p75_rank]) (simp_all add: fl_quarter)
  also have "\<dots> = Some ((3 * sint (arr ! 74) + sint (arr ! Suc 74)) div 4)"
    using el [of 74] el [of 75] by (intro p75_value) simp_all
  finally show "calculate_percentile arr 100 75 = Some ((3 * sint (arr ! 74) + sint (arr ! 75)) div 4)" by simp
  let ?w = "703687441777 / 2 ^ 46 :: rat"
  have "?w = of_int (703687441777 * 2 ^ 6) / 2 ^ 52" by simp
  then have w: "fl ?w = ?w" by (simp only:) (intro fl_double is_double_weight, simp)
  have eq: "calculate_percentile arr 100 99 =
      llong_of_double (fl (fl (of_int (sint (arr ! 98)) * fl (1 - ?w)) + fl (of_int (sint (arr ! Suc 98)) * ?w)))"
    using el [of 98] el [of 99] by (intro percentile_call [OF assms(2) _ _ p99_rank _ _ w]) simp_all
  have "Suc 98 = 99" by simp
  then show "\<exists>r. calculate_percentile arr 100 99 = Some r \<and>
       99 * sint (arr ! 98) + sint (arr ! 99) - 100 \<le> 100 * r \<and> 100 * r \<le> 99 * sint (arr ! 98) + sint (arr ! 99)"
    using p99_value [OF el(1) [of 98] le el(2) [of 99]] unfolding eq by (simp only:)
qed

section \<open>Deviation from the mean\<close>

lemma square_le: "\<bar>d\<bar> \<le> D \<Longrightarrow> d * d \<le> D * D" for d D :: int
  using mult_mono [of "\<bar>d\<bar>" D "\<bar>d\<bar>" D] by (simp add: abs_mult_self_eq)

lemma sum_squares_exact:
  assumes "\<forall>x \<in> set xs. \<bar>sint x - mean\<bar> \<le> D" "0 \<le> acc" "acc + int (length xs) * (D * D) < 2 ^ 63"
  shows "sum_squares xs mean acc = Some (acc + (\<Sum>x \<leftarrow> xs. (sint x - mean) * (sint x - mean)))"
  using assms
proof (induction xs arbitrary: acc)
  case (Cons x xs)
  let ?d = "sint x - mean"
  have d: "\<bar>?d\<bar> \<le> D" using Cons.prems(1) by simp
  have dd: "0 \<le> ?d * ?d" "?d * ?d \<le> D * D" using square_le [OF d] by (simp_all only: zero_le_square)
  have rest: "0 \<le> int (length xs) * (D * D)" by simp
  have tot: "acc + ?d * ?d + int (length xs) * (D * D) < 2 ^ 63" using Cons.prems(3) dd(2) by (simp add: algebra_simps)
  have "D < 2 ^ 32"
  proof (rule ccontr)
    assume "\<not> ?thesis"
    then have "2 ^ 32 * 2 ^ 32 \<le> D * D" by (intro mult_mono) simp_all
    moreover have "acc + (D * D + int (length xs) * (D * D)) < 2 ^ 63" using Cons.prems(3) by (simp add: distrib_right)
    then have "D * D < 2 ^ 63" using Cons.prems(2) rest by linarith
    ultimately show False by simp
  qed
  then have "as_llong ?d = Some ?d" using d by (auto simp: as_llong_def)
  moreover have "- (2 ^ 63) \<le> ?d * ?d" "?d * ?d < 2 ^ 63" "- (2 ^ 63) \<le> acc + ?d * ?d" "acc + ?d * ?d < 2 ^ 63"
    using dd tot rest Cons.prems(2) by linarith+
  then have "as_llong (?d * ?d) = Some (?d * ?d)" "as_llong (acc + ?d * ?d) = Some (acc + ?d * ?d)"
    by (simp_all only: as_llong_def simp_thms if_True)
  moreover have "sum_squares xs mean (acc + ?d * ?d) = Some (acc + ?d * ?d + (\<Sum>x \<leftarrow> xs. (sint x - mean) * (sint x - mean)))"
    using Cons.prems dd tot by (intro Cons.IH) simp_all
  ultimately show ?case by (simp add: add.assoc)
qed simp

lemma sum_squares_overflow:
  assumes "x \<in> set xs" "3037000500 \<le> \<bar>sint x - mean\<bar>"
  shows "sum_squares xs mean acc = None"
  using assms(1)
proof (induction xs arbitrary: acc)
  case (Cons y ys)
  show ?case
  proof (cases "x = y")
    case True
    have "3037000500 * 3037000500 \<le> \<bar>sint x - mean\<bar> * \<bar>sint x - mean\<bar>" using assms(2) by (intro mult_mono) simp_all
    then have "as_llong ((sint y - mean) * (sint y - mean)) = None" using True by (simp add: as_llong_def)
    then show ?thesis by (cases "as_llong (sint y - mean)") (auto simp: as_llong_def split: if_splits)
  next
    case False
    then have "\<And>acc. sum_squares ys mean acc = None" using Cons by simp
    then show ?thesis by (simp add: bind_eq_None_conv)
  qed
qed simp

text \<open>
  The standard deviation never overflows if the squares of the largest deviation, times the number of
  latencies, fit 64 bits; it is then the square root of the truncated variance, rounded down, if
  the variance is below 2^52 (a deviation of 67 ms), and within one unit of that otherwise.\<close>

lemma standard_deviation_close:
  assumes "length arr = n" and "0 < n" and "\<forall>x \<in> set arr. \<bar>sint x - mean\<bar> \<le> D" and "int n * (D * D) < 2 ^ 63"
  defines "v \<equiv> (\<Sum>x \<leftarrow> arr. (sint x - mean) * (sint x - mean)) div int n"
  shows "\<exists>r. calculate_standard_deviation arr n mean = Some r \<and> 0 \<le> r \<and>
    (r - 1) * (r - 1) \<le> max 1 v \<and> v < (r + 2) * (r + 2) \<and> (v < 2 ^ 52 \<longrightarrow> r * r \<le> v \<and> v < (r + 1) * (r + 1))"
proof -
  let ?s = "\<Sum>x \<leftarrow> arr. (sint x - mean) * (sint x - mean)"
  have s: "sum_squares arr mean 0 = Some ?s" using sum_squares_exact [of arr mean D 0] assms(1,3,4) by simp
  have s0: "0 \<le> ?s" by (intro sum_list_nonneg) auto
  have "(\<Sum>x \<leftarrow> arr. (sint x - mean) * (sint x - mean)) \<le> (\<Sum>x \<leftarrow> arr. D * D)"
    using assms(3) square_le by (intro sum_list_mono) blast
  then have "?s < 2 ^ 63" using assms(1,4) by (simp add: sum_list_triv)
  moreover have "cdiv ?s (int n) = v" unfolding v_def using s0 assms(2) by (intro cdiv_nonneg) simp_all
  ultimately have v: "0 \<le> v" "v < 2 ^ 63" using cdiv_bounds [OF s0, of "int n"] assms(2) by linarith+
  define r where "r = trunc (fl_sqrt (fl (of_int v)))"
  note root = trunc_root [OF v r_def]
  have "calculate_standard_deviation arr n mean = as_llong r"
    using s s0 assms(1,2) by (simp add: calculate_standard_deviation_def cdiv_nonneg llong_of_double_def r_def v_def)
  moreover have "r < 2 ^ 63"
  proof (rule ccontr)
    assume "\<not> ?thesis"
    then have "(2 ^ 63 - 1) * (2 ^ 63 - 1) \<le> (r - 1) * (r - 1)" by (intro mult_mono) simp_all
    then show False using root v(2) by (simp add: max_def split: if_splits)
  qed
  ultimately show ?thesis using root by (simp add: as_llong_def)
qed

text \<open>
  C36. A latency that differs from the mean by more than 3.04 seconds makes the squared difference overflow
  the 64-bit \<^verbatim>\<open>long long\<close>, whatever the other latencies are: the behaviour is undefined.\<close>

theorem standard_deviation_overflows:
  assumes "x \<in> set arr" and "3037000500 \<le> \<bar>sint x - mean\<bar>" and "length arr \<le> n"
  shows "calculate_standard_deviation arr n mean = None"
  using sum_squares_overflow [OF assms(1,2)] assms(3) by (simp add: calculate_standard_deviation_def)

theorem standard_deviation_overflows_witness:
  "calculate_standard_deviation [1000000000, 1000000000, 8500000000] 3 3500000000 = None"
  by (rule standard_deviation_overflows [of 8500000000]) simp_all

end
