(* ===== verification/Bench_Load.thy ===== *)
theory Bench_Load
  imports App_Lifecycle Bench_Stats
begin

text \<open>
  The memory benchmark \<^verbatim>\<open>examples/c/benchmark.c\<close>: the allocation bursts, the measuring loop around them and
  \<^verbatim>\<open>main\<close>, which sorts the latencies and prints their statistics. As for the other programs, the answers of
  the environment (which allocation fails, what the clock shows) are arguments; heap blocks are
  resources of the run, and each access to a block appears in it with its offset.
\<close>

section \<open>Allocation bursts\<close>

abbreviation ALLOCATION_SIZE_MB :: nat where "ALLOCATION_SIZE_MB \<equiv> 512"
abbreviation NUM_ALLOCATION_BURSTS :: nat where "NUM_ALLOCATION_BURSTS \<equiv> 70"
abbreviation NUM_ALLOCATION_PASSIVE :: nat where "NUM_ALLOCATION_PASSIVE \<equiv> 10"
abbreviation PAGE_SIZE :: nat where "PAGE_SIZE \<equiv> 4096"

text \<open>
  The offsets that \<^verbatim>\<open>for (i = 0; i < size; i += PAGE_SIZE)\<close> visits. The \<^verbatim>\<open>size_t\<close> counter is a number: it
  could wrap only for sizes above \<open>2 ^ 64 - 4096\<close>, which no block of memory has.
\<close>

function page_offsets :: "nat \<Rightarrow> nat \<Rightarrow> nat list" where
  "page_offsets i sz = (if i < sz then i # page_offsets (i + PAGE_SIZE) sz else [])"
  by pat_completeness auto
termination
  by (relation "measure (\<lambda>(i, sz). sz - i)") auto

declare page_offsets.simps [simp del]

definition touch_memory :: "res \<Rightarrow> nat \<Rightarrow> act list" where
  "touch_memory block sz = map (\<lambda>i. Poke block (dec_int (int i)) (int (i mod 256))) (page_offsets 0 sz)"

definition access_memory :: "res \<Rightarrow> nat \<Rightarrow> act list" where
  "access_memory block sz = map (\<lambda>i. Poke block (dec_int (int i)) (int (i mod 256))) (page_offsets 0 sz)"

definition elem :: "string \<Rightarrow> nat \<Rightarrow> res" where
  "elem arr i = Memory (arr @ ''['' @ dec_int (int i) @ '']'')"

record burst_world =
  mw_buffers :: bool
  mw_buffers_passive :: bool
  mw_passive :: "nat \<Rightarrow> bool"
  mw_burst :: "nat \<Rightarrow> bool"

text \<open>A loop that allocates one element after the other and works on each.\<close>

fun alloc_loop :: "(nat \<Rightarrow> res) \<Rightarrow> (nat \<Rightarrow> act list) \<Rightarrow> (nat \<Rightarrow> bool) \<Rightarrow> nat list \<Rightarrow> run \<Rightarrow> run" where
  "alloc_loop block work ok [] k = k"
| "alloc_loop block work ok (i # is) k =
     (if \<not> ok i then ([Err ''malloc failed''], Exit 1)
      else emit (Acquire (block i) # work i) (alloc_loop block work ok is k))"

text \<open>
  The passive blocks get \<open>ALLOCATION_SIZE_MB\<close> bytes; setting a whole block with \<^verbatim>\<open>memset\<close> is one use
  of it.
\<close>

definition bursty_memory_usage :: "burst_world \<Rightarrow> run \<Rightarrow> run" where
  "bursty_memory_usage w k =
    (if \<not> mw_buffers w \<or> \<not> mw_buffers_passive w
     then ((if mw_buffers w then [Acquire (Memory ''buffers'')] else [])
             @ (if mw_buffers_passive w then [Acquire (Memory ''buffers_passive'')] else [])
             @ [Err ''malloc failed''], Exit 1)
     else emit [Acquire (Memory ''buffers''), Acquire (Memory ''buffers_passive''),
                Out ''Starting passive memory allocation...'']
       (alloc_loop (elem ''buffers_passive'') (\<lambda>i. [Use (elem ''buffers_passive'' i)]) (mw_passive w)
          [0..<NUM_ALLOCATION_PASSIVE]
          (emit [Out ''Starting bursty memory allocation...'']
            (alloc_loop (elem ''buffers'')
               (\<lambda>i. access_memory (elem ''buffers'' i) (ALLOCATION_SIZE_MB * 1024 * 1024)) (mw_burst w)
               [0..<NUM_ALLOCATION_BURSTS]
               (emit (Out ''Releasing memory...'' # map (\<lambda>i. Release (elem ''buffers'' i)) [0..<NUM_ALLOCATION_BURSTS]
                        @ map (\<lambda>i. Release (elem ''buffers_passive'' i)) [0..<NUM_ALLOCATION_PASSIVE]
                        @ [Release (Memory ''buffers''), Release (Memory ''buffers_passive''),
                           Out ''Memory released.''])
                 k)))))"

section \<open>Measuring\<close>

text \<open>
  The pattern that the benchmarks share: the clock is read before and after the work, and the
  difference, a \<^verbatim>\<open>long long\<close>, is the latency. Overflow is undefined.
\<close>

type_synonym timespec = "int \<times> int" \<comment> \<open>\<^verbatim>\<open>tv_sec\<close> and \<^verbatim>\<open>tv_nsec\<close>\<close>

definition timed :: "timespec \<Rightarrow> timespec \<Rightarrow> (run \<Rightarrow> run) \<Rightarrow> (int \<Rightarrow> run) \<Rightarrow> run" where
  "timed before after work k =
    (case get_time_in_ns (fst before) (snd before) of
       None \<Rightarrow> ([], Undefined)
     | Some start_time \<Rightarrow> work
         (case get_time_in_ns (fst after) (snd after) of
            None \<Rightarrow> ([], Undefined)
          | Some end_time \<Rightarrow>
              (case as_llong (end_time - start_time) of None \<Rightarrow> ([], Undefined) | Some latency_ns \<Rightarrow> k latency_ns)))"

text \<open>\<^verbatim>\<open>latency_ns / 1e6\<close>, printed with \<^verbatim>\<open>%.2f\<close>.\<close>

definition latency_ms :: "int \<Rightarrow> rat" where
  "latency_ms latency_ns = fl (fl (of_int latency_ns) / 1000000)"

record bench_turn =
  bt_start :: timespec
  bt_burst :: burst_world
  bt_end :: timespec

fun bench_loop :: "bench_turn list \<Rightarrow> nat \<Rightarrow> s64 list \<Rightarrow> (s64 list \<Rightarrow> run) \<Rightarrow> run" where
  "bench_loop [] i latencies k = k latencies"
| "bench_loop (w # ws) i latencies k =
     emit [Out (''Iter: '' @ dec_int (int i) @ [newline])]
       (timed (bt_start w) (bt_end w)
          (\<lambda>r. bursty_memory_usage (bt_burst w) (emit [Out ''Cycle completed. Sleeping before the next cycle...''] r))
          (\<lambda>latency_ns. emit [Out (''Total latency: '' @ fixed 2 (latency_ms latency_ns) @ '' ms'' @ [newline])]
             (bench_loop ws (Suc i) (latencies @ [word_of_int latency_ns]) k)))"

text \<open>The statistics printed at the end.\<close>

definition bench_report :: "((s64 \<Rightarrow> s64 \<Rightarrow> int) \<Rightarrow> s64 list \<Rightarrow> s64 list) \<Rightarrow> nat \<Rightarrow> s64 list \<Rightarrow> run" where
  "bench_report qsort n latencies =
    (case do {
       sorted \<leftarrow> sort_latencies qsort latencies;
       average \<leftarrow> calculate_average sorted n;
       std_dev \<leftarrow> calculate_standard_deviation sorted n average;
       median \<leftarrow> calculate_median sorted n;
       p75 \<leftarrow> calculate_percentile sorted n 75;
       p99 \<leftarrow> calculate_percentile sorted n 99;
       Some [Out (''Average: '' @ dec_int average @ [newline]),
             Out (''Standard Deviation: '' @ dec_int std_dev @ [newline]),
             Out (''Median: '' @ dec_int median @ [newline]),
             Out (''75th Percentile (P75): '' @ dec_int p75 @ [newline]),
             Out (''99th Percentile (P99): '' @ dec_int p99 @ [newline])]
     } of None \<Rightarrow> ([], Undefined) | Some lines \<Rightarrow> (lines, Exit 0))"

definition bench_main :: "((s64 \<Rightarrow> s64 \<Rightarrow> int) \<Rightarrow> s64 list \<Rightarrow> s64 list) \<Rightarrow> (nat \<Rightarrow> bench_turn) \<Rightarrow> run" where
  "bench_main qsort w =
     emit [Out ''Sleeping...''] (bench_loop (map w [0..<100]) 0 [] (bench_report qsort 100))"

section \<open>Pages\<close>

text \<open>The loops visit the start of every page once, and nothing outside the block.\<close>

lemma page_offsets_sorted: "sorted_wrt (<) (page_offsets i sz) \<and> (\<forall>x \<in> set (page_offsets i sz). i \<le> x)"
proof (induction i sz rule: page_offsets.induct)
  case (1 i sz)
  show ?case
  proof (cases "i < sz")
    case True
    then have "page_offsets i sz = i # page_offsets (i + PAGE_SIZE) sz" by (simp add: page_offsets.simps [of i])
    with "1.IH" [OF True] show ?thesis by fastforce
  qed (simp add: page_offsets.simps [of i])
qed

lemma set_page_offsets: "set (page_offsets i sz) = {x. x < sz \<and> (\<exists>k. x = i + k * PAGE_SIZE)}"
proof (induction i sz rule: page_offsets.induct)
  case (1 i sz)
  show ?case
  proof (cases "i < sz")
    case True
    have "(\<exists>k. x = i + k * PAGE_SIZE) \<longleftrightarrow> x = i \<or> (\<exists>k. x = i + PAGE_SIZE + k * PAGE_SIZE)" for x
    proof
      assume "\<exists>k. x = i + k * PAGE_SIZE"
      then obtain k where "x = i + k * PAGE_SIZE" by blast
      then show "x = i \<or> (\<exists>k. x = i + PAGE_SIZE + k * PAGE_SIZE)" by (cases k) auto
    next
      assume "x = i \<or> (\<exists>k. x = i + PAGE_SIZE + k * PAGE_SIZE)"
      then show "\<exists>k. x = i + k * PAGE_SIZE"
      proof
        assume "x = i" then show ?thesis by (intro exI [of _ 0]) simp
      next
        assume "\<exists>k. x = i + PAGE_SIZE + k * PAGE_SIZE"
        then obtain k where "x = i + PAGE_SIZE + k * PAGE_SIZE" by blast
        then show ?thesis by (intro exI [of _ "Suc k"]) simp
      qed
    qed
    with True "1.IH" [OF True] show ?thesis by (auto simp: page_offsets.simps [of i])
  qed (auto simp: page_offsets.simps [of i])
qed

lemma distinct_count_list: "distinct xs \<Longrightarrow> count_list xs x = (if x \<in> set xs then 1 else 0)"
  by (induction xs) auto

section \<open>Ownership\<close>

lemma owned_pokes [simp]:
  "block \<in> set H \<Longrightarrow> owned H (map (\<lambda>i. Poke block (f i) (g i)) is) = Some H"
  by (induction "is") auto

lemma clean_alloc_loop:
  assumes "\<And>i H. block i \<in> set H \<Longrightarrow> owned H (work i) = Some H"
    and "\<forall>i \<in> set is. ok i" "distinct (map block is)" "set (map block is) \<inter> set H = {}"
    and "clean (rev (map block is) @ H) k"
  shows "clean H (alloc_loop block work ok is k)"
  using assms(2-)
proof (induction "is" arbitrary: H)
  case (Cons i "is")
  have "clean (block i # H) (alloc_loop block work ok is k)"
    using Cons.prems by (intro Cons.IH) auto
  with Cons.prems show ?case by (simp add: assms(1))
qed simp

lemma elem_eq: "elem arr i = elem arr j \<longleftrightarrow> i = j"
  by (auto simp: elem_def dec_int_inj)

lemma elem_distinct:
  "elem ''buffers'' i \<noteq> elem ''buffers_passive'' j" "elem ''buffers_passive'' j \<noteq> elem ''buffers'' i"
  "elem ''buffers'' i \<noteq> Memory ''buffers''" "elem ''buffers'' i \<noteq> Memory ''buffers_passive''"
  "elem ''buffers_passive'' i \<noteq> Memory ''buffers''" "elem ''buffers_passive'' i \<noteq> Memory ''buffers_passive''"
  by (simp_all add: elem_def)

lemma distinct_elems: "distinct is \<Longrightarrow> distinct (map (elem arr) is)"
  by (simp add: distinct_map inj_on_def elem_eq)

definition burst_sound :: "burst_world \<Rightarrow> bool" where
  "burst_sound w \<longleftrightarrow> mw_buffers w \<and> mw_buffers_passive w \<and> (\<forall>i. mw_passive w i) \<and> (\<forall>i. mw_burst w i)"

lemma clean_bursty:
  assumes "burst_sound w" "clean [] k"
  shows "clean [] (bursty_memory_usage w k)"
proof -
  define bs ps where "bs = map (elem ''buffers'') [0..<NUM_ALLOCATION_BURSTS]"
    and "ps = map (elem ''buffers_passive'') [0..<NUM_ALLOCATION_PASSIVE]"
  let ?two = "[Memory ''buffers_passive'', Memory ''buffers'']"
  let ?rs = "bs @ ps @ [Memory ''buffers'', Memory ''buffers_passive'']"
  have d: "distinct bs" "distinct ps" by (simp_all add: bs_def ps_def distinct_elems)
  have x: "set bs \<inter> set ps = {}" "set bs \<inter> set ?two = {}" "set ps \<inter> set ?two = {}"
    by (auto simp: bs_def ps_def elem_distinct elem_distinct [symmetric])
  have rel: "owned (rev bs @ rev ps @ ?two) (map Release ?rs) = Some []"
    using d x by (intro owned_release_all) auto
  have acts: "map (\<lambda>i. Release (elem ''buffers'' i)) [0..<NUM_ALLOCATION_BURSTS] = map Release bs"
      "map (\<lambda>i. Release (elem ''buffers_passive'' i)) [0..<NUM_ALLOCATION_PASSIVE] = map Release ps"
    by (simp_all add: bs_def ps_def comp_def)
  define es where "es = Out ''Releasing memory...'' # map Release ?rs @ [Out ''Memory released.'']"
  have es: "owned (rev bs @ rev ps @ ?two) es = Some []"
    unfolding es_def by (simp only: owned.simps owned_append rel option.case)
  have es_eq: "Out ''Releasing memory...'' # map Release bs @ map Release ps
      @ [Release (Memory ''buffers''), Release (Memory ''buffers_passive''), Out ''Memory released.''] = es"
    by (simp add: es_def)
  have "clean (rev bs @ rev ps @ ?two) (emit es k)"
    using assms(2) by (simp add: es)
  then have "clean (rev ps @ ?two) (alloc_loop (elem ''buffers'')
      (\<lambda>i. access_memory (elem ''buffers'' i) (ALLOCATION_SIZE_MB * 1024 * 1024)) (mw_burst w)
      [0..<NUM_ALLOCATION_BURSTS] (emit es k))"
    using assms(1) d x unfolding bs_def
    by (intro clean_alloc_loop) (auto simp: burst_sound_def access_memory_def)
  then have "clean ?two (alloc_loop (elem ''buffers_passive'') (\<lambda>i. [Use (elem ''buffers_passive'' i)]) (mw_passive w)
      [0..<NUM_ALLOCATION_PASSIVE] (emit [Out ''Starting bursty memory allocation...''] (alloc_loop (elem ''buffers'')
      (\<lambda>i. access_memory (elem ''buffers'' i) (ALLOCATION_SIZE_MB * 1024 * 1024)) (mw_burst w)
      [0..<NUM_ALLOCATION_BURSTS] (emit es k))))"
    using assms(1) d x unfolding ps_def
    by (intro clean_alloc_loop) (auto simp: burst_sound_def)
  then show ?thesis
    using assms(1) unfolding bursty_memory_usage_def acts es_eq by (simp add: burst_sound_def)
qed

lemma clean_timed:
  assumes "\<And>r. clean [] r \<Longrightarrow> clean [] (work r)" "\<And>latency. clean [] (k latency)"
  shows "clean [] (timed before after work k)"
  using assms by (auto simp: timed_def intro!: assms(1) split: option.split)

lemma clean_bench_report [simp]: "clean [] (bench_report qsort n latencies)"
  by (auto simp: bench_report_def bind_eq_Some_conv split: option.split)

interpretation bench_app: program "bench_main qsort" "\<lambda>w. \<forall>i. burst_sound (bt_burst (w i))"
  for qsort
proof
  fix w :: "nat \<Rightarrow> bench_turn"
  assume "\<forall>i. burst_sound (bt_burst (w i))"
  then have "clean [] (bench_loop ws i latencies (bench_report qsort 100))"
    if "\<forall>x \<in> set ws. burst_sound (bt_burst x)" for ws i latencies
    using that by (induction ws arbitrary: i latencies) (auto intro!: clean_timed clean_bursty)
  with \<open>\<forall>i. burst_sound (bt_burst (w i))\<close> show "clean [] (bench_main qsort w)" by (simp add: bench_main_def)
qed

section \<open>Clocks and latencies\<close>

definition clock :: "timespec \<Rightarrow> int" where
  "clock t = fst t * 1000000000 + snd t"

text \<open>A monotonic clock that has run for less than 272 years.\<close>

definition sane_time :: "timespec \<Rightarrow> bool" where
  "sane_time t \<longleftrightarrow> 0 \<le> fst t \<and> fst t < 2 ^ 33 \<and> 0 \<le> snd t \<and> snd t < 1000000000"

lemma get_time_sane: "sane_time t \<Longrightarrow> get_time_in_ns (fst t) (snd t) = Some (clock t)"
  by (simp add: sane_time_def get_time_in_ns_def clock_def as_llong_def)

lemma timed_sane:
  assumes "sane_time before" "sane_time after"
  shows "timed before after work k = work (k (clock after - clock before))"
proof -
  have "as_llong (clock after - clock before) = Some (clock after - clock before)"
    using assms by (simp add: sane_time_def clock_def as_llong_def)
  with assms show ?thesis by (simp add: timed_def get_time_sane)
qed

text \<open>Printing a latency in milliseconds loses at most half a hundredth of one.\<close>

lemma fl_ms_near:
  assumes "0 \<le> a" "a < 2 ^ 52"
  shows "\<bar>latency_ms a - of_int a / 1000000\<bar> \<le> 1 / 2 ^ 20" "0 \<le> latency_ms a"
proof -
  have a: "rat_of_int a < 2 ^ 52" using assms(2) by (metis of_int_less_iff of_int_numeral of_int_power)
  have e: "fl (of_int a) = of_int a" using assms by (intro fl.rnd_of_int) simp
  have "\<bar>fl (of_int a / 1000000) - of_int a / 1000000\<bar> \<le> 2 powi (33 - 53)"
    using a assms(1) by (intro fl.rnd_error) simp_all
  then show "\<bar>latency_ms a - of_int a / 1000000\<bar> \<le> 1 / 2 ^ 20" by (simp add: latency_ms_def e)
  show "0 \<le> latency_ms a" using assms(1) by (simp add: latency_ms_def e fl_nonneg)
qed

lemma trunc_latency_ms:
  assumes "0 \<le> a" "a < 2 ^ 52"
  shows "trunc (latency_ms a) = a div 1000000"
proof -
  define q r where "q = a div 1000000" and "r = a mod 1000000"
  have qr: "a = 1000000 * q + r" "0 \<le> r" "r < 1000000" by (simp_all add: q_def r_def)
  have "of_int a / 1000000 = of_int q + rat_of_int r / 1000000" by (simp add: qr(1) add_divide_distrib)
  moreover have "rat_of_int r \<le> of_int 999999" using qr(3) by (simp only: of_int_le_iff)
  moreover have "(1 :: rat) / 2 ^ 20 < 1 / 1000000" by simp
  ultimately have "latency_ms a < of_int q + 1" using fl_ms_near(1) [OF assms] unfolding of_int_numeral by linarith
  moreover have "of_int q \<le> latency_ms a"
  proof -
    have e: "fl (of_int a) = of_int a" using assms by (intro fl.rnd_of_int) simp
    have "rat_of_int q \<le> of_int a / 1000000" using qr by (simp add: add_divide_distrib)
    moreover have "is_double (of_int q)" using assms qr by (intro is_double_of_int) simp
    ultimately show ?thesis unfolding latency_ms_def e by (rule fl.rnd_ge)
  qed
  ultimately have "\<lfloor>latency_ms a\<rfloor> = q" by (intro floor_unique)
  then show ?thesis using fl_ms_near(2) [OF assms] by (simp add: trunc_def q_def)
qed

text \<open>
  A latency below 2^52 ns is printed in milliseconds with two decimals: the text, read back as a number of
  hundredths, is within half a hundredth of a millisecond of the measured latency.\<close>

theorem printed_latency:
  assumes "0 \<le> a" and "a < 2 ^ 52"
  shows "\<bar>int (read_fixed (fixed 2 (latency_ms a))) * 10000 - a\<bar> \<le> 5000"
proof -
  define m where "m = rne (latency_ms a * 10 ^ 2)"
  have "\<bar>of_int m - latency_ms a * 10 ^ 2\<bar> \<le> 1 / 2" unfolding m_def by (rule rne_near)
  then have "\<bar>of_int m - latency_ms a * 100\<bar> \<le> 1 / 2" by simp
  moreover have "\<bar>latency_ms a - of_int a / 1000000\<bar> \<le> 1 / 2 ^ 20" by (rule fl_ms_near(1) [OF assms])
  moreover have "(1 :: rat) / 2 ^ 20 < 1 / 1000000" by simp
  ultimately have "\<bar>of_int (m * 10000) - rat_of_int a\<bar> < 5001" unfolding of_int_mult of_int_numeral by linarith
  then have "\<bar>m * 10000 - a\<bar> \<le> 5000" by (simp flip: of_int_mult of_int_diff of_int_abs)
  then show ?thesis using fixed_reads_back [OF fl_ms_near(2) [OF assms], of 2] by (simp only: m_def)
qed

theorem printed_latency_witness:
  "\<bar>int (read_fixed (fixed 2 (latency_ms 1234567890))) * 10000 - 1234567890\<bar> \<le> 5000"
  by (rule printed_latency) simp_all

section \<open>The printed statistics\<close>

text \<open>Work that always reaches its continuation.\<close>

definition completes :: "(run \<Rightarrow> run) \<Rightarrow> bool" where
  "completes work \<longleftrightarrow> (\<exists>xs. \<forall>k. work k = emit xs k)"

lemma emit_emit: "emit xs (emit ys r) = emit (xs @ ys) r"
  by (simp add: emit_def)

lemma completes_emit [intro]: "completes work \<Longrightarrow> completes (\<lambda>k. emit xs (work k))"
  by (auto simp: completes_def emit_emit)

lemma completes_id [intro]: "completes (\<lambda>k. k)" "completes (emit xs)"
  unfolding completes_def by (rule exI [of _ "[]"], simp add: emit_def) blast

lemma completes_same: "(\<And>k. work k = k) \<Longrightarrow> completes work"
  by (auto simp: completes_def emit_def intro: exI [of _ "[]"])

lemma completes_compose: "completes f \<Longrightarrow> completes g \<Longrightarrow> completes (\<lambda>k. f (g k))"
  unfolding completes_def by (metis emit_emit)

lemma completes_alloc_loop: "\<forall>i \<in> set is. ok i \<Longrightarrow> completes (alloc_loop block work ok is)"
proof (induction "is")
  case (Cons i "is")
  then have "completes (\<lambda>k. emit (Acquire (block i) # work i) (alloc_loop block work ok is k))" by auto
  with Cons.prems show ?case by (simp add: completes_def)
qed (auto simp: completes_def emit_def intro: exI [of _ "[]"])

lemma completes_bursty:
  assumes "burst_sound w"
  shows "completes (bursty_memory_usage w)"
proof -
  have "completes (\<lambda>k. alloc_loop b f (mw_passive w) [0..<NUM_ALLOCATION_PASSIVE]
      (emit xs (alloc_loop c g (mw_burst w) [0..<NUM_ALLOCATION_BURSTS] (emit ys k))))" for b f c g xs ys
    using assms by (intro completes_compose [OF completes_alloc_loop] completes_emit completes_compose [OF completes_alloc_loop]
        completes_id) (auto simp: burst_sound_def)
  then show ?thesis using assms unfolding bursty_memory_usage_def burst_sound_def by (simp add: completes_emit)
qed

definition turn_latency :: "bench_turn \<Rightarrow> int" where
  "turn_latency w = clock (bt_end w) - clock (bt_start w)"

definition turn_sane :: "bench_turn \<Rightarrow> bool" where
  "turn_sane w \<longleftrightarrow> sane_time (bt_start w) \<and> sane_time (bt_end w) \<and> burst_sound (bt_burst w)"

lemma bench_loop_completes:
  assumes "\<forall>w \<in> set ws. turn_sane w"
  shows "\<exists>xs. bench_loop ws i latencies k = emit xs (k (latencies @ map (\<lambda>w. word_of_int (turn_latency w)) ws))"
  using assms
proof (induction ws arbitrary: i latencies)
  case (Cons w ws)
  have "completes (bursty_memory_usage (bt_burst w))" using Cons.prems by (intro completes_bursty) (simp add: turn_sane_def)
  then obtain xs where "\<And>r. bursty_memory_usage (bt_burst w) r = emit xs r" by (auto simp: completes_def)
  moreover obtain ys where "bench_loop ws (Suc i) (latencies @ [word_of_int (turn_latency w)]) k
      = emit ys (k ((latencies @ [word_of_int (turn_latency w)]) @ map (\<lambda>w. word_of_int (turn_latency w)) ws))"
    using Cons by fastforce
  ultimately show ?case using Cons.prems by (auto simp: timed_sane turn_sane_def turn_latency_def emit_emit)
qed (auto intro: exI [of _ "[]"] simp: emit_def)

lemma sint_of_int: "- (2 ^ 63) \<le> i \<Longrightarrow> i < 2 ^ 63 \<Longrightarrow> sint (word_of_int i :: s64) = i"
  by (simp add: signed_of_int signed_take_bit_int_eq_self)

text \<open>
  What the report is to print for the sorted latencies \<open>ys\<close>, with a standard deviation and a 99th
  percentile that are determined up to rounding.
\<close>

definition report_lines :: "int list \<Rightarrow> int \<Rightarrow> int \<Rightarrow> act list" where
  "report_lines ys sd p99 =
     [Out (''Average: '' @ dec_int (sum_list ys div 100) @ [newline]),
      Out (''Standard Deviation: '' @ dec_int sd @ [newline]),
      Out (''Median: '' @ dec_int ((ys ! 49 + ys ! 50) div 2) @ [newline]),
      Out (''75th Percentile (P75): '' @ dec_int ((3 * (ys ! 74) + ys ! 75) div 4) @ [newline]),
      Out (''99th Percentile (P99): '' @ dec_int p99 @ [newline])]"

definition rounded_statistics :: "int list \<Rightarrow> int \<Rightarrow> int \<Rightarrow> bool" where
  "rounded_statistics ys sd p99 \<longleftrightarrow>
    (let avg = sum_list ys div 100; v = (\<Sum>y \<leftarrow> ys. (y - avg) * (y - avg)) div 100 in
     0 \<le> sd \<and> (sd - 1) * (sd - 1) \<le> max 1 v \<and> v < (sd + 2) * (sd + 2) \<and>
     99 * (ys ! 98) + ys ! 99 - 100 \<le> 100 * p99 \<and> 100 * p99 \<le> 99 * (ys ! 98) + ys ! 99)"

lemma bench_report_lines:
  assumes "c_qsort qsort" "length lats = 100" "\<forall>x \<in> set lats. lo \<le> sint x \<and> sint x \<le> hi"
    and "0 \<le> lo" "hi < 2 ^ 31" "hi - lo \<le> 303700049"
  shows "\<exists>ys sd p99. mset ys = mset (map sint lats) \<and> sorted ys \<and> rounded_statistics ys sd p99 \<and>
     bench_report qsort 100 lats = (report_lines ys sd p99, Exit 0)"
proof -
  have "\<forall>x \<in> set lats. 0 \<le> sint x \<and> sint x < 2 ^ 31" using assms(3-5) by fastforce
  then obtain zs where zs: "sort_latencies qsort lats = Some zs" "mset zs = mset lats" "sorted (map sint zs)"
    using latencies_sorted [OF assms(1)] by blast
  have len: "length zs = 100" using mset_eq_length [OF zs(2)] assms(2) by simp
  have b: "\<forall>x \<in> set zs. lo \<le> sint x \<and> sint x \<le> hi" using mset_eq_setD [OF zs(2)] assms(3) by simp
  have b31: "\<forall>x \<in> set zs. 0 \<le> sint x \<and> sint x \<le> 2 ^ 31" using b assms(4,5) by fastforce
  define ys where "ys = map sint zs"
  have nth: "sint (zs ! i) = ys ! i" if "i < 100" for i using that len by (simp add: ys_def)
  define avg where "avg = sum_list ys div 100"
  have "zs \<noteq> []" using len by auto
  then have "hd zs \<in> set zs" "last zs \<in> set zs" by simp_all
  then have avg: "calculate_average zs 100 = Some avg" "lo \<le> avg" "avg \<le> hi"
    using average_and_median [OF zs(3) len _ b31] b by (auto simp: avg_def ys_def)
  have "\<forall>x \<in> set zs. \<bar>sint x - avg\<bar> \<le> 303700049" using b avg(2,3) assms(6) by fastforce
  then obtain sd where sd: "calculate_standard_deviation zs 100 avg = Some sd" "0 \<le> sd"
      "(sd - 1) * (sd - 1) \<le> max 1 ((\<Sum>y \<leftarrow> ys. (y - avg) * (y - avg)) div 100)"
      "(\<Sum>y \<leftarrow> ys. (y - avg) * (y - avg)) div 100 < (sd + 2) * (sd + 2)"
    using standard_deviation_close [OF len, of avg 303700049] by (auto simp: ys_def comp_def)
  have "0 \<le> sint (zs ! i) \<and> sint (zs ! i) < 2 ^ 52" if "i < 100" for i
    using b31 that len nth_mem [of i zs] by fastforce
  then have med: "calculate_median zs 100 = Some ((ys ! 49 + ys ! 50) div 2)"
    using median_even [of 100 zs] by (simp add: nth)
  have "\<forall>x \<in> set zs. 0 \<le> sint x \<and> sint x < 2 ^ 40" using b31 by fastforce
  then obtain p99 where p: "calculate_percentile zs 100 75 = Some ((3 * (ys ! 74) + ys ! 75) div 4)"
      "calculate_percentile zs 100 99 = Some p99"
      "99 * (ys ! 98) + ys ! 99 - 100 \<le> 100 * p99" "100 * p99 \<le> 99 * (ys ! 98) + ys ! 99"
    using p75_and_p99 [OF zs(3) len] by (auto simp: nth)
  have "rounded_statistics ys sd p99" using sd p(3,4) by (simp add: rounded_statistics_def avg_def)
  moreover have "bench_report qsort 100 lats = (report_lines ys sd p99, Exit 0)"
    using zs(1) avg(1) sd(1) med p(1,2) by (simp add: bench_report_def report_lines_def avg_def [symmetric])
  moreover have "mset ys = mset (map sint lats)" unfolding ys_def mset_map zs(2) ..
  ultimately show ?thesis using zs(3) unfolding ys_def by blast
qed

text \<open>
  C21. The whole memory benchmark: if no allocation fails, the clock is sane and the hundred latencies are
  below 2^31 ns and within 0.3 seconds of each other, the program exits with status 0, and the
  statistics it prints last are those of the measured latencies, whichever sorting algorithm the C
  library uses: the mean rounded down, the root of the mean squared deviation (within one unit), the
  mean of the two middle latencies, the 75th percentile exactly, and the 99th up to rounding.\<close>

theorem benchmark_statistics:
  assumes "c_qsort qsort" and "\<forall>i. turn_sane (w i)" and "\<forall>i. lo \<le> turn_latency (w i) \<and> turn_latency (w i) \<le> hi"
    and "0 \<le> lo" and "hi < 2 ^ 31" and "hi - lo \<le> 303700049"
  shows "\<exists>xs ys sd p99. mset ys = mset (map (\<lambda>i. turn_latency (w i)) [0..<100]) \<and> sorted ys \<and>
    rounded_statistics ys sd p99 \<and> bench_main qsort w = (xs @ report_lines ys sd p99, Exit 0)"
proof -
  define lats :: "s64 list" where "lats = map (\<lambda>w. word_of_int (turn_latency w)) (map w [0..<100])"
  have s: "sint (word_of_int (turn_latency (w i)) :: s64) = turn_latency (w i)" for i
    using assms(3) [rule_format, of i] assms(4,5) by (intro sint_of_int) simp_all
  obtain xs where xs: "bench_loop (map w [0..<100]) 0 [] (bench_report qsort 100) = emit xs (bench_report qsort 100 lats)"
    using bench_loop_completes [of "map w [0..<100]" 0 "[]"] assms(2) unfolding lats_def by fastforce
  have "\<forall>x \<in> set lats. lo \<le> sint x \<and> sint x \<le> hi" using assms(3) s unfolding lats_def by auto
  then obtain ys sd p99 where r: "mset ys = mset (map sint lats)" "sorted ys" "rounded_statistics ys sd p99"
      "bench_report qsort 100 lats = (report_lines ys sd p99, Exit 0)"
    using bench_report_lines [OF assms(1) _ _ assms(4-6), of lats] by (auto simp: lats_def)
  moreover have "map sint lats = map (\<lambda>i. turn_latency (w i)) [0..<100]" using s by (simp add: lats_def)
  moreover have "bench_main qsort w = ((Out ''Sleeping...'' # xs) @ report_lines ys sd p99, Exit 0)"
    by (simp add: bench_main_def xs r(4) emit_def)
  ultimately show ?thesis by metis
qed

definition demo_turn :: bench_turn where
  "demo_turn = \<lparr>bt_start = (5, 0), bt_burst = \<lparr>mw_buffers = True, mw_buffers_passive = True,
     mw_passive = (\<lambda>_. True), mw_burst = (\<lambda>_. True)\<rparr>, bt_end = (5, 1000000)\<rparr>"

theorem benchmark_statistics_witness:
  "\<exists>xs ys sd p99. mset ys = mset (map (\<lambda>i. turn_latency demo_turn) [0..<100]) \<and> sorted ys \<and>
    rounded_statistics ys sd p99 \<and> bench_main isort_by (\<lambda>i. demo_turn) = (xs @ report_lines ys sd p99, Exit 0)"
  by (rule benchmark_statistics [where lo = 1000000 and hi = 1000000])
    (simp_all add: isort.c_qsort_axioms turn_latency_def turn_sane_def demo_turn_def sane_time_def burst_sound_def clock_def)

end
