(* ===== verification/Bench_Access.thy ===== *)
theory Bench_Access
  imports Bench_Load
begin

text \<open>
  The benchmarks that access files: the random-access workload on mapped files of
  \<^verbatim>\<open>examples/c/benchmark_wmhigh.c\<close> (with the generation of its files) and the read/write loop of
  \<^verbatim>\<open>benchmark_cache.c\<close>. The values of \<^verbatim>\<open>rand\<close>, the results of the calls and the clock are arguments.
  Shown: no access leaves its mapping, whatever \<^verbatim>\<open>rand\<close> returns; generated files have the size that
  the workload maps; the printed average is the mean of the latencies.
\<close>

section \<open>Random access to mapped files\<close>

text \<open>\<^verbatim>\<open>benchmark_wmhigh.c\<close>: one operation, with the values that \<^verbatim>\<open>rand\<close> returns (not negative).\<close>

abbreviation NUM_FILES :: nat where "NUM_FILES \<equiv> 30"
abbreviation WM_FILE_SIZE :: nat where "WM_FILE_SIZE \<equiv> 524288000"
abbreviation BLOCK_SIZE :: nat where "BLOCK_SIZE \<equiv> 4096"

record op_world =
  ow_rand_file :: nat
  ow_rand_kind :: nat
  ow_open :: bool
  ow_mmap :: bool
  ow_rand_offset :: nat
  ow_rand_byte :: "nat \<Rightarrow> nat"
  ow_munmap :: bool

definition wm_file_name :: "nat \<Rightarrow> string" where
  "wm_file_name i = snprintf 256 (''./test_files/file_'' @ dec_int (int i) @ ''.dat'')"

text \<open>\<^verbatim>\<open>READ_RATIO * 100\<close> is 70. A mapping is the set of its bytes: accessing
  another one would not be an access to something held.\<close>

definition wm_op :: "op_world \<Rightarrow> run \<Rightarrow> run" where
  "wm_op w k =
    (let name = wm_file_name (ow_rand_file w mod NUM_FILES);
         is_read = (ow_rand_kind w mod 100 < 70) in
     if \<not> ow_open w then ([Err ''Failed to open file''], Exit 1)
     else emit [Acquire (Fd name)]
       (if \<not> ow_mmap w then ([Err ''Failed to mmap file'', Release (Fd name)], Exit 1)
        else let offset = ow_rand_offset w mod (WM_FILE_SIZE - BLOCK_SIZE);
                 accesses = map (\<lambda>i. if is_read then Use (Mapped_byte (offset + i))
                                     else Poke (Mapped_byte (offset + i)) ''byte'' (int (ow_rand_byte w i mod 256)))
                              [0..<BLOCK_SIZE]
             in emit (map Acquire (map Mapped_byte [0..<WM_FILE_SIZE]) @ accesses)
               (if \<not> ow_munmap w then ([Err ''Failed to unmap memory'', Release (Fd name)], Exit 1)
                else emit (map Release (map Mapped_byte [0..<WM_FILE_SIZE]) @ [Release (Fd name)]) k)))"

fun wm_ops :: "op_world list \<Rightarrow> run \<Rightarrow> run" where
  "wm_ops [] k = k"
| "wm_ops (w # ws) k = wm_op w (wm_ops ws k)"

text \<open>
  \<^verbatim>\<open>simulate_workload\<close>: per iteration the clock and 100000 operations. The latencies are added up in a
  \<^verbatim>\<open>double\<close>, and the sum is divided by \<^verbatim>\<open>NUM_ITERATIONS\<close>, not by the argument.
\<close>

abbreviation NUM_ITERATIONS :: nat where "NUM_ITERATIONS \<equiv> 5"

record wm_turn =
  wt_start :: timespec
  wt_ops :: "nat \<Rightarrow> op_world"
  wt_end :: timespec

fun simulate_loop :: "nat \<Rightarrow> wm_turn list \<Rightarrow> nat \<Rightarrow> rat \<Rightarrow> (rat \<Rightarrow> run) \<Rightarrow> run" where
  "simulate_loop total_iterations [] iteration total_latency k = k (fl (total_latency / of_nat NUM_ITERATIONS))"
| "simulate_loop total_iterations (w # ws) iteration total_latency k =
     emit [Out (''Iteration '' @ dec_int (int iteration + 1) @ ''/'' @ dec_int (int total_iterations) @ ''...'' @ [newline])]
       (timed (wt_start w) (wt_end w) (wm_ops (map (wt_ops w) [0..<100000]))
          (\<lambda>latency. emit [Out (''Iteration '' @ dec_int (int iteration + 1) @ '' latency: ''
                                  @ fixed 2 (latency_ms latency) @ '' ms'' @ [newline])]
             (simulate_loop total_iterations ws (Suc iteration) (fl (total_latency + fl (of_int latency))) k)))"

definition simulate_workload :: "nat \<Rightarrow> (nat \<Rightarrow> wm_turn) \<Rightarrow> (rat \<Rightarrow> run) \<Rightarrow> run" where
  "simulate_workload total_iterations w k = simulate_loop total_iterations (map w [0..<total_iterations]) 0 0 k"

text \<open>\<^verbatim>\<open>main\<close>: a first call with two iterations, whose result is overwritten, and the measured one.\<close>

definition wm_main :: "(nat \<Rightarrow> wm_turn) \<times> (nat \<Rightarrow> wm_turn) \<Rightarrow> run" where
  "wm_main w =
     emit [Out ''Generating files...'']
       (simulate_workload 2 (fst w) (\<lambda>avg_latency.
          emit [Out ''Starting workload simulation...'']
            (simulate_workload NUM_ITERATIONS (snd w) (\<lambda>avg_latency.
               ([Out (''Average latency over '' @ dec_int (int NUM_ITERATIONS) @ '' iterations: ''
                        @ fixed 5 (fl (avg_latency / 1000000)) @ '' ms'' @ [newline])], Exit 0)))))"

section \<open>Generating the files\<close>

text \<open>
  \<^verbatim>\<open>generate_files\<close> of \<^verbatim>\<open>benchmark_wmhigh.c\<close>: \<open>gw_mkdir\<close> is the \<^verbatim>\<open>errno\<close> of a failing \<^verbatim>\<open>mkdir\<close>, None if it succeeds;
  per file the results of \<^verbatim>\<open>open\<close>, \<^verbatim>\<open>malloc\<close> and each \<^verbatim>\<open>write\<close>, and the random bytes of each block.
\<close>

record gen_file =
  gf_open :: bool
  gf_malloc :: bool
  gf_rand :: "nat \<Rightarrow> nat \<Rightarrow> nat"
  gf_write :: "nat \<Rightarrow> int"

abbreviation FILE_PATH :: string where "FILE_PATH \<equiv> ''./test_files''"

definition fill_block :: "(nat \<Rightarrow> nat) \<Rightarrow> act list" where
  "fill_block rand = map (\<lambda>k. Poke (Memory ''buffer'') (dec_int (int k)) (int (rand k mod 256))) [0..<BLOCK_SIZE]"

fun write_blocks :: "string \<Rightarrow> gen_file \<Rightarrow> nat list \<Rightarrow> run \<Rightarrow> run" where
  "write_blocks name f [] k = k"
| "write_blocks name f (j # js) k =
     emit (fill_block (gf_rand f j))
       (if gf_write f j \<noteq> int BLOCK_SIZE then ([Err ''Failed to write to file''], Exit 1)
        else emit [Poke (Fd name) ''write'' (int BLOCK_SIZE)] (write_blocks name f js k))"

fun generate_loop :: "(nat \<Rightarrow> gen_file) \<Rightarrow> nat list \<Rightarrow> run \<Rightarrow> run" where
  "generate_loop w [] k = k"
| "generate_loop w (i # is) k =
     (let file_name = wm_file_name i in
      emit [Out (''Creating '' @ file_name @ ''...'' @ [newline])]
        (if \<not> gf_open (w i) then ([Err ''Failed to open file for writing''], Exit 1)
         else emit [Acquire (Disk file_name), Acquire (Fd file_name)]
           (if \<not> gf_malloc (w i) then ([Err ''Failed to allocate buffer''], Exit 1)
            else emit [Acquire (Memory ''buffer'')]
              (write_blocks file_name (w i) [0..<WM_FILE_SIZE div BLOCK_SIZE]
                (emit [Release (Memory ''buffer''), Release (Fd file_name)] (generate_loop w is k))))))"

definition wm_generate_files :: "int option \<Rightarrow> (nat \<Rightarrow> gen_file) \<Rightarrow> run \<Rightarrow> run" where
  "wm_generate_files mkdir w k =
    (if mkdir \<noteq> None \<and> mkdir \<noteq> Some EEXIST then ([Err ''Failed to create directory''], Exit 1)
     else emit (if mkdir = None then [Acquire (Disk FILE_PATH)] else [])
       (generate_loop w [0..<NUM_FILES] (emit [Out ''File generation complete.''] k)))"

section \<open>The page-cache benchmark\<close>

text \<open>\<^verbatim>\<open>benchmark_cache.c\<close>: the results of its calls, per iteration for the writes and the reads.\<close>

abbreviation BUFFER_SIZE :: int where "BUFFER_SIZE \<equiv> 4096"
abbreviation CACHE_ITERATIONS :: nat where "CACHE_ITERATIONS \<equiv> 10000"
abbreviation FILE_NAME :: string where "FILE_NAME \<equiv> ''example_file.txt''"

record cache_world =
  cw_malloc :: bool
  cw_open :: bool
  cw_write :: "nat \<Rightarrow> int"
  cw_read :: "nat \<Rightarrow> int"
  cw_unlink :: bool

fun transfer_loop :: "string \<Rightarrow> (nat \<Rightarrow> int) \<Rightarrow> nat list \<Rightarrow> run \<Rightarrow> run" where
  "transfer_loop msg result [] k = k"
| "transfer_loop msg result (i # is) k =
     emit [Use (Memory ''buffer''), Use (Fd FILE_NAME)]
       (if result i \<noteq> BUFFER_SIZE
        then ([Err msg, Release (Memory ''buffer''), Release (Fd FILE_NAME)], Exit 1)
        else transfer_loop msg result is k)"

definition cache_main :: "cache_world \<Rightarrow> run" where
  "cache_main w =
    (if \<not> cw_malloc w then ([Err ''Failed to allocate buffer''], Exit 1)
     else emit [Acquire (Memory ''buffer''), Use (Memory ''buffer'')]
       (if \<not> cw_open w then ([Err ''Failed to open file'', Release (Memory ''buffer'')], Exit 1)
        else emit [Acquire (Disk FILE_NAME), Acquire (Fd FILE_NAME)]
          (transfer_loop ''Failed to write to file'' (cw_write w) [0..<CACHE_ITERATIONS]
            (emit [Poke (Fd FILE_NAME) ''offset'' 0]
              (transfer_loop ''Failed to read from file'' (cw_read w) [0..<CACHE_ITERATIONS]
                ([Out ''File operations completed successfully.'', Release (Memory ''buffer''), Release (Fd FILE_NAME)]
                   @ release_if (cw_unlink w) (Disk FILE_NAME), Exit 0))))))"

declare cache_main_def [app_defs]

section \<open>Ownership\<close>

lemma clean_transfer_loop:
  assumes "clean [Fd FILE_NAME, Disk FILE_NAME, Memory ''buffer''] k" "\<forall>i \<in> set is. result i = BUFFER_SIZE"
  shows "clean [Fd FILE_NAME, Disk FILE_NAME, Memory ''buffer''] (transfer_loop msg result is k)"
  using assms by (induction "is") simp_all

text \<open>Runs in which no transfer fails and the file can be deleted; otherwise it stays on disk.\<close>

definition cache_sound :: "cache_world \<Rightarrow> bool" where
  "cache_sound w \<longleftrightarrow> cw_unlink w \<and> (\<forall>i. cw_write w i = BUFFER_SIZE \<and> cw_read w i = BUFFER_SIZE)"

interpretation cache_app: program cache_main cache_sound
  by unfold_locales (auto simp: app_defs cache_sound_def intro!: clean_transfer_loop)

lemma owned_acquire_all:
  "distinct rs \<Longrightarrow> set rs \<inter> set H = {} \<Longrightarrow> owned H (map Acquire rs) = Some (rev rs @ H)"
  by (induction rs arbitrary: H) auto

lemma owned_accesses:
  "\<forall>a \<in> set xs. (\<exists>r \<in> set H. a = Use r) \<or> (\<exists>r \<in> set H. \<exists>f v. a = Poke r f v) \<Longrightarrow> owned H xs = Some H"
  by (induction xs) auto

lemma wm_op_owned:
  assumes "owned [] (fst k) \<noteq> None"
  shows "owned [] (fst (wm_op w k)) \<noteq> None" and "ow_munmap w \<Longrightarrow> clean [] k \<Longrightarrow> clean [] (wm_op w k)"
proof -
  define B where "B = map Mapped_byte [0..<WM_FILE_SIZE]"
  define offset where "offset = ow_rand_offset w mod (WM_FILE_SIZE - BLOCK_SIZE)"
  define accesses where "accesses = map (\<lambda>i. if ow_rand_kind w mod 100 < 70 then Use (Mapped_byte (offset + i))
      else Poke (Mapped_byte (offset + i)) ''byte'' (int (ow_rand_byte w i mod 256))) [0..<BLOCK_SIZE]"
  let ?fd = "Fd (wm_file_name (ow_rand_file w mod NUM_FILES))"
  have dB: "distinct B" "?fd \<notin> set B" by (auto simp: B_def distinct_map inj_on_def)
  have "offset < WM_FILE_SIZE - BLOCK_SIZE" by (simp add: offset_def)
  then have acc: "owned (rev B @ [?fd]) accesses = Some (rev B @ [?fd])"
    by (intro owned_accesses) (auto simp: accesses_def B_def)
  have acq: "owned [?fd] (map Acquire B @ accesses) = Some (rev B @ [?fd])"
    using dB acc by (simp add: owned_append owned_acquire_all)
  have "owned (rev B @ [?fd]) (map Release (B @ [?fd])) = Some []"
    using dB by (intro owned_release_all) auto
  then have rel: "owned (rev B @ [?fd]) (map Release B @ [Release ?fd]) = Some []" by simp
  define mounting unmounting where "mounting = map Acquire B @ accesses" and "unmounting = map Release B @ [Release ?fd]"
  note st = acq [folded mounting_def] rel [folded unmounting_def]
  have eq: "wm_op w k = (if \<not> ow_open w then ([Err ''Failed to open file''], Exit 1)
     else emit [Acquire ?fd] (if \<not> ow_mmap w then ([Err ''Failed to mmap file'', Release ?fd], Exit 1)
       else emit mounting (if \<not> ow_munmap w then ([Err ''Failed to unmap memory'', Release ?fd], Exit 1)
          else emit unmounting k)))"
    unfolding wm_op_def Let_def B_def offset_def accesses_def mounting_def unmounting_def by (rule refl)
  show "owned [] (fst (wm_op w k)) \<noteq> None"
    using assms unfolding eq by (simp add: owned_append st)
  show "clean [] (wm_op w k)" if "ow_munmap w" "clean [] k"
    using that unfolding eq by (simp add: st)
qed

lemma wm_ops_owned:
  "owned [] (fst k) \<noteq> None \<Longrightarrow> owned [] (fst (wm_ops ws k)) \<noteq> None"
  "\<forall>w \<in> set ws. ow_munmap w \<Longrightarrow> clean [] k \<Longrightarrow> clean [] (wm_ops ws k)"
proof (induction ws)
  case (Cons w ws)
  { case 1 then show ?case using wm_op_owned(1) Cons.IH(1) by simp }
  { case 2
    then have "clean [] (wm_ops ws k)" using Cons.IH(2) by simp
    then show ?case using 2 wm_op_owned(2) by (simp add: clean_def) }
qed simp_all

lemma owned_timed:
  assumes "\<And>r. owned [] (fst r) \<noteq> None \<Longrightarrow> owned [] (fst (work r)) \<noteq> None" "\<And>latency. owned [] (fst (k latency)) \<noteq> None"
  shows "owned [] (fst (timed before after work k)) \<noteq> None"
  using assms by (auto simp: timed_def split: option.split)

lemma simulate_loop_owned:
  "(\<And>a. owned [] (fst (k a)) \<noteq> None) \<Longrightarrow> owned [] (fst (simulate_loop n ws i t k)) \<noteq> None"
  by (induction ws arbitrary: i t) (simp_all add: owned_timed wm_ops_owned(1))

lemma simulate_loop_clean:
  "\<forall>w \<in> set ws. \<forall>j. ow_munmap (wt_ops w j) \<Longrightarrow> (\<And>a. clean [] (k a)) \<Longrightarrow> clean [] (simulate_loop n ws i t k)"
  by (induction ws arbitrary: i t) (simp_all add: clean_timed wm_ops_owned(2))

interpretation wmhigh_app: program wm_main
    "\<lambda>w. \<forall>i j. ow_munmap (wt_ops (fst w i) j) \<and> ow_munmap (wt_ops (snd w i) j)"
  by unfold_locales (simp add: wm_main_def simulate_workload_def simulate_loop_clean)

text \<open>
  C24. The load generators stay inside their memory: no operation of the random-access workload reads
  or writes outside the file that it mapped, whatever \<^verbatim>\<open>rand\<close> returns and whichever call fails; and the
  page-touching loop writes to the first byte of each page of its block exactly once, and to
  nothing else.\<close>

theorem loads_in_bounds:
  "owned [] (fst (wm_main w)) \<noteq> None \<and>
   (\<exists>offsets. access_memory block sz = map (\<lambda>x. Poke block (dec_int (int x)) (int (x mod 256))) offsets \<and>
      (\<forall>x. count_list offsets x = (if x < sz \<and> x mod PAGE_SIZE = 0 then 1 else 0)))"
proof
  have d: "distinct (page_offsets 0 sz)" using page_offsets_sorted [of 0 sz] strict_sorted_iff by blast
  have "x \<in> set (page_offsets 0 sz) \<longleftrightarrow> x < sz \<and> x mod PAGE_SIZE = 0" for x
    by (auto simp: set_page_offsets mod_eq_0_iff_dvd dvd_def mult.commute)
  then have "count_list (page_offsets 0 sz) x = (if x < sz \<and> x mod PAGE_SIZE = 0 then 1 else 0)" for x
    using d by (simp add: distinct_count_list)
  then show "\<exists>offsets. access_memory block sz = map (\<lambda>x. Poke block (dec_int (int x)) (int (x mod 256))) offsets \<and>
      (\<forall>x. count_list offsets x = (if x < sz \<and> x mod PAGE_SIZE = 0 then 1 else 0))"
    unfolding access_memory_def by blast
qed (simp add: wm_main_def simulate_workload_def simulate_loop_owned)

section \<open>The printed average\<close>

definition op_ok :: "op_world \<Rightarrow> bool" where
  "op_ok w \<longleftrightarrow> ow_open w \<and> ow_mmap w \<and> ow_munmap w"

lemma completes_wm_op:
  assumes "op_ok w"
  shows "completes (wm_op w)"
proof -
  have "ow_open w = True" "ow_mmap w = True" "ow_munmap w = True" using assms by (simp_all add: op_ok_def)
  note ok = this
  show ?thesis
    unfolding wm_op_def [abs_def] Let_def ok not_True_eq_False if_False by (intro completes_emit completes_id)
qed

lemma completes_wm_ops: "\<forall>w \<in> set ws. op_ok w \<Longrightarrow> completes (wm_ops ws)"
proof (induction ws)
  case (Cons w ws)
  then have "completes (\<lambda>k. wm_op w (wm_ops ws k))" using completes_compose [OF completes_wm_op, of w "wm_ops ws"] by simp
  then show ?case by (simp add: completes_def)
qed (auto simp: completes_def emit_def intro: exI [of _ "[]"])

definition wm_latency :: "wm_turn \<Rightarrow> int" where
  "wm_latency w = clock (wt_end w) - clock (wt_start w)"

definition wm_sane :: "wm_turn \<Rightarrow> bool" where
  "wm_sane w \<longleftrightarrow> sane_time (wt_start w) \<and> sane_time (wt_end w) \<and> 0 \<le> wm_latency w \<and> (\<forall>j. op_ok (wt_ops w j))"

lemma simulate_loop_average:
  assumes "\<forall>w \<in> set ws. wm_sane w" "0 \<le> T" "T + (\<Sum>w \<leftarrow> ws. wm_latency w) < 2 ^ 53"
  shows "\<exists>xs. simulate_loop n ws i (of_int T) k = emit xs (k (fl (of_int (T + (\<Sum>w \<leftarrow> ws. wm_latency w)) / 5)))"
  using assms
proof (induction ws arbitrary: i T)
  case (Cons w ws)
  have w: "sane_time (wt_start w)" "sane_time (wt_end w)" "0 \<le> wm_latency w" "completes (wm_ops (map (wt_ops w) [0..<100000]))"
    using Cons.prems(1) by (auto simp: wm_sane_def intro!: completes_wm_ops)
  have "0 \<le> (\<Sum>w \<leftarrow> ws. wm_latency w)" using Cons.prems(1) by (intro sum_list_nonneg) (auto simp: wm_sane_def)
  then have lt: "T + wm_latency w < 2 ^ 53" "wm_latency w < 2 ^ 53" using Cons.prems(2,3) by simp_all
  then have "fl (of_int (wm_latency w)) = of_int (wm_latency w)" "fl (of_int (T + wm_latency w)) = of_int (T + wm_latency w)"
    using w(3) Cons.prems(2) by (intro fl.rnd_of_int; simp)+
  then have e: "fl (of_int T + fl (of_int (wm_latency w))) = of_int (T + wm_latency w)" by simp
  obtain xs where "\<And>r. wm_ops (map (wt_ops w) [0..<100000]) r = emit xs r" using w(4) by (auto simp: completes_def)
  moreover obtain ys where "simulate_loop n ws (Suc i) (of_int (T + wm_latency w)) k
      = emit ys (k (fl (of_int (T + wm_latency w + (\<Sum>w \<leftarrow> ws. wm_latency w)) / 5)))"
    using Cons.IH [of "T + wm_latency w" "Suc i"] Cons.prems w(3) by (auto simp: add.assoc)
  ultimately show ?case using w(1,2) e
    by (auto simp: timed_sane add.assoc emit_emit simp flip: wm_latency_def simp del: of_int_add)
qed (auto intro: exI [of _ "[]"] simp: emit_def)

lemma average_text:
  assumes "0 \<le> S" "S < 2 ^ 52"
  shows "\<bar>int (read_fixed (fixed 5 (fl (fl (of_int S / 5) / 1000000)))) * 50 - S\<bar> \<le> 26"
proof -
  define y z where "y = fl (of_int S / 5)" and "z = fl (y / 1000000)"
  have S: "0 \<le> rat_of_int S" "rat_of_int S < 2 ^ 52"
    using assms by (simp, metis of_int_less_iff of_int_numeral of_int_power)
  then have "\<bar>y - of_int S / 5\<bar> \<le> 2 powi (50 - 53)" unfolding y_def by (intro fl.rnd_error) simp_all
  then have y: "\<bar>y - of_int S / 5\<bar> \<le> 1 / 8" by simp
  have y0: "0 \<le> y" unfolding y_def using S by (intro fl_nonneg) simp
  have "rat_of_int S < 4503599627370496" using S(2) by simp
  then have y50: "y \<le> 1125899906842624" using y by linarith
  have "\<bar>z - y / 1000000\<bar> \<le> 2 powi (31 - 53)" unfolding z_def using y50 y0 by (intro fl.rnd_error) simp_all
  then have z: "\<bar>z - y / 1000000\<bar> \<le> 1 / 4194304" by simp
  have z0: "0 \<le> z" unfolding z_def using y0 by (intro fl_nonneg) simp
  define N where "N = rne (z * 10 ^ 5)"
  have "\<bar>of_int N - z * 10 ^ 5\<bar> \<le> 1 / 2" unfolding N_def by (rule rne_near)
  then have "\<bar>of_int N - z * 100000\<bar> \<le> 1 / 2" by simp
  then have "\<bar>of_int (N * 50) - rat_of_int S\<bar> < 27" using y z unfolding of_int_mult of_int_numeral by linarith
  then have "\<bar>N * 50 - S\<bar> \<le> 26" by (simp flip: of_int_mult of_int_diff of_int_abs)
  then show ?thesis using fixed_reads_back [OF z0, of 5] by (simp only: N_def z_def y_def)
qed

text \<open>
  C33. The random-access benchmark, when no call fails and the clock is sane: it exits with status 0, and
  the average it prints last, read back in units of 10 ns, is the mean of its five latencies up to
  rounding (5 times the value differs from their sum by at most 26 ns).\<close>

theorem average_latency_printed:
  assumes "\<forall>i. wm_sane (fst w i) \<and> wm_sane (snd w i)"
    and "(\<Sum>i \<leftarrow> [0..<2]. wm_latency (fst w i)) < 2 ^ 53" and "(\<Sum>i \<leftarrow> [0..<5]. wm_latency (snd w i)) < 2 ^ 52"
  shows "\<exists>xs text. wm_main w = (xs @ [Out (''Average latency over 5 iterations: '' @ text @ '' ms'' @ [newline])], Exit 0) \<and>
    \<bar>int (read_fixed text) * 50 - (\<Sum>i \<leftarrow> [0..<5]. wm_latency (snd w i))\<bar> \<le> 26"
proof -
  let ?S = "\<Sum>i \<leftarrow> [0..<5]. wm_latency (snd w i)"
  let ?last = "\<lambda>avg. ([Out (''Average latency over '' @ dec_int (int NUM_ITERATIONS) @ '' iterations: ''
      @ fixed 5 (fl (avg / 1000000)) @ '' ms'' @ [newline])], Exit 0)"
  have s: "(\<Sum>w \<leftarrow> map f [0..<n]. wm_latency w) = (\<Sum>i \<leftarrow> [0..<n]. wm_latency (f i))" for f n
    by (simp add: comp_def)
  obtain ys where ys: "simulate_workload 5 (snd w) ?last = emit ys (?last (fl (of_int ?S / 5)))"
    using simulate_loop_average [of "map (snd w) [0..<5]" 0 5 0 ?last] assms(1,3) unfolding s
    by (auto simp: simulate_workload_def)
  define k where "k = (\<lambda>avg :: rat. emit [Out ''Starting workload simulation...''] (simulate_workload 5 (snd w) ?last))"
  obtain xs a where xs: "simulate_workload 2 (fst w) k = emit xs (k a)"
    using simulate_loop_average [of "map (fst w) [0..<2]" 0 2 0 k] assms(1,2) unfolding s
    by (auto simp: simulate_workload_def)
  have ka: "k a = emit [Out ''Starting workload simulation...''] (emit ys (?last (fl (of_int ?S / 5))))" by (simp only: k_def ys)
  have "wm_main w = emit [Out ''Generating files...''] (simulate_workload 2 (fst w) k)" by (simp add: wm_main_def k_def)
  also have "\<dots> = (([Out ''Generating files...''] @ xs @ [Out ''Starting workload simulation...''] @ ys)
      @ [Out (''Average latency over 5 iterations: '' @ fixed 5 (fl (fl (of_int ?S / 5) / 1000000)) @ '' ms'' @ [newline])], Exit 0)"
    unfolding xs ka by (simp add: emit_def dec_int_def to_base.simps [of 10 5] digit_char_def digits16_def)
  finally show ?thesis using average_text [OF sum_list_nonneg assms(3)] assms(1) by (fastforce simp: wm_sane_def)
qed

definition demo_wm_turn :: wm_turn where
  "demo_wm_turn = \<lparr>wt_start = (7, 0), wt_ops = (\<lambda>_. \<lparr>ow_rand_file = 3, ow_rand_kind = 80, ow_open = True, ow_mmap = True,
     ow_rand_offset = 9, ow_rand_byte = (\<lambda>_. 1), ow_munmap = True\<rparr>), wt_end = (8, 500)\<rparr>"

theorem average_latency_printed_witness:
  "\<exists>xs text. wm_main (\<lambda>_. demo_wm_turn, \<lambda>_. demo_wm_turn) =
      (xs @ [Out (''Average latency over 5 iterations: '' @ text @ '' ms'' @ [newline])], Exit 0) \<and>
    \<bar>int (read_fixed text) * 50 - 5000002500\<bar> \<le> 26"
  using average_latency_printed [of "(\<lambda>_. demo_wm_turn, \<lambda>_. demo_wm_turn)"]
  by (simp add: wm_sane_def wm_latency_def demo_wm_turn_def sane_time_def clock_def op_ok_def sum_list_triv)

section \<open>The generated files\<close>

text \<open>The number of bytes written to a file in a run.\<close>

fun written :: "string \<Rightarrow> act list \<Rightarrow> int" where
  "written name [] = 0"
| "written name (Poke (Fd n) f v # xs) = (if n = name \<and> f = ''write'' then v else 0) + written name xs"
| "written name (_ # xs) = written name xs"

lemma written_append: "written name (xs @ ys) = written name xs + written name ys"
  by (induction name xs rule: written.induct) auto

lemma written_fill: "written name (fill_block rand) = 0"
proof -
  have "written name (map (\<lambda>k. Poke (Memory m) (f k) (g k)) ks) = 0" for m f g and ks :: "nat list"
    by (induction ks) auto
  then show ?thesis unfolding fill_block_def .
qed

lemma write_blocks_full:
  assumes "\<forall>j. gf_write f j = int BLOCK_SIZE"
  shows "\<exists>xs. (\<forall>k. write_blocks name f js k = emit xs k) \<and> written n xs = (if n = name then int (length js) * 4096 else 0) \<and>
    (\<forall>H. Memory ''buffer'' \<in> set H \<longrightarrow> Fd name \<in> set H \<longrightarrow> owned H xs = Some H)"
proof (induction js)
  case (Cons j js)
  then obtain xs where xs: "\<And>k. write_blocks name f js k = emit xs k"
      "written n xs = (if n = name then int (length js) * 4096 else 0)"
      "\<And>H. Memory ''buffer'' \<in> set H \<Longrightarrow> Fd name \<in> set H \<Longrightarrow> owned H xs = Some H" by blast
  let ?ys = "fill_block (gf_rand f j) @ Poke (Fd name) ''write'' (int BLOCK_SIZE) # xs"
  have "write_blocks name f (j # js) k = emit ?ys k" for k
    using assms xs(1) by (simp add: emit_def)
  moreover have "written n ?ys = (if n = name then int (length (j # js)) * 4096 else 0)"
    using xs(2) by (simp add: written_append written_fill)
  moreover have "owned H ?ys = Some H" if "Memory ''buffer'' \<in> set H" "Fd name \<in> set H" for H
    using xs(3) that by (simp add: owned_append fill_block_def)
  ultimately show ?case by blast
qed (auto intro!: exI [of _ "[]"] simp: emit_def)

lemma wm_file_name_inj: "i < 2 ^ 31 \<Longrightarrow> j < 2 ^ 31 \<Longrightarrow> wm_file_name i = wm_file_name j \<longleftrightarrow> i = j"
proof -
  have "wm_file_name n = ''./test_files/file_'' @ dec_int (int n) @ ''.dat''" if "n < 2 ^ 31" for n
    using length_dec_int_nonneg [of "int n"] that by (simp add: wm_file_name_def)
  then show "wm_file_name i = wm_file_name j \<longleftrightarrow> i = j" if "i < 2 ^ 31" "j < 2 ^ 31"
    using that by (simp add: dec_int_inj)
qed

definition gen_ok :: "gen_file \<Rightarrow> bool" where
  "gen_ok f \<longleftrightarrow> gf_open f \<and> gf_malloc f \<and> (\<forall>j. gf_write f j = int BLOCK_SIZE)"

lemma generate_one:
  assumes "gen_ok (w i)"
  shows "\<exists>xs. (\<forall>is k. generate_loop w (i # is) k = emit xs (generate_loop w is k)) \<and>
    (\<forall>n. written n xs = (if n = wm_file_name i then int WM_FILE_SIZE else 0)) \<and>
    (\<forall>H. Disk (wm_file_name i) \<notin> set H \<longrightarrow> Fd (wm_file_name i) \<notin> set H \<longrightarrow> Memory ''buffer'' \<notin> set H \<longrightarrow>
       owned H xs = Some (Disk (wm_file_name i) # H))"
proof -
  let ?n = "wm_file_name i"
  define js where "js = [0..<WM_FILE_SIZE div BLOCK_SIZE]"
  have len: "int (length js) * 4096 = int WM_FILE_SIZE" by (simp add: js_def)
  have ok: "gf_open (w i)" "gf_malloc (w i)" "\<forall>j. gf_write (w i) j = int BLOCK_SIZE" using assms by (simp_all add: gen_ok_def)
  obtain xs where xs: "\<And>k. write_blocks ?n (w i) js k = emit xs k"
      "\<And>H. Memory ''buffer'' \<in> set H \<Longrightarrow> Fd ?n \<in> set H \<Longrightarrow> owned H xs = Some H"
    using write_blocks_full [OF ok(3), of ?n js ?n] by blast
  have wr: "written n xs = (if n = ?n then int WM_FILE_SIZE else 0)" for n
  proof -
    obtain ys where "\<And>k. write_blocks ?n (w i) js k = emit ys k" "written n ys = (if n = ?n then int (length js) * 4096 else 0)"
      using write_blocks_full [OF ok(3), of ?n js n] by blast
    moreover from this(1) xs(1) [of "([], Exit 0)"] have "xs = ys" by (simp add: emit_def)
    ultimately show ?thesis using len by simp
  qed
  let ?zs = "[Out (''Creating '' @ ?n @ ''...'' @ [newline]), Acquire (Disk ?n), Acquire (Fd ?n), Acquire (Memory ''buffer'')]
      @ xs @ [Release (Memory ''buffer''), Release (Fd ?n)]"
  have "generate_loop w (i # is) k = emit ?zs (generate_loop w is k)" for "is" k
    using ok(1,2) xs(1) unfolding generate_loop.simps Let_def js_def [symmetric] by (simp add: emit_def)
  moreover have "written n ?zs = (if n = ?n then int WM_FILE_SIZE else 0)" for n
    by (simp only: written_append wr) simp
  moreover have "owned H ?zs = Some (Disk ?n # H)" if "Disk ?n \<notin> set H" "Fd ?n \<notin> set H" "Memory ''buffer'' \<notin> set H" for H
    using that xs(2) [of "Memory ''buffer'' # Fd ?n # Disk ?n # H"] by (simp add: owned_append)
  ultimately show ?thesis by blast
qed

lemma generate_all:
  assumes "\<forall>i. gen_ok (w i)" "distinct is" "\<forall>i \<in> set is. i < 2 ^ 31"
    and "\<forall>i \<in> set is. Disk (wm_file_name i) \<notin> set H \<and> Fd (wm_file_name i) \<notin> set H" "Memory ''buffer'' \<notin> set H"
  shows "\<exists>xs. (\<forall>k. generate_loop w is k = emit xs k) \<and> owned H xs = Some (rev (map (\<lambda>i. Disk (wm_file_name i)) is) @ H) \<and>
    (\<forall>n. written n xs = (if n \<in> wm_file_name ` set is then int WM_FILE_SIZE else 0))"
  using assms(2-)
proof (induction "is" arbitrary: H)
  case (Cons i "is")
  obtain xs where xs: "\<And>is k. generate_loop w (i # is) k = emit xs (generate_loop w is k)"
      "\<And>n. written n xs = (if n = wm_file_name i then int WM_FILE_SIZE else 0)"
      "owned H xs = Some (Disk (wm_file_name i) # H)"
    using generate_one [of w i] assms(1) Cons.prems by (metis list.set_intros(1))
  have ne: "wm_file_name j \<noteq> wm_file_name i" if "j \<in> set is" for j
    using that Cons.prems(1,2) wm_file_name_inj [of j i] by auto
  then obtain ys where ys: "\<And>k. generate_loop w is k = emit ys k"
      "owned (Disk (wm_file_name i) # H) ys = Some (rev (map (\<lambda>i. Disk (wm_file_name i)) is) @ Disk (wm_file_name i) # H)"
      "\<And>n. written n ys = (if n \<in> wm_file_name ` set is then int WM_FILE_SIZE else 0)"
    using Cons.IH [of "Disk (wm_file_name i) # H"] Cons.prems by auto
  have "generate_loop w (i # is) k = emit (xs @ ys) k" for k by (simp only: xs(1) ys(1) emit_emit)
  moreover have "owned H (xs @ ys) = Some (rev (map (\<lambda>i. Disk (wm_file_name i)) (i # is)) @ H)"
    using xs(3) ys(2) by (simp add: owned_append)
  moreover have "written n (xs @ ys) = (if n \<in> wm_file_name ` set (i # is) then int WM_FILE_SIZE else 0)" for n
  proof -
    have "wm_file_name i \<notin> wm_file_name ` set is" using ne by (metis imageE)
    then show ?thesis using xs(2) [of n] ys(3) [of n] by (auto simp: written_append)
  qed
  ultimately show ?case by blast
qed (auto intro!: exI [of _ "[]"] simp: emit_def)

text \<open>
  C25. The file generation of the random-access benchmark, when no call fails (an existing directory is
  accepted): each of the thirty files receives exactly the number of bytes that the workload later maps,
  every descriptor and buffer is released, and what is left are the files and the directory if it was
  created.\<close>

theorem generated_files_complete:
  assumes "\<forall>i. gen_ok (w i)" and "mkdir = None \<or> mkdir = Some EEXIST"
  shows "\<exists>xs. wm_generate_files mkdir w ([], Exit 0) = (xs, Exit 0) \<and>
    (\<exists>L. owned [] xs = Some L \<and> distinct L \<and>
       set L = (\<lambda>i. Disk (wm_file_name i)) ` {..<30} \<union> (if mkdir = None then {Disk FILE_PATH} else {})) \<and>
    (\<forall>i < 30. written (wm_file_name i) xs = int WM_FILE_SIZE)"
proof -
  define H where "H = (if mkdir = None then [Disk FILE_PATH] else [])"
  have "wm_file_name i \<noteq> FILE_PATH" for i by (simp add: wm_file_name_def snprintf_def)
  then obtain xs where xs: "\<And>k. generate_loop w [0..<NUM_FILES] k = emit xs k"
      "owned H xs = Some (rev (map (\<lambda>i. Disk (wm_file_name i)) [0..<NUM_FILES]) @ H)"
      "\<And>n. written n xs = (if n \<in> wm_file_name ` set [0..<NUM_FILES] then int WM_FILE_SIZE else 0)"
    using generate_all [OF assms(1), of "[0..<NUM_FILES]" H] by (auto simp: H_def)
  let ?zs = "(if mkdir = None then [Acquire (Disk FILE_PATH)] else []) @ xs @ [Out ''File generation complete.'']"
  have run: "wm_generate_files mkdir w ([], Exit 0) = (?zs, Exit 0)"
    using assms(2) xs(1) by (auto simp: wm_generate_files_def emit_def)
  have own: "owned [] ?zs = Some (rev (map (\<lambda>i. Disk (wm_file_name i)) [0..<NUM_FILES]) @ H)"
    using xs(2) by (cases mkdir) (simp_all add: owned_append H_def)
  have wr: "\<forall>i < 30. written (wm_file_name i) ?zs = int WM_FILE_SIZE"
    using xs(3) by (simp add: written_append)
  show ?thesis
  proof (intro exI conjI)
    show "distinct (rev (map (\<lambda>i. Disk (wm_file_name i)) [0..<NUM_FILES]) @ H)" using owned_distinct [OF own] by simp
    show "set (rev (map (\<lambda>i. Disk (wm_file_name i)) [0..<NUM_FILES]) @ H)
        = (\<lambda>i. Disk (wm_file_name i)) ` {..<30} \<union> (if mkdir = None then {Disk FILE_PATH} else {})"
      by (cases mkdir) (simp_all add: H_def lessThan_atLeast0)
  qed (rule run own wr)+
qed

theorem generated_files_complete_witness:
  "\<exists>xs. wm_generate_files (Some EEXIST) (\<lambda>_. \<lparr>gf_open = True, gf_malloc = True, gf_rand = (\<lambda>j k. j), gf_write = (\<lambda>_. 4096)\<rparr>) ([], Exit 0)
      = (xs, Exit 0) \<and>
    (\<exists>L. owned [] xs = Some L \<and> distinct L \<and>
       set L = (\<lambda>i. Disk (wm_file_name i)) ` {..<30} \<union> (if Some EEXIST = None then {Disk FILE_PATH} else {})) \<and>
    (\<forall>i < 30. written (wm_file_name i) xs = int WM_FILE_SIZE)"
  by (rule generated_files_complete) (simp_all add: gen_ok_def)

end
