(* ===== verification/Bench_Files.thy ===== *)
theory Bench_Files
  imports Bench_Load
begin

text \<open>
  The file benchmark \<^verbatim>\<open>examples/c/benchmark_file.c\<close>: bursts of files that are created, mapped, filled with
  random bytes, unmapped and deleted, the two old files that a burst may read in between, and \<^verbatim>\<open>main\<close>.
  Mappings, descriptors and files on disk are resources of the run; the answers of the environment are
  arguments. Shown: what a burst leaves behind whichever calls fail, that the old files are set up
  and removed completely, and what \<^verbatim>\<open>main\<close> prints and returns whatever fails.
\<close>

section \<open>Data\<close>

abbreviation FILES_PER_ITERATION :: nat where "FILES_PER_ITERATION \<equiv> 20"
abbreviation OLD_FILES :: nat where "OLD_FILES \<equiv> 2"
abbreviation BURSTS :: nat where "BURSTS \<equiv> 60"
abbreviation FILE_ITERATIONS :: nat where "FILE_ITERATIONS \<equiv> 20"
abbreviation FILE_SIZE :: nat where "FILE_SIZE \<equiv> 1048576" \<comment> \<open>\<^verbatim>\<open>FILE_SIZE_MB * 1024 * 1024\<close>\<close>
abbreviation OLD_FILE_SIZE :: nat where "OLD_FILE_SIZE \<equiv> 67108864"

text \<open>The answers for one file.\<close>

record file_world =
  fw_open :: bool
  fw_ftruncate :: bool
  fw_mmap :: bool
  fw_rand :: "nat \<Rightarrow> nat"
  fw_stack :: nat \<comment> \<open>the bytes left on the stack for \<^verbatim>\<open>buffer2\<close>\<close>
  fw_munmap :: bool
  fw_unlink :: bool

text \<open>A descriptor variable: zero (never assigned, static), -1, or the descriptor of the file.\<close>

datatype fd_var = Fd_zero | Fd_none | Fd_open

text \<open>The globals \<^verbatim>\<open>fds_old\<close> and \<^verbatim>\<open>buffers_old\<close> (whether each pointer is not null).\<close>

record old_files =
  fds_old :: "fd_var list"
  buffers_old :: "bool list"

definition old_start :: old_files where
  "old_start = \<lparr>fds_old = replicate OLD_FILES Fd_zero, buffers_old = replicate OLD_FILES False\<rparr>"

definition file_name :: "nat \<Rightarrow> string" where
  "file_name i = snprintf 256 (''file_'' @ dec_int (int i) @ ''.dat'')"

definition old_file_name :: "nat \<Rightarrow> string" where
  "old_file_name i = snprintf 256 (''file_old_'' @ dec_int (int i) @ ''.dat'')"

text \<open>The mappings of the old files are numbered after those of a burst.\<close>

definition old_region :: "nat \<Rightarrow> res" where
  "old_region i = Map_region (FILES_PER_ITERATION + i)"

section \<open>Operations\<close>

definition generate_random_data :: "(nat \<Rightarrow> nat) \<Rightarrow> res \<Rightarrow> nat \<Rightarrow> act list" where
  "generate_random_data rand buffer sz = map (\<lambda>i. Poke buffer (dec_int (int i)) (int (rand i mod 256))) [0..<sz]"

text \<open>
  Reading \<open>sz\<close> bytes of a mapping of \<open>mapped\<close> bytes into \<^verbatim>\<open>char buffer2[size]\<close>: undefined when that array does not
  fit on the stack, and when the index leaves the mapping.
\<close>

definition read_random_data :: "nat \<Rightarrow> nat \<Rightarrow> res \<Rightarrow> nat \<Rightarrow> run \<Rightarrow> run" where
  "read_random_data stack mapped buffer sz k =
    (if stack < sz then ([], Undefined)
     else emit (map (\<lambda>i. Peek buffer (dec_int (int i))) [0..<min sz mapped])
       (if mapped < sz then ([], Undefined) else k))"

text \<open>
  The body of the creation loops, the same for the files of a burst and the old ones: what it does, and
  whether the file ends up mapped.
\<close>

definition create_file :: "string \<Rightarrow> res \<Rightarrow> nat \<Rightarrow> file_world \<Rightarrow> act list \<times> bool" where
  "create_file name region sz w =
    (if \<not> fw_open w then ([Err ''Failed to open file''], False)
     else if \<not> fw_ftruncate w
     then ([Acquire (Disk name), Acquire (Fd name), Err ''Failed to set file size'', Release (Fd name)], False)
     else if \<not> fw_mmap w
     then ([Acquire (Disk name), Acquire (Fd name), Err ''Failed to map the file'', Release (Fd name)], False)
     else ([Acquire (Disk name), Acquire (Fd name), Acquire region] @ generate_random_data (fw_rand w) region sz, True))"

text \<open>The body of the destruction loops. Closing descriptor 0 closes the standard input.\<close>

definition destroy_file :: "string \<Rightarrow> res \<Rightarrow> file_world \<Rightarrow> bool \<Rightarrow> fd_var \<Rightarrow> act list" where
  "destroy_file name region w buffer fd =
    (let unlink = (if fw_unlink w then [Release (Disk name)] else [Err ''Failed to delete file'']) in
     (if buffer then (if fw_munmap w then [Release region] else [Err ''Failed to unmap memory'']) else [])
     @ (case fd of Fd_none \<Rightarrow> [] | Fd_zero \<Rightarrow> Release (Fd ''stdin'') # unlink | Fd_open \<Rightarrow> Release (Fd name) # unlink))"

text \<open>Reading the beginning of every old file; a null pointer is undefined.\<close>

fun visit_old :: "nat \<Rightarrow> bool list \<Rightarrow> nat \<Rightarrow> nat list \<Rightarrow> run \<Rightarrow> run" where
  "visit_old stack buffers sz [] k = k"
| "visit_old stack buffers sz (i # is) k =
     (if \<not> buffers ! i then ([], Undefined)
      else read_random_data stack OLD_FILE_SIZE (old_region i) sz (visit_old stack buffers sz is k))"

fun create_loop :: "(nat \<Rightarrow> file_world) \<Rightarrow> nat \<Rightarrow> bool \<Rightarrow> bool list \<Rightarrow> nat list \<Rightarrow> run \<Rightarrow> run" where
  "create_loop w sz old_visit buffers [] k = k"
| "create_loop w sz old_visit buffers (i # is) k =
     (let (acts, mapped) = create_file (file_name i) (Map_region i) sz (w i) in
      emit acts (if mapped \<and> old_visit
                 then visit_old (fw_stack (w i)) buffers sz [0..<OLD_FILES] (create_loop w sz old_visit buffers is k)
                 else create_loop w sz old_visit buffers is k))"

definition file_mapped :: "file_world \<Rightarrow> bool" where
  "file_mapped w \<longleftrightarrow> fw_open w \<and> fw_ftruncate w \<and> fw_mmap w"

definition generate_files :: "(nat \<Rightarrow> file_world) \<Rightarrow> nat \<Rightarrow> bool \<Rightarrow> old_files \<Rightarrow> run \<Rightarrow> run" where
  "generate_files w file_size old_visit st k =
     create_loop w file_size old_visit (buffers_old st) [0..<FILES_PER_ITERATION]
       (emit (concat (map (\<lambda>i. destroy_file (file_name i) (Map_region i) (w i) (file_mapped (w i))
                                (if file_mapped (w i) then Fd_open else Fd_none)) [0..<FILES_PER_ITERATION])) k)"

text \<open>
  \<^verbatim>\<open>generate_old_files\<close>: a failing \<^verbatim>\<open>open\<close> or \<^verbatim>\<open>ftruncate\<close> leaves the pointer in \<^verbatim>\<open>buffers_old\<close> as it was.
\<close>

definition generate_old_file :: "nat \<Rightarrow> file_world \<Rightarrow> old_files \<Rightarrow> act list \<times> old_files" where
  "generate_old_file i w st =
    (let (acts, mapped) = create_file (old_file_name i) (old_region i) OLD_FILE_SIZE w in
     (acts, st\<lparr>fds_old := (fds_old st)[i := if mapped then Fd_open else Fd_none],
               buffers_old := (if fw_open w \<and> fw_ftruncate w then (buffers_old st)[i := fw_mmap w] else buffers_old st)\<rparr>))"

fun generate_old_loop :: "(nat \<Rightarrow> file_world) \<Rightarrow> nat list \<Rightarrow> old_files \<Rightarrow> act list \<times> old_files" where
  "generate_old_loop w [] st = ([], st)"
| "generate_old_loop w (i # is) st =
     (let (acts, st) = generate_old_file i (w i) st; (rest, st) = generate_old_loop w is st in (acts @ rest, st))"

definition generate_old_files :: "(nat \<Rightarrow> file_world) \<Rightarrow> old_files \<Rightarrow> act list \<times> old_files" where
  "generate_old_files w st = generate_old_loop w [0..<OLD_FILES] st"

definition destroy_old_files :: "(nat \<Rightarrow> file_world) \<Rightarrow> old_files \<Rightarrow> act list" where
  "destroy_old_files w st =
     concat (map (\<lambda>i. destroy_file (old_file_name i) (old_region i) (w i) (buffers_old st ! i) (fds_old st ! i)) [0..<OLD_FILES])"

section \<open>main\<close>

record file_turn =
  ft_start :: timespec
  ft_files :: "nat \<Rightarrow> nat \<Rightarrow> file_world" \<comment> \<open>per burst and file\<close>
  ft_end :: timespec

fun burst_loop :: "(nat \<Rightarrow> nat \<Rightarrow> file_world) \<Rightarrow> nat list \<Rightarrow> run \<Rightarrow> run" where
  "burst_loop w [] k = k"
| "burst_loop w (b # bs) k = generate_files (w b) FILE_SIZE False old_start (burst_loop w bs k)"

fun file_loop :: "file_turn list \<Rightarrow> nat \<Rightarrow> s64 list \<Rightarrow> (s64 list \<Rightarrow> run) \<Rightarrow> run" where
  "file_loop [] i latencies k = k latencies"
| "file_loop (w # ws) i latencies k =
     timed (ft_start w) (ft_end w)
       (\<lambda>r. emit [Out (''Iteration '' @ dec_int (int i + 1) @ ''...'' @ [newline]), Out ''Created old files...'']
          (burst_loop (ft_files w) [0..<BURSTS] r))
       (\<lambda>latency_ns. emit [Out (''Total latency: '' @ fixed 2 (latency_ms latency_ns) @ '' ms'' @ [newline])]
          (file_loop ws (Suc i) (latencies @ [word_of_int latency_ns]) k))"

text \<open>The average is divided by \<^verbatim>\<open>1e6\<close> as a \<^verbatim>\<open>double\<close> and converted back.\<close>

definition file_main :: "(nat \<Rightarrow> file_turn) \<Rightarrow> run" where
  "file_main w =
     emit [Out ''Starting file generation...'']
       (file_loop (map w [0..<FILE_ITERATIONS]) 0 [] (\<lambda>latencies.
          emit [Out ''File generation complete.'']
            (case Option.bind (calculate_average latencies FILE_ITERATIONS) (\<lambda>avg. llong_of_double (latency_ms avg)) of
               None \<Rightarrow> ([], Undefined)
             | Some average \<Rightarrow> ([Out (''Average: '' @ dec_int average @ '' ms'' @ [newline])], Exit 0))))"

section \<open>What a burst of files leaves behind\<close>

lemma file_name_inj: "i < 2 ^ 31 \<Longrightarrow> j < 2 ^ 31 \<Longrightarrow> file_name i = file_name j \<longleftrightarrow> i = j"
proof -
  have "file_name n = ''file_'' @ dec_int (int n) @ ''.dat''" if "n < 2 ^ 31" for n
    using length_dec_int_nonneg [of "int n"] that by (simp add: file_name_def)
  then show "file_name i = file_name j \<longleftrightarrow> i = j" if "i < 2 ^ 31" "j < 2 ^ 31"
    using that by (simp add: dec_int_inj)
qed

definition created :: "nat \<Rightarrow> file_world \<Rightarrow> res list" where
  "created i w = (if \<not> fw_open w then [] else if fw_ftruncate w \<and> fw_mmap w
     then [Map_region i, Fd (file_name i), Disk (file_name i)] else [Disk (file_name i)])"

definition destroyed :: "nat \<Rightarrow> file_world \<Rightarrow> res list" where
  "destroyed i w = (if file_mapped w
     then (if fw_munmap w then [Map_region i] else []) @ [Fd (file_name i)]
        @ (if fw_unlink w then [Disk (file_name i)] else []) else [])"

lemma set_created: "set (created i w) \<subseteq> {Map_region i, Fd (file_name i), Disk (file_name i)}"
    "set (destroyed i w) \<subseteq> set (created i w)" "distinct (created i w)" "distinct (destroyed i w)"
  by (auto simp: created_def destroyed_def file_mapped_def)

lemma owned_random_data: "region \<in> set H \<Longrightarrow> owned H (generate_random_data rand region sz) = Some H"
  by (simp add: generate_random_data_def)

lemma owned_create:
  assumes "set (created i w) \<inter> set H = {}" "Fd (file_name i) \<notin> set H"
  shows "owned H (fst (create_file (file_name i) (Map_region i) sz w) @ xs) = owned (created i w @ H) xs"
  using assms by (auto simp: create_file_def created_def owned_append owned_random_data)

text \<open>The conditions under which the visits are in order: the sizes fit, and the old files are mapped.\<close>

definition visit_ok :: "(nat \<Rightarrow> file_world) \<Rightarrow> nat \<Rightarrow> bool list \<Rightarrow> bool" where
  "visit_ok w sz buffers \<longleftrightarrow> sz \<le> OLD_FILE_SIZE \<and> (\<forall>i < FILES_PER_ITERATION. file_mapped (w i) \<longrightarrow> sz \<le> fw_stack (w i)) \<and>
     (\<forall>j < OLD_FILES. buffers ! j)"

lemma owned_peeks: "r \<in> set H \<Longrightarrow> owned H (map (\<lambda>i. Peek r (f i)) is @ xs) = owned H xs"
  by (induction "is") simp_all

lemma owned_visit:
  assumes "\<forall>i \<in> set is. buffers ! i \<and> old_region i \<in> set H" "sz \<le> stack" "sz \<le> OLD_FILE_SIZE"
  shows "owned H (fst (visit_old stack buffers sz is k)) = owned H (fst k)"
  using assms by (induction "is") (simp_all add: read_random_data_def owned_peeks)

lemma mapped_created: "snd (create_file name region sz w) \<longleftrightarrow> file_mapped w"
  by (simp add: create_file_def file_mapped_def)

text \<open>The creation loop, with or without visits to the old files.\<close>

lemma owned_create_loop:
  assumes "distinct is" "\<forall>i \<in> set is. i < 2 ^ 31" "\<forall>i \<in> set is. {Map_region i, Fd (file_name i), Disk (file_name i)} \<inter> set H = {}"
    and "old_visit \<Longrightarrow> sz \<le> OLD_FILE_SIZE \<and> (\<forall>i \<in> set is. file_mapped (w i) \<longrightarrow> sz \<le> fw_stack (w i)) \<and>
      (\<forall>j < OLD_FILES. buffers ! j \<and> old_region j \<in> set H)"
  shows "owned H (fst (create_loop w sz old_visit buffers is k)) = owned (concat (map (\<lambda>i. created i (w i)) (rev is)) @ H) (fst k)"
  using assms
proof (induction "is" arbitrary: H)
  case (Cons i "is")
  let ?rest = "create_loop w sz old_visit buffers is k"
  obtain acts mapped where cf: "create_file (file_name i) (Map_region i) sz (w i) = (acts, mapped)" by fastforce
  have "set (created i (w i)) \<inter> set H = {}" using Cons.prems(3) set_created(1) by fastforce
  then have cr: "owned H (acts @ xs) = owned (created i (w i) @ H) xs" for xs
    using owned_create [of i "w i" H sz xs] cf Cons.prems(3) by simp
  have "owned H (fst (create_loop w sz old_visit buffers (i # is) k)) = owned (created i (w i) @ H) (fst ?rest)"
    using cf cr Cons.prems(4) mapped_created [of "file_name i" "Map_region i" sz "w i"] by (auto simp: owned_visit)
  also have "\<dots> = owned (concat (map (\<lambda>i. created i (w i)) (rev is)) @ created i (w i) @ H) (fst k)"
  proof (rule Cons.IH)
    have "{Map_region j, Fd (file_name j), Disk (file_name j)} \<inter> {Map_region i, Fd (file_name i), Disk (file_name i)} = {}"
      if "j \<in> set is" for j
      using that Cons.prems(1,2) file_name_inj [of i j] by auto
    then show "\<forall>j \<in> set is. {Map_region j, Fd (file_name j), Disk (file_name j)} \<inter> set (created i (w i) @ H) = {}"
      using Cons.prems(3) set_created(1) [of i "w i"] by fastforce
  qed (use Cons.prems in auto)
  finally show ?case by simp
qed simp

text \<open>A sequence of releases, with messages in between.\<close>

lemma owned_releases:
  assumes "\<forall>a \<in> set xs. (\<exists>s. a = Err s) \<or> (\<exists>r. a = Release r)"
    and "distinct [r. Release r \<leftarrow> xs]" "set [r. Release r \<leftarrow> xs] \<subseteq> set H" "distinct H"
  shows "owned H xs = Some (filter (\<lambda>r. r \<notin> set [r. Release r \<leftarrow> xs]) H)"
  using assms
proof (induction xs arbitrary: H)
  case (Cons a xs)
  show ?case
  proof (cases "\<exists>s. a = Err s")
    case False
    then obtain r where a: "a = Release r" using Cons.prems(1) by auto
    have "owned (remove1 r H) xs = Some (filter (\<lambda>q. q \<notin> set [r. Release r \<leftarrow> xs]) (remove1 r H))"
      using Cons.prems a by (intro Cons.IH) auto
    then show ?thesis
      using Cons.prems a by (auto simp: distinct_remove1_removeAll removeAll_filter_not_eq intro!: filter_cong)
  qed (use Cons in auto)
qed simp

abbreviation destroy_burst :: "(nat \<Rightarrow> file_world) \<Rightarrow> nat \<Rightarrow> act list" where
  "destroy_burst w i \<equiv> destroy_file (file_name i) (Map_region i) (w i) (file_mapped (w i))
     (if file_mapped (w i) then Fd_open else Fd_none)"

lemma destroy_releases:
  "[r. Release r \<leftarrow> concat (map (destroy_burst w) is)] = concat (map (\<lambda>i. destroyed i (w i)) is)"
  by (induction "is") (simp_all add: destroy_file_def destroyed_def Let_def)

lemma destroy_only_releases:
  "a \<in> set (destroy_file name region w buffer fd) \<Longrightarrow> (\<exists>s. a = Err s) \<or> (\<exists>r. a = Release r)"
  by (auto simp: destroy_file_def Let_def split: if_splits fd_var.splits)

lemma distinct_concat_files:
  assumes "distinct is" "\<forall>i \<in> set is. i < 2 ^ 31"
    and "\<And>i. set (f i) \<subseteq> {Map_region i, Fd (file_name i), Disk (file_name i)}" "\<And>i. distinct (f i)"
  shows "distinct (concat (map f is))"
  using assms(1,2)
proof (induction "is")
  case (Cons i "is")
  have "set (f i) \<inter> set (f j) = {}" if "j \<in> set is" for j
    using that Cons.prems file_name_inj [of i j] assms(3) [of i] assms(3) [of j] by fastforce
  with Cons assms(4) show ?case by auto
qed simp

lemma created_destroyed:
  assumes "r \<in> set (created i w)" "r \<in> set (destroyed j v)" "i < 20" "j < 20"
  shows "i = j"
  using assms file_name_inj [of i j] by (auto simp: created_def destroyed_def split: if_splits)

definition burst_leftover :: "(nat \<Rightarrow> file_world) \<Rightarrow> res list" where
  "burst_leftover w = filter (\<lambda>r. r \<notin> set (concat (map (\<lambda>i. destroyed i (w i)) [0..<FILES_PER_ITERATION])))
     (concat (map (\<lambda>i. created i (w i)) (rev [0..<FILES_PER_ITERATION])))"

definition burst_resources :: "res set" where
  "burst_resources = (\<Union>i < FILES_PER_ITERATION. {Map_region i, Fd (file_name i), Disk (file_name i)})"

lemma owned_burst:
  assumes "distinct H" "set H \<inter> burst_resources = {}"
    and "old_visit \<Longrightarrow> visit_ok w sz (buffers_old st) \<and> (\<forall>j < OLD_FILES. old_region j \<in> set H)"
  shows "owned H (fst (generate_files w sz old_visit st k)) = owned (burst_leftover w @ H) (fst k)"
proof -
  let ?is = "[0..<FILES_PER_ITERATION]"
  let ?C = "concat (map (\<lambda>i. created i (w i)) (rev ?is))" and ?R = "concat (map (\<lambda>i. destroyed i (w i)) ?is)"
  let ?xs = "concat (map (destroy_burst w) ?is)"
  have dC: "distinct ?C" by (rule distinct_concat_files) (auto dest: set_created(1) [THEN subsetD] simp: set_created(3))
  have dR: "distinct ?R"
    by (rule distinct_concat_files)
      (auto dest: set_created(2) [THEN subsetD] set_created(1) [THEN subsetD] simp: set_created(4))
  have RC: "set ?R \<subseteq> set ?C" by (auto dest: set_created(2) [THEN subsetD])
  have CB: "set ?C \<subseteq> burst_resources" unfolding burst_resources_def using set_created(1) by fastforce
  have only: "\<forall>a \<in> set ?xs. (\<exists>s. a = Err s) \<or> (\<exists>r. a = Release r)" using destroy_only_releases by fastforce
  have HR: "filter (\<lambda>r. r \<notin> set ?R) H = H" using RC CB assms(2) by (intro filter_True) blast
  have "owned (?C @ H) ?xs = Some (filter (\<lambda>r. r \<notin> set [r. Release r \<leftarrow> ?xs]) (?C @ H))"
  proof (rule owned_releases [OF only])
    show "distinct [r. Release r \<leftarrow> ?xs]" unfolding destroy_releases by (rule dR)
    show "set [r. Release r \<leftarrow> ?xs] \<subseteq> set (?C @ H)" unfolding destroy_releases using RC by auto
    show "distinct (?C @ H)" using dC assms(1,2) CB by auto
  qed
  also have "\<dots> = Some (burst_leftover w @ H)" unfolding destroy_releases filter_append HR burst_leftover_def ..
  finally have "owned (?C @ H) (?xs @ fst k) = owned (burst_leftover w @ H) (fst k)" by (simp add: owned_append)
  moreover have "owned H (fst (generate_files w sz old_visit st k)) = owned (?C @ H) (?xs @ fst k)"
  proof -
    have "\<forall>i \<in> set ?is. {Map_region i, Fd (file_name i), Disk (file_name i)} \<inter> set H = {}"
      using assms(2) unfolding burst_resources_def by fastforce
    then have "owned H (fst (create_loop w sz old_visit (buffers_old st) ?is r)) = owned (?C @ H) (fst r)" for r
      using assms(3) by (intro owned_create_loop) (simp_all add: visit_ok_def)
    then show ?thesis unfolding generate_files_def by (simp only: emit_sel)
  qed
  ultimately show ?thesis by simp
qed

lemma distinct_leftover: "distinct (burst_leftover w)"
  unfolding burst_leftover_def
  by (rule distinct_filter, rule distinct_concat_files) (auto dest: set_created(1) [THEN subsetD] simp: set_created(3))

lemma set_leftover:
  "set (burst_leftover w) =
     {Disk (file_name i) | i. i < 20 \<and> fw_open (w i) \<and> \<not> (fw_ftruncate (w i) \<and> fw_mmap (w i) \<and> fw_unlink (w i))}
     \<union> {Map_region i | i. i < 20 \<and> fw_open (w i) \<and> fw_ftruncate (w i) \<and> fw_mmap (w i) \<and> \<not> fw_munmap (w i)}"
proof -
  have "set (burst_leftover w) = (\<Union>i < 20. set (created i (w i)) - set (destroyed i (w i)))"
    unfolding burst_leftover_def using created_destroyed by (auto simp: lessThan_atLeast0) blast+
  also have "\<dots> = {Disk (file_name i) | i. i < 20 \<and> fw_open (w i) \<and> \<not> (fw_ftruncate (w i) \<and> fw_mmap (w i) \<and> fw_unlink (w i))}
      \<union> {Map_region i | i. i < 20 \<and> fw_open (w i) \<and> fw_ftruncate (w i) \<and> fw_mmap (w i) \<and> \<not> fw_munmap (w i)}"
    by (auto simp: created_def destroyed_def file_mapped_def split: if_splits)
  finally show ?thesis .
qed

text \<open>
  Without visits to the old files a burst always reaches its end, whatever fails; with visits it does
  under the conditions above.
\<close>

lemma completes_read:
  assumes "sz \<le> stack" "sz \<le> mapped"
  shows "completes (read_random_data stack mapped buffer sz)"
  using assms by (simp add: read_random_data_def [abs_def] completes_id)

lemma completes_visit:
  assumes "\<forall>i \<in> set is. buffers ! i" "sz \<le> stack" "sz \<le> OLD_FILE_SIZE"
  shows "completes (visit_old stack buffers sz is)"
  using assms(1)
proof (induction "is")
  case Nil
  show ?case by (rule completes_same) simp
next
  case (Cons i "is")
  have "completes (\<lambda>k. read_random_data stack OLD_FILE_SIZE (old_region i) sz (visit_old stack buffers sz is k))"
    using completes_compose [OF completes_read [OF assms(2,3)]] Cons by simp
  with Cons.prems show ?case by (simp add: completes_def)
qed

lemma completes_create_loop:
  assumes "old_visit \<Longrightarrow> visit_ok w sz buffers" "\<forall>i \<in> set is. i < FILES_PER_ITERATION"
  shows "completes (create_loop w sz old_visit buffers is)"
  using assms(2)
proof (induction "is")
  case Nil
  show ?case by (rule completes_same) simp
next
  case (Cons i "is")
  obtain acts mapped where cf: "create_file (file_name i) (Map_region i) sz (w i) = (acts, mapped)" by fastforce
  have IH: "completes (create_loop w sz old_visit buffers is)" using Cons by simp
  have "completes (\<lambda>k. if mapped \<and> old_visit
      then visit_old (fw_stack (w i)) buffers sz [0..<OLD_FILES] (create_loop w sz old_visit buffers is k)
      else create_loop w sz old_visit buffers is k)"
  proof (cases "mapped \<and> old_visit")
    case True
    then have "visit_ok w sz buffers" "file_mapped (w i)" "i < FILES_PER_ITERATION"
      using assms(1) cf mapped_created [of "file_name i" "Map_region i" sz "w i"] Cons.prems by simp_all
    then have "completes (visit_old (fw_stack (w i)) buffers sz [0..<OLD_FILES])"
      by (intro completes_visit) (simp_all add: visit_ok_def)
    from completes_compose [OF this IH] True show ?thesis by simp
  qed (use IH in auto)
  from completes_emit [OF this] show ?case by (simp add: cf completes_def)
qed

lemma completes_generate_files:
  assumes "old_visit \<Longrightarrow> visit_ok w sz (buffers_old st)"
  shows "completes (generate_files w sz old_visit st)"
proof -
  have "completes (\<lambda>k. create_loop w sz old_visit (buffers_old st) [0..<FILES_PER_ITERATION] (emit xs k))" for xs
    using assms by (intro completes_compose [OF completes_create_loop completes_id(2)]) simp_all
  then show ?thesis unfolding generate_files_def completes_def .
qed

text \<open>
  C23. One burst of \<^verbatim>\<open>benchmark_file\<close>, whichever calls fail for whichever of the twenty files, without visits to the old
  files, or with visits if both are mapped and the file size exceeds neither the size of an old file
  nor, for each file that gets mapped, the room on the stack: all descriptors are closed again,
  and what remains afterwards are the mappings that could not be removed and the files that were
  created but could not be sized, mapped or deleted. (A file whose sizing or mapping fails is closed
  and never deleted.)\<close>

theorem files_left_by_burst:
  assumes "old_visit \<Longrightarrow> visit_ok w sz (buffers_old st)"
    and "H = (if old_visit then [old_region 0, old_region 1] else [])"
  shows "\<exists>L xs. generate_files w sz old_visit st ([], Exit 0) = (xs, Exit 0) \<and> owned H xs = Some (L @ H) \<and> distinct L \<and>
    set L = {Disk (file_name i) | i. i < 20 \<and> fw_open (w i) \<and> \<not> (fw_ftruncate (w i) \<and> fw_mmap (w i) \<and> fw_unlink (w i))}
      \<union> {Map_region i | i. i < 20 \<and> fw_open (w i) \<and> fw_ftruncate (w i) \<and> fw_mmap (w i) \<and> \<not> fw_munmap (w i)}"
proof -
  have two: "(\<forall>j < 2. P j) \<longleftrightarrow> P 0 \<and> P (1 :: nat)" for P by (auto simp: less_2_cases_iff)
  obtain xs where xs: "generate_files w sz old_visit st ([], Exit 0) = (xs, Exit 0)"
    using completes_generate_files [of old_visit w sz st] assms(1) by (auto simp: completes_def emit_def)
  have "owned H (fst (generate_files w sz old_visit st ([], Exit 0))) = owned (burst_leftover w @ H) (fst ([], Exit 0))"
    using assms by (intro owned_burst) (auto simp: burst_resources_def old_region_def two)
  then have "owned H xs = Some (burst_leftover w @ H)" by (simp add: xs)
  then show ?thesis using xs distinct_leftover [of w] set_leftover [of w] by blast
qed

definition all_fine :: file_world where
  "all_fine = \<lparr>fw_open = True, fw_ftruncate = True, fw_mmap = True, fw_rand = (\<lambda>_. 0), fw_stack = 8388608,
     fw_munmap = True, fw_unlink = True\<rparr>"

theorem files_left_by_burst_witness:
  "\<exists>L xs. generate_files (\<lambda>i. if i = 3 then all_fine\<lparr>fw_mmap := False\<rparr> else all_fine) FILE_SIZE True
        \<lparr>fds_old = [Fd_open, Fd_open], buffers_old = [True, True]\<rparr> ([], Exit 0) = (xs, Exit 0) \<and>
      owned [old_region 0, old_region 1] xs = Some (L @ [old_region 0, old_region 1]) \<and> distinct L \<and> set L = {Disk (file_name 3)}"
proof -
  let ?w = "\<lambda>i. if i = 3 then all_fine\<lparr>fw_mmap := False\<rparr> else all_fine :: file_world"
  have "{Disk (file_name i) | i. i < 20 \<and> fw_open (?w i) \<and> \<not> (fw_ftruncate (?w i) \<and> fw_mmap (?w i) \<and> fw_unlink (?w i))}
      \<union> {Map_region i | i. i < 20 \<and> fw_open (?w i) \<and> fw_ftruncate (?w i) \<and> fw_mmap (?w i) \<and> \<not> fw_munmap (?w i)} = {Disk (file_name 3)}"
    by (auto simp: all_fine_def)
  moreover have "visit_ok ?w FILE_SIZE [True, True]" by (auto simp: visit_ok_def all_fine_def less_2_cases_iff)
  ultimately show ?thesis
    using files_left_by_burst [of True ?w FILE_SIZE "\<lparr>fds_old = [Fd_open, Fd_open], buffers_old = [True, True]\<rparr>" "[old_region 0, old_region 1]"]
    by simp
qed

section \<open>What main prints\<close>

lemma completes_burst_loop: "completes (burst_loop w bs)"
proof (induction bs)
  case (Cons b bs)
  have "completes (\<lambda>k. generate_files (w b) FILE_SIZE False old_start (burst_loop w bs k))"
    by (rule completes_compose [OF completes_generate_files Cons]) simp
  then show ?case by (simp add: completes_def)
qed (rule completes_same, simp)

definition file_latency :: "file_turn \<Rightarrow> int" where
  "file_latency w = clock (ft_end w) - clock (ft_start w)"

definition file_sane :: "file_turn \<Rightarrow> bool" where
  "file_sane w \<longleftrightarrow> sane_time (ft_start w) \<and> sane_time (ft_end w) \<and> 0 \<le> file_latency w \<and> file_latency w < 2 ^ 52"

lemma file_loop_completes:
  assumes "\<forall>w \<in> set ws. file_sane w"
  shows "\<exists>xs. file_loop ws i latencies k = emit xs (k (latencies @ map (\<lambda>w. word_of_int (file_latency w)) ws))"
  using assms
proof (induction ws arbitrary: i latencies)
  case (Cons w ws)
  obtain xs where "\<And>r. burst_loop (ft_files w) [0..<BURSTS] r = emit xs r"
    using completes_burst_loop by (fastforce simp: completes_def)
  moreover obtain ys where "file_loop ws (Suc i) (latencies @ [word_of_int (file_latency w)]) k
      = emit ys (k ((latencies @ [word_of_int (file_latency w)]) @ map (\<lambda>w. word_of_int (file_latency w)) ws))"
    using Cons by fastforce
  ultimately show ?case using Cons.prems by (auto simp: timed_sane file_sane_def file_latency_def emit_emit)
qed (auto intro: exI [of _ "[]"] simp: emit_def)

lemma file_average:
  assumes "\<forall>l \<in> set ls. 0 \<le> l \<and> l < 2 ^ 52" "length ls = 20"
  shows "calculate_average (map word_of_int ls) 20 = Some (sum_list ls div 20)" "0 \<le> sum_list ls div 20" "sum_list ls div 20 < 2 ^ 52"
proof -
  have s: "sint (word_of_int l :: s64) = l" if "l \<in> set ls" for l
    using assms(1) that by (intro sint_of_int) auto
  then have m: "map (\<lambda>l. sint (word_of_int l :: s64)) ls = ls" by (simp add: map_idI)
  have sum: "0 \<le> sum_list ls" "sum_list ls \<le> 20 * (2 ^ 52 - 1)"
    using sum_list_nonneg [of ls] sum_list_mono [of ls "\<lambda>l. l" "\<lambda>_. 2 ^ 52 - 1"] assms by (fastforce simp: sum_list_triv)+
  have "\<forall>x \<in> set (map word_of_int ls :: s64 list). 0 \<le> sint x \<and> sint x \<le> 2 ^ 52 - 1" using assms(1) s by fastforce
  then have "sum_llong (map word_of_int ls) 0 = Some (0 + (\<Sum>x \<leftarrow> map word_of_int ls. sint (x :: s64)))"
    using assms(2) by (intro sum_llong_exact [where M = "2 ^ 52 - 1"]) simp_all
  then show "calculate_average (map word_of_int ls) 20 = Some (sum_list ls div 20)"
    using sum(1) assms(2) by (simp add: calculate_average_def comp_def m cdiv_nonneg)
  show "0 \<le> sum_list ls div 20" "sum_list ls div 20 < 2 ^ 52" using sum by simp_all
qed

text \<open>
  C22. The file benchmark always finishes: whatever file calls fail in whichever of the 60 bursts of the 20
  iterations, it exits with status 0, and the last line it prints is the mean latency of the
  iterations in whole milliseconds, provided that the clock is sane and no iteration takes 52 days.\<close>

theorem file_benchmark_finishes:
  assumes "\<forall>i. file_sane (w i)"
  shows "\<exists>xs. file_main w =
    (xs @ [Out (''Average: '' @ dec_int ((\<Sum>i \<leftarrow> [0..<20]. file_latency (w i)) div 20 div 1000000) @ '' ms'' @ [newline])], Exit 0)"
proof -
  define ls where "ls = map (\<lambda>i. file_latency (w i)) [0..<20]"
  define k where "k = (\<lambda>latencies. emit [Out ''File generation complete.'']
     (case Option.bind (calculate_average latencies FILE_ITERATIONS) (\<lambda>avg. llong_of_double (latency_ms avg)) of
        None \<Rightarrow> ([], Undefined)
      | Some average \<Rightarrow> ([Out (''Average: '' @ dec_int average @ '' ms'' @ [newline])], Exit 0)))"
  have "\<forall>l \<in> set ls. 0 \<le> l \<and> l < 2 ^ 52" "length ls = 20" using assms by (auto simp: ls_def file_sane_def)
  note avg = file_average [OF this]
  define a where "a = sum_list ls div 20"
  have "0 \<le> a div 1000000" "a div 1000000 \<le> a" "a < 2 ^ 52" using avg(2,3) unfolding a_def [symmetric] by simp_all
  then have "llong_of_double (latency_ms a) = Some (a div 1000000)"
    using trunc_latency_ms [of a] by (simp add: llong_of_double_def as_llong_def)
  then have ka: "k (map word_of_int ls) = ([Out ''File generation complete.'',
      Out (''Average: '' @ dec_int (a div 1000000) @ '' ms'' @ [newline])], Exit 0)"
    using avg(1) by (simp add: k_def emit_def a_def)
  obtain xs where "file_loop (map w [0..<20]) 0 [] k = emit xs (k (map word_of_int ls))"
    using file_loop_completes [of "map w [0..<20]" 0 "[]" k] assms by (auto simp: ls_def comp_def)
  then have "file_main w = ((Out ''Starting file generation...'' # xs @ [Out ''File generation complete.''])
      @ [Out (''Average: '' @ dec_int (a div 1000000) @ '' ms'' @ [newline])], Exit 0)"
    unfolding file_main_def k_def [symmetric] by (simp add: ka emit_def)
  then show ?thesis unfolding a_def ls_def by blast
qed

definition failing_turn :: file_turn where
  "failing_turn = \<lparr>ft_start = (3, 0), ft_files = (\<lambda>b i. if i < b then all_fine else all_fine\<lparr>fw_mmap := False\<rparr>), ft_end = (5, 999999)\<rparr>"

theorem file_benchmark_finishes_witness:
  "\<exists>xs. file_main (\<lambda>_. failing_turn) = (xs @ [Out (''Average: '' @ dec_int 2000 @ '' ms'' @ [newline])], Exit 0)"
  using file_benchmark_finishes [of "\<lambda>_. failing_turn"]
  by (simp add: file_sane_def file_latency_def failing_turn_def sane_time_def clock_def sum_list_triv)

section \<open>The old files\<close>

text \<open>Both old files in place: what the globals hold, and which resources.\<close>

definition old_ready :: old_files where
  "old_ready = \<lparr>fds_old = replicate OLD_FILES Fd_open, buffers_old = replicate OLD_FILES True\<rparr>"

abbreviation old_held :: "res list" where
  "old_held \<equiv> [old_region 1, Fd (old_file_name 1), Disk (old_file_name 1), old_region 0, Fd (old_file_name 0), Disk (old_file_name 0)]"

lemma upt_2: "[0..<2] = [0, 1 :: nat]"
  by (simp add: upt_rec)

lemma old_names: "old_file_name 0 = ''file_old_0.dat''" "old_file_name 1 = ''file_old_1.dat''" "old_file_name (Suc 0) = ''file_old_1.dat''"
  by (simp_all add: old_file_name_def dec_int_def to_base.simps [of 10] digit_char_def digits16_def)

lemma file_name_not_old: "n < 2 ^ 31 \<Longrightarrow> i < 2 \<Longrightarrow> file_name n \<noteq> old_file_name i"
proof -
  assume n: "n < 2 ^ 31" and i: "i < 2"
  obtain c cs where c: "to_base 10 n = c # cs" "isdigit c" using to_base10_Cons by blast
  have "file_name n = ''file_'' @ dec_int (int n) @ ''.dat''"
    using length_dec_int_nonneg [of "int n"] n by (simp add: file_name_def)
  then have "drop 5 (file_name n) = c # cs @ ''.dat''" by (simp add: dec_int_def c(1))
  moreover have "\<exists>ds. drop 5 (old_file_name i) = CHR ''o'' # ds"
    using i old_names by (auto simp: less_2_cases_iff)
  ultimately show ?thesis using c(2) by (auto simp: isdigit_def)
qed

definition file_fine :: "file_world \<Rightarrow> bool" where
  "file_fine w \<longleftrightarrow> file_mapped w \<and> fw_munmap w \<and> fw_unlink w"

lemma generate_old_fine:
  assumes "\<forall>i. file_fine (w i)"
  shows "\<exists>acts. generate_old_files w old_start = (acts, old_ready) \<and> owned [] acts = Some old_held"
proof -
  have m: "fw_open (w i)" "fw_ftruncate (w i)" "fw_mmap (w i)" for i using assms by (auto simp: file_mapped_def file_fine_def)
  show ?thesis
    by (simp add: generate_old_files_def upt_2 generate_old_file_def create_file_def m old_start_def old_ready_def
        owned_append owned_random_data old_names old_region_def numeral_2_eq_2)
qed

lemma destroy_old_fine:
  assumes "\<forall>i. file_fine (w i)"
  shows "owned old_held (destroy_old_files w old_ready) = Some []"
  using assms
  by (simp add: file_fine_def destroy_old_files_def upt_2 destroy_file_def old_ready_def old_names old_region_def numeral_2_eq_2)

lemma leftover_fine:
  assumes "\<forall>i. file_fine (w i)"
  shows "burst_leftover w = []"
  using set_leftover [of w] assms by (auto simp: file_fine_def file_mapped_def)

text \<open>
  A full round with old files, when no call fails and the sizes fit: they are created, a burst reads both of them after each
  of its own twenty files, and \<^verbatim>\<open>destroy_old_files\<close> ends with every mapping, descriptor and file gone; no
  region is touched that is not mapped at that moment.\<close>

theorem old_files_round:
  assumes "\<forall>i. file_fine (w i)" and "\<forall>i. file_fine (v i) \<and> sz \<le> fw_stack (v i)" and "sz \<le> OLD_FILE_SIZE"
  shows "clean [] (case generate_old_files w old_start of
    (acts, st) \<Rightarrow> emit acts (generate_files v sz True st (destroy_old_files w st, Exit 0)))"
proof -
  obtain acts where acts: "generate_old_files w old_start = (acts, old_ready)" "owned [] acts = Some old_held"
    using generate_old_fine [OF assms(1)] by blast
  have "file_name i \<noteq> ''file_old_0.dat''" "file_name i \<noteq> ''file_old_1.dat''" if "i < 20" for i
    using that file_name_not_old [of i 0] file_name_not_old [of i 1] by (simp_all add: old_names)
  moreover have ok: "visit_ok v sz (buffers_old old_ready)"
    using assms(2,3) by (auto simp: visit_ok_def old_ready_def less_2_cases_iff)
  ultimately have "owned old_held (fst (generate_files v sz True old_ready (destroy_old_files w old_ready, Exit 0)))
      = owned (burst_leftover v @ old_held) (destroy_old_files w old_ready)"
    by (subst owned_burst) (auto simp: old_ready_def less_2_cases_iff burst_resources_def old_region_def old_names dest: sym)
  moreover obtain xs where "generate_files v sz True old_ready (destroy_old_files w old_ready, Exit 0)
      = emit xs (destroy_old_files w old_ready, Exit 0)"
    using completes_generate_files [of True v sz old_ready] ok by (auto simp: completes_def)
  ultimately show ?thesis using acts leftover_fine [of v] assms(2) destroy_old_fine [OF assms(1)] by (simp add: clean_def owned_append)
qed

theorem old_files_round_witness:
  "clean [] (case generate_old_files (\<lambda>_. all_fine) old_start of
    (acts, st) \<Rightarrow> emit acts (generate_files (\<lambda>_. all_fine) FILE_SIZE True st (destroy_old_files (\<lambda>_. all_fine) st, Exit 0)))"
  by (rule old_files_round) (simp_all add: file_fine_def file_mapped_def all_fine_def)

text \<open>With visits, the first mapped file for which something does not fit decides.\<close>

lemma read_undefined: "stack < sz \<or> mapped < sz \<Longrightarrow> snd (read_random_data stack mapped buffer sz k) = Undefined"
  by (auto simp: read_random_data_def)

lemma snd_read: "snd (read_random_data stack mapped buffer sz k) \<in> {Undefined, snd k}"
  by (simp add: read_random_data_def)

lemma visit_old_undefined:
  "is \<noteq> [] \<Longrightarrow> stack < sz \<or> OLD_FILE_SIZE < sz \<or> (\<exists>i \<in> set is. \<not> buffers ! i) \<Longrightarrow> snd (visit_old stack buffers sz is k) = Undefined"
proof (induction "is")
  case (Cons i "is")
  show ?case
  proof (cases "stack < sz \<or> OLD_FILE_SIZE < sz \<or> \<not> buffers ! i")
    case False
    then have "snd (visit_old stack buffers sz is k) = Undefined" using Cons by (cases "is") auto
    then show ?thesis using snd_read [of stack OLD_FILE_SIZE "old_region i" sz "visit_old stack buffers sz is k"] by simp
  qed (auto simp: read_undefined)
qed simp

lemma visit_old_snd: "snd (visit_old stack buffers sz is k) \<in> {Undefined, snd k}"
proof (induction "is")
  case (Cons i "is")
  then show ?case using snd_read [of stack OLD_FILE_SIZE "old_region i" sz "visit_old stack buffers sz is k"] by auto
qed simp

lemma create_loop_snd:
  "snd (create_loop w sz True buffers is k) = Undefined \<longleftrightarrow> snd k = Undefined \<or>
     (\<exists>i \<in> set is. file_mapped (w i) \<and> (fw_stack (w i) < sz \<or> OLD_FILE_SIZE < sz \<or> (\<exists>j < OLD_FILES. \<not> buffers ! j)))"
proof (induction "is")
  case (Cons i "is")
  obtain acts where cf: "create_file (file_name i) (Map_region i) sz (w i) = (acts, file_mapped (w i))"
    using mapped_created [of "file_name i" "Map_region i" sz "w i"]
    by (cases "create_file (file_name i) (Map_region i) sz (w i)") simp
  let ?bad = "fw_stack (w i) < sz \<or> OLD_FILE_SIZE < sz \<or> (\<exists>j < OLD_FILES. \<not> buffers ! j)"
  show ?case
  proof (cases "file_mapped (w i)")
    case True
    show ?thesis
    proof (cases ?bad)
      case bad: True
      then have "stack < sz \<or> OLD_FILE_SIZE < sz \<or> (\<exists>i \<in> set [0..<OLD_FILES]. \<not> buffers ! i)" if "stack = fw_stack (w i)" for stack
        using that by auto
      then have "snd (visit_old (fw_stack (w i)) buffers sz [0..<OLD_FILES] r) = Undefined" for r
        by (intro visit_old_undefined) simp_all
      then show ?thesis using True bad by (simp add: cf)
    next
      case False
      then have "completes (visit_old (fw_stack (w i)) buffers sz [0..<OLD_FILES])" by (intro completes_visit) auto
      then obtain xs where "\<And>r. visit_old (fw_stack (w i)) buffers sz [0..<OLD_FILES] r = emit xs r" by (auto simp: completes_def)
      then show ?thesis using True False Cons.IH by (auto simp: cf)
    qed
  qed (use Cons.IH in \<open>simp add: cf\<close>)
qed simp


text \<open>
  \<^verbatim>\<open>destroy_old_files\<close> leaves the globals as they were: when the next round cannot open an old file, the
  pointer of the previous round is still there, and the region is unmapped a second time.
\<close>

lemma stale_old_pointer:
  assumes "\<forall>i. file_fine (w i)" "\<forall>i. \<not> fw_open (v i)"
  shows "owned [] (destroy_old_files w (snd (generate_old_files v old_ready))) = (None :: res list option)"
  using assms
  by (simp add: file_fine_def destroy_old_files_def generate_old_files_def generate_old_file_def create_file_def upt_2
      destroy_file_def old_ready_def numeral_2_eq_2)

section \<open>The whole program\<close>

interpretation file_app: program file_main "\<lambda>w. \<forall>i b j. file_fine (ft_files (w i) b j)"
proof
  fix w :: "nat \<Rightarrow> file_turn"
  assume fine: "\<forall>i b j. file_fine (ft_files (w i) b j)"
  have g: "clean [] (generate_files v FILE_SIZE False old_start k) \<longleftrightarrow> clean [] k" if "\<forall>j. file_fine (v j)" for v k
  proof -
    obtain xs where xs: "\<And>k. generate_files v FILE_SIZE False old_start k = emit xs k"
      using completes_generate_files [of False v FILE_SIZE old_start] by (auto simp: completes_def)
    have "owned [] (fst (generate_files v FILE_SIZE False old_start ([], Exit 0))) = Some []"
      by (subst owned_burst) (simp_all add: leftover_fine that)
    then have "owned [] xs = Some []" by (simp add: xs)
    then show ?thesis by (simp add: xs)
  qed
  have b: "clean [] (burst_loop v bs k)" if "\<forall>b j. file_fine (v b j)" "clean [] k" for v bs k
    using that by (induction bs) (simp_all add: g)
  have "clean [] (file_loop ws i ls k)" if "\<forall>x \<in> set ws. \<forall>b j. file_fine (ft_files x b j)" "\<And>ls. clean [] (k ls)" for ws i ls k
    using that by (induction ws arbitrary: i ls) (auto intro!: clean_timed b)
  then show "clean [] (file_main w)"
    unfolding file_main_def using fine by (auto split: option.split)
qed

end
