(* ===== verification/Spec2Isabelle.thy ===== *)
theory Spec2Isabelle
  imports Page_Races Page_System Process_Tracker Socket_Filter Tc_Filter Stack_Profiler Task_Iter
    Connect_Tracer Probe_Examples Bench_Access Bench_Files
begin

text \<open>
  Verification of the BPF programs under \<^verbatim>\<open>examples/\<close>: a page-access tracker written for this
  repository (\<^verbatim>\<open>kprobe\<close>), the example programs it grew from, and the benchmarks that drive it.

  \<^bold>\<open>The system.\<close> Each program has a kernel side, BPF code in a \<^verbatim>\<open>.bpf.c\<close> file that runs on kernel events
  and keeps its state in BPF maps or sends records through a ring buffer, and a user side, a \<^verbatim>\<open>.c\<close>
  file that loads the BPF code, configures it, and reads maps or records until a signal arrives.
  The two sides share only maps, ring buffers and a few configuration variables.

  \<^bold>\<open>How it is modelled.\<close> A BPF program is a function from what the kernel gives it (current ids, time,
  packet bytes, memory it may read) and the state of its maps to the new state; a sequence of events
  is a fold of these functions, in any order and interleaving, one event at a time. Map operations,
  the packet loader, the stack walker, the symbolizer, \<^verbatim>\<open>qsort\<close> and user memory are arguments; what
  the programs rely on is a locale with a law per operation, and each locale is interpreted on a
  concrete implementation. A \<^verbatim>\<open>main\<close> function maps the answers of its environment (which call fails with
  which code, what each turn of a loop sees) to its run: the trace of everything it acquires, uses,
  configures, prints and releases, and how it ends. Machine integers are words or bounded
  integers; undefined behaviour (null or indeterminate values, signed overflow, reads outside a
  buffer) is a value of its own. The machine is 64-bit and little-endian.

  \<^bold>\<open>Shared theories.\<close>
  \<^item> \<open>Prelude\<close>: integer types, \<^verbatim>\<open>pid_tgid\<close>, byte order, C division and bounded arithmetic, number
    rendering and its inverse, error numbers, two lemma collections.
  \<^item> \<open>Bpf_Maps\<close>: the interface of kernel maps as locales (\<open>bpf_map\<close>, \<open>bpf_array_map\<close>, \<open>bpf_hash_map\<close>
    with its capacity, \<open>bpf_iter_map\<close> for iteration) and their implementations on lists.
  \<^item> \<open>C_Text\<close>: \<^verbatim>\<open>strtol\<close>, \<^verbatim>\<open>atoi\<close>, \<^verbatim>\<open>sscanf\<close>, \<^verbatim>\<open>fgets\<close>, \<^verbatim>\<open>snprintf\<close> and their round trips.
  \<^item> \<open>Doubles\<close>: \<^verbatim>\<open>double\<close> arithmetic as exact rational arithmetic rounded to 53 bits (locale \<open>rounding\<close>), \<^verbatim>\<open>sqrt\<close>,
    conversions to integers, and \<^verbatim>\<open>%.2f\<close> with its inverse.
  \<^item> \<open>App_Lifecycle\<close>: runs, the ownership automaton, the locale \<open>program\<close> (what a clean \<^verbatim>\<open>main\<close> gives) and its
    extension \<open>endless_program\<close>, waiting loops, option parsing.
  \<^item> \<open>Packets\<close>: byte order in memory, the layout of Ethernet/IPv4 frames, the locale \<open>skb_loader\<close>.

  \<^bold>\<open>Components.\<close>
  \<^item> \<open>Page_Tracker\<close> (\<^verbatim>\<open>kprobe.bpf.c\<close>): \<open>folio_mark_accessed\<close> and \<open>filemap_free_folio\<close> over the three maps.
    The maps refine an abstract table of access statistics; reference counts count hits; ranks order
    the pages by recency; what remains true when the maps are full.
  \<^item> \<open>Page_Races\<close> (\<^verbatim>\<open>kprobe.bpf.c\<close>): the page probe as a sequence of single loads, stores and map calls, and the
    machine that interleaves any number of hits on several CPUs. Hits are wait-free; hits on different pages are
    all counted; hits that do not overlap refine the abstract statistics of \<open>Page_Tracker\<close>; how
    hits on the same page get lost.
  \<^item> \<open>Page_Export\<close> (\<^verbatim>\<open>kprobe.c\<close>): the thread that reads process ids, the dump of the page map,
    \<open>kprobe_main\<close>. A dump writes every page once, except as the all-zero key allows; the file can be
    read in pieces; rows and file names; what a dump says when the map changes under it.
  \<^item> \<open>Page_System\<close>: receiver, probes and dump together, from the PID file to the metrics file.
  \<^item> \<open>Process_Tracker\<close> (\<^verbatim>\<open>bootstrap.*\<close>): the process table is exact, lifetimes are reported exactly, no stale
    bytes are printed, the range of \<^verbatim>\<open>-d\<close>.
  \<^item> \<open>Socket_Filter\<close> (\<^verbatim>\<open>sockfilter.*\<close>) and \<open>Tc_Filter\<close> (\<^verbatim>\<open>tc.*\<close>, \<^verbatim>\<open>xdppass.bpf.c\<close>): from frame bytes to printed
    lines; which packets are selected; memory safety; what stale record bytes do; what a run leaves
    behind (a socket; the classifier's hook, which \<^verbatim>\<open>bpf_tc_hook_destroy\<close> does not remove, or its filter).
  \<^item> \<open>Stack_Profiler\<close> (\<^verbatim>\<open>profile.*\<close>): from a sample to the printed stacks; attaching on the online CPUs.
  \<^item> \<open>Task_Iter\<close> (\<^verbatim>\<open>task_iter.*\<close>): one line per task.
  \<^item> \<open>Connect_Tracer\<close> (\<^verbatim>\<open>tracecon.bpf.c\<close>): the four probes refine an abstract tracer; connections are reported
    under the name that was resolved.
  \<^item> \<open>Probe_Examples\<close> (\<^verbatim>\<open>minimal*\<close>, \<^verbatim>\<open>usdt\<close>, \<^verbatim>\<open>uprobe\<close>, \<^verbatim>\<open>fentry\<close>, \<^verbatim>\<open>ksyscall\<close>, \<^verbatim>\<open>lsm\<close>): process filters through the locale
    \<open>pid_filter\<close>; program and probe together, one trace line per write of the process; failure paths; the
    overflow of the uprobe loop.
  \<^item> \<open>Bench_Stats\<close> (\<^verbatim>\<open>benchmark.c\<close>): sorting under the locale \<open>c_qsort\<close>, average, median, standard deviation and
    percentiles; what each computes and when it overflows.
  \<^item> \<open>Bench_Load\<close> (\<^verbatim>\<open>benchmark.c\<close>): allocation bursts, the measuring loop, the report and \<open>bench_main\<close>; the whole
    program prints the statistics of what it measured.
  \<^item> \<open>Bench_Files\<close> (\<^verbatim>\<open>benchmark_file.c\<close>): bursts of mapped files, the old files, \<open>file_main\<close>; what a burst leaves
    behind whichever calls fail, when visits to the old files are undefined (null pointers, reads past the old
    mapping, the array on the stack), and that the program always finishes.
  \<^item> \<open>Bench_Access\<close> (\<^verbatim>\<open>benchmark_wmhigh.c\<close>, \<^verbatim>\<open>benchmark_cache.c\<close>): random access to mapped files and their
    generation; accesses stay in bounds, generated files have the mapped size, the printed average.
  \<^item> This theory: properties across programs (resources, exit statuses).

  \<^bold>\<open>Bounds and termination.\<close> Loops over the environment are structural recursions over a script of its
  answers; a run whose script ends is \<open>Running\<close>, and statements about ends are made for runs that
  end or scripts that end them. The walk over a map that others may change is a
  \<^verbatim>\<open>partial_function\<close>; that it ends on an unchanging map is proved. Refinement theorems assume that the
  maps' capacities (10240, 8192, \<dots> as in the sources) are not exceeded, and the theorems on full
  maps say what happens otherwise. Counters are 64-bit and wrap.

  The interleaving machine of \<open>Page_Races\<close> has a measure: a hit takes at most twelve turns of its CPU.
  Rounding is that of normal numbers; the magnitudes in the benchmarks are far from the limits of the
  exponent.

  \<^bold>\<open>Not modelled.\<close> Concurrent runs of the other BPF programs (each of their events is one step), a page that is
  freed in the middle of a hit on it, \<^verbatim>\<open>sleep\<close> and the passing of time between turns, the Rust front
  ends, scripts and build files, and the internals of libbpf, blazesym and the kernel.

  \<^bold>\<open>Plan.\<close> Next: the option tables of the programs that use \<^verbatim>\<open>argp\<close>; interleaved probes of \<^verbatim>\<open>bootstrap.bpf.c\<close> and \<^verbatim>\<open>tracecon.bpf.c\<close>.
\<close>

section \<open>All programs release what they acquire\<close>

text \<open>
  C15. Resources, program by program. In a run that ends, each of the twelve programs whose loop can end has
  released every skeleton, ring buffer, thread, stream, filter, descriptor, link, mapping, disk file and heap block it
  acquired, and in no run does it release or use one it does not hold. This is shown under what each of them needs:
  \<^verbatim>\<open>bootstrap\<close>, \<^verbatim>\<open>usdt\<close>, \<^verbatim>\<open>fentry\<close> and \<^verbatim>\<open>ksyscall\<close> nothing; \<^verbatim>\<open>kprobe\<close> that every metrics file can be opened
  (and at most \<open>2 ^ 31\<close> dumps); \<^verbatim>\<open>tc\<close> that it did not create the hook itself, and, once
  attached, that the signal handler can be set and the filter be detached; \<^verbatim>\<open>profile\<close> that its two arrays can be allocated;
  \<^verbatim>\<open>task_iter\<close> that the iterator can be loaded and attached; \<^verbatim>\<open>benchmark\<close> that allocations succeed;
  \<^verbatim>\<open>benchmark_cache\<close> full transfers and a deletable file; \<^verbatim>\<open>benchmark_wmhigh\<close> that its
  mappings can be unmapped; \<^verbatim>\<open>benchmark_file\<close> that its files can be mapped, unmapped and deleted. The five programs whose loop never
  ends hold exactly their skeleton in the loop and nothing once they have ended:
  \<^verbatim>\<open>minimal\<close>, \<^verbatim>\<open>minimal_legacy\<close> and \<^verbatim>\<open>lsm\<close> always, \<^verbatim>\<open>minimal_ns\<close> if \<^verbatim>\<open>stat\<close> succeeds, \<^verbatim>\<open>uprobe\<close> in its
  first 46341 turns.\<close>

theorem programs_release_everything:
  assumes "kprobe_sound a" and "tc_sound t" and "profile_sound p" and "task_iter_sound i"
    and "ew_stat n \<noteq> None" and "ew_turns u \<le> 46341" and "\<forall>j. burst_sound (bt_burst (m j))"
    and "cache_sound c" and "\<forall>j k. ow_munmap (wt_ops (fst r j) k) \<and> ow_munmap (wt_ops (snd r j) k)"
    and "\<forall>j b k. file_fine (ft_files (f j) b k)"
    and "finite_runs = [kprobe_main pops a, bootstrap_main b, tc_main t, profile_main p, task_iter_main i, usdt_main w,
      fentry_main w, ksyscall_main w, bench_main qsort m, cache_main c, wm_main r, file_main f]"
    and "endless_runs = [minimal_main w, minimal_legacy_main w, lsm_main w, minimal_ns_main n, uprobe_main u]"
  shows "(\<forall>x \<in> set finite_runs. owned [] (fst x) \<noteq> None \<and> (snd x \<noteq> Running \<longrightarrow> owned [] (fst x) = Some [])) \<and>
    (\<forall>x \<in> set endless_runs. owned [] (fst x) = Some (if snd x = Running then [Skel] else []))"
proof
  have "clean [] x" if "x \<in> set finite_runs" for x
    using that unfolding assms(11) set_simps
    by (elim insertE emptyE; hypsubst)
      (rule kprobe_app.clean_main tc_app.clean_main profile_app.clean_main task_iter_app.clean_main bench_app.clean_main
        cache_app.clean_main wmhigh_app.clean_main file_app.clean_main bootstrap_app.clean_main usdt_app.clean_main
        fentry_app.clean_main ksyscall_app.clean_main assms TrueI)+
  then show "\<forall>x \<in> set finite_runs. owned [] (fst x) \<noteq> None \<and> (snd x \<noteq> Running \<longrightarrow> owned [] (fst x) = Some [])"
    by (simp add: clean_def)
  show "\<forall>x \<in> set endless_runs. owned [] (fst x) = Some (if snd x = Running then [Skel] else [])"
    unfolding assms(12) set_simps ball_simps
    by (intro conjI TrueI minimal_app.held minimal_legacy_app.held lsm_app.held minimal_ns_app.held uprobe_app.held assms)
qed

definition demo_kprobe_env :: "(page_key \<times> metric) list kprobe_env" where
  "demo_kprobe_env = \<lparr>ke_open_and_load = True, ke_attach = 0, ke_signal = True, ke_pthread_create = 0,
     ke_iters = [\<lparr>it_stop = False, it_fopen = True, it_maps = (\<lambda>_. [])\<rparr>,
                 \<lparr>it_stop = True, it_fopen = True, it_maps = (\<lambda>_. [])\<rparr>]\<rparr>"

definition fine_turn :: file_turn where
  "fine_turn = \<lparr>ft_start = (3, 0), ft_files = (\<lambda>b i. all_fine), ft_end = (4, 0)\<rparr>"

theorem programs_release_everything_witness:
  "owned [] (fst (kprobe_main alist_pages demo_kprobe_env)) = Some [] \<and> snd (kprobe_main alist_pages demo_kprobe_env) = Exit 0 \<and>
   owned [] (fst (minimal_main demo_probe_world)) = Some [Skel] \<and> snd (minimal_main demo_probe_world) = Running"
proof -
  let ?t = "\<lparr>tw_open_and_load = True, tw_hook_create = - EEXIST, tw_attach = 0, tw_signal_errno = 0, tw_exiting = [True], tw_detach = 0\<rparr>"
  let ?b = "\<lparr>bw_args = [], bw_argp_err = 0, bw_open = False, bw_load = 0, bw_attach = 0, bw_ring_buffer_new = True, bw_polls = []\<rparr>"
  let ?i = "\<lparr>iw_open_and_load = True, iw_attach = 0, iw_iter_create = 3, iw_reads = [Read_eof]\<rparr>"
  let ?c = "\<lparr>cw_malloc = True, cw_open = True, cw_write = (\<lambda>i. 4096), cw_read = (\<lambda>i. 4096), cw_unlink = True\<rparr>"
  have sound: "kprobe_sound demo_kprobe_env" "tc_sound ?t" "profile_sound demo_profile" "task_iter_sound ?i"
      "ew_stat demo_loop_world \<noteq> None" "ew_turns demo_probe_world \<le> 46341" "\<forall>j. burst_sound (bt_burst demo_turn)"
      "cache_sound ?c" "\<forall>j k. ow_munmap (wt_ops demo_wm_turn k) \<and> ow_munmap (wt_ops demo_wm_turn k)"
      "\<forall>j b k. file_fine (ft_files fine_turn b k)"
    by (simp_all add: kprobe_sound_def tc_sound_def profile_sound_def task_iter_sound_def cache_sound_def demo_kprobe_env_def
      demo_profile_def demo_probe_world_def demo_loop_world_def demo_turn_def burst_sound_def demo_wm_turn_def fine_turn_def
      file_fine_def file_mapped_def all_fine_def)
  have m: "\<forall>j. burst_sound (bt_burst ((\<lambda>_. demo_turn) j))" using sound(7) by simp
  have r: "\<forall>j k. ow_munmap (wt_ops (fst (\<lambda>_. demo_wm_turn, \<lambda>_. demo_wm_turn) j) k)
      \<and> ow_munmap (wt_ops (snd (\<lambda>_. demo_wm_turn, \<lambda>_. demo_wm_turn) j) k)" using sound(9) by simp
  have f: "\<forall>j b k. file_fine (ft_files ((\<lambda>_. fine_turn) j) b k)" using sound(10) by simp
  note all = programs_release_everything [OF sound(1-6) m sound(8) r f refl refl, of alist_pages ?b demo_probe_world isort_by]
  have "snd (kprobe_loop alist_pages 0 (\<lparr>it_stop = False, it_fopen = True, it_maps = (\<lambda>_. [])\<rparr> # its) k) = snd (kprobe_loop alist_pages 1 its k)"
    for its k
    by (subst kprobe_loop_turn [OF alist_iter_axioms]) (simp_all add: alist_inv_def Let_def del: kprobe_loop.simps)
  then have "snd (kprobe_main alist_pages demo_kprobe_env) = Exit 0"
    by (simp add: kprobe_main_def demo_kprobe_env_def Let_def kprobe_loop.simps(2) [of _ "Suc 0"] del: kprobe_loop.simps(2))
  moreover have "snd (minimal_main demo_probe_world) = Running"
    by (simp add: minimal_main_def demo_probe_world_def forever_def)
  ultimately show ?thesis using all by simp
qed

section \<open>Exit statuses after polling\<close>

text \<open>
  Two programs poll a ring buffer in the same way and end when a signal arrives. After polls that
  succeeded, \<^verbatim>\<open>bootstrap\<close> always exits with status 0; \<^verbatim>\<open>sockfilter\<close> exits with the negated result of its
  last poll, which is the number of records that this poll delivered.\<close>

theorem exit_status_after_polling:
  assumes "argp_run bootstrap_parse_arg (bw_args b) \<lparr>env_verbose = False, env_min_duration_ms = 0\<rparr> = Inr env"
    and "bw_argp_err b = 0" "bw_open b" "bw_load b = 0" "bw_attach b = 0" "bw_ring_buffer_new b"
    and "argp_run sockfilter_parse_arg (sw_args s) ''lo'' = Inr interface"
    and "sw_argp_err s = 0" "sw_open_and_load s" "sw_ring_buffer_new s" "sw_socket s" "sw_bind s" "sw_setsockopt s"
    and "bw_polls b = ps @ [p]" "sw_polls s = qs @ [q]" "p_exiting p" "p_exiting q"
    and "\<forall>x \<in> set ps. \<not> p_exiting x \<and> 0 \<le> p_result x" "\<forall>x \<in> set qs. \<not> p_exiting x \<and> 0 \<le> p_result x"
  shows "snd (bootstrap_main b) = Exit 0 \<and>
    snd (sockfilter_main s) = Exit (if qs = [] then 0 else - p_result (last qs))"
proof -
  have "ps \<noteq> [] \<Longrightarrow> 0 \<le> p_result (last ps)" using assms(18) by simp
  then show ?thesis
    using assms(1-17) bootstrap_loop_stop [OF assms(18,16)] sockfilter_loop_stop [OF assms(19,17)]
    by (simp add: bootstrap_main_def sockfilter_main_def open_raw_sock_def Let_def not_less)
qed

theorem exit_status_after_polling_witness:
  "snd (sockfilter_main demo_sock_world) = Exit (- 1)"
  using exit_status_after_polling [where
      b = "\<lparr>bw_args = [], bw_argp_err = 0, bw_open = True, bw_load = 0, bw_attach = 0, bw_ring_buffer_new = True,
        bw_polls = [] @ [\<lparr>p_exiting = True, p_events = [], p_result = 0\<rparr>]\<rparr>" and
      s = demo_sock_world and interface = "''eth0''" and
      ps = "[]" and qs = "[\<lparr>p_exiting = False, p_events = [Line ''x''], p_result = 1\<rparr>]" and
      p = "\<lparr>p_exiting = True, p_events = [], p_result = 0\<rparr>" and q = "\<lparr>p_exiting = True, p_events = [], p_result = 0\<rparr>"]
  by (simp add: demo_sock_world_def sockfilter_parse_arg_def)

end
